(* ===== verification/Prelude.thy ===== *)
theory Prelude
  imports Main "HOL-Library.Word" "HOL-Library.AList" "HOL-Library.Product_Lexorder"
begin

text \<open>
  Shared vocabulary of the development.

  \<^item> The machine integers, addresses and hashes of the Rust sources as words, and an
    \<open>Instant\<close> or a \<open>Duration\<close> as a natural number of ticks of one monotonic clock.
    \<open>Instant::duration_since\<close> saturates at zero, which is subtraction on \<^typ>\<open>nat\<close>.
  \<^item> The arithmetic methods of the Rust integers that the sources call:
    \<open>saturating_add\<close>, \<open>saturating_sub\<close>, \<open>checked_add\<close>, \<open>checked_sub\<close>, \<open>checked_mul\<close>.
  \<^item> \<open>std::collections\<close>: a \<open>HashMap\<close> is an association list with distinct keys whose list
    order is the iteration order (which Rust leaves open, so no theorem fixes it), and a
    \<open>BTreeMap\<close> is an association list strictly sorted by key. Both are read by \<^const>\<open>map_of\<close>.
  \<^item> Interfaces: \<open>map_adt\<close> (what every keyed container promises), \<open>ordered_map_adt\<close> (a
    container with ordered keys), and \<open>invariant_machine\<close> (a component whose events keep
    an invariant), with the lemmas that follow from the contracts alone.
\<close>

section \<open>Machine types\<close>

type_synonym u8 = "8 word"
type_synonym u16 = "16 word"
type_synonym u32 = "32 word"
type_synonym u64 = "64 word"
type_synonym u128 = "128 word"
type_synonym u256 = "256 word"
type_synonym i32 = "32 word"
type_synonym address = "160 word"
type_synonym b256 = "256 word"
type_synonym instant = nat
type_synonym duration = nat

named_theorems container_simps
  "lookup and membership laws of the container models"
named_theorems container_inv
  "operations that keep the representation invariants of the container models"

section \<open>Integer methods of the Rust standard library\<close>

definition saturating_add :: "'a::len word \<Rightarrow> 'a word \<Rightarrow> 'a word" where
  "saturating_add a b = (if unat a + unat b < 2 ^ LENGTH('a) then a + b else - 1)"

definition saturating_sub :: "'a::len word \<Rightarrow> 'a word \<Rightarrow> 'a word" where
  "saturating_sub a b = (if b \<le> a then a - b else 0)"

definition checked_add :: "'a::len word \<Rightarrow> 'a word \<Rightarrow> 'a word option" where
  "checked_add a b = (if unat a + unat b < 2 ^ LENGTH('a) then Some (a + b) else None)"

definition checked_sub :: "'a::len word \<Rightarrow> 'a word \<Rightarrow> 'a word option" where
  "checked_sub a b = (if b \<le> a then Some (a - b) else None)"

definition checked_mul :: "'a::len word \<Rightarrow> 'a word \<Rightarrow> 'a word option" where
  "checked_mul a b = (if unat a * unat b < 2 ^ LENGTH('a) then Some (a * b) else None)"

section \<open>HashMap and BTreeMap\<close>

type_synonym ('k, 'v) hash_map = "('k \<times> 'v) list"
type_synonym ('k, 'v) btree_map = "('k \<times> 'v) list"

abbreviation keys :: "('k \<times> 'v) list \<Rightarrow> 'k list" where
  "keys m \<equiv> map fst m"

definition hm_inv :: "('k, 'v) hash_map \<Rightarrow> bool" where
  "hm_inv m \<longleftrightarrow> distinct (keys m)"

definition bt_inv :: "('k::linorder, 'v) btree_map \<Rightarrow> bool" where
  "bt_inv m \<longleftrightarrow> sorted_wrt (<) (keys m)"

definition map_remove :: "'k \<Rightarrow> ('k \<times> 'v) list \<Rightarrow> ('k \<times> 'v) list" where
  "map_remove k m = filter (\<lambda>e. fst e \<noteq> k) m"

abbreviation hm_insert :: "'k \<Rightarrow> 'v \<Rightarrow> ('k, 'v) hash_map \<Rightarrow> ('k, 'v) hash_map" where
  "hm_insert \<equiv> AList.update"

fun bt_insert :: "'k::linorder \<Rightarrow> 'v \<Rightarrow> ('k, 'v) btree_map \<Rightarrow> ('k, 'v) btree_map" where
  "bt_insert k v [] = [(k, v)]"
| "bt_insert k v (e # m) =
     (if fst e < k then e # bt_insert k v m
      else if fst e = k then (k, v) # m
      else (k, v) # e # m)"

definition contains_key :: "('k \<times> 'v) list \<Rightarrow> 'k \<Rightarrow> bool" where
  "contains_key m k \<longleftrightarrow> map_of m k \<noteq> None"

definition last_entry :: "('k \<times> 'v) list \<Rightarrow> ('k \<times> 'v) option" where
  "last_entry m = (if m = [] then None else Some (last m))"

definition first_entry :: "('k \<times> 'v) list \<Rightarrow> ('k \<times> 'v) option" where
  "first_entry m = (case m of [] \<Rightarrow> None | e # _ \<Rightarrow> Some e)"

definition entries_below :: "'k::linorder \<Rightarrow> ('k, 'v) btree_map \<Rightarrow> ('k, 'v) btree_map" where
  "entries_below k m = filter (\<lambda>e. fst e < k) m"

definition entries_from :: "'k::linorder \<Rightarrow> ('k, 'v) btree_map \<Rightarrow> ('k, 'v) btree_map" where
  "entries_from k m = filter (\<lambda>e. k \<le> fst e) m"

section \<open>Lemmas on the integer methods\<close>

lemma unat_1_len [simp]: "unat (1::'a::len word) = 1"
  by (simp add: unat_1)

lemma unat_bound: "unat (a::'a::len word) < 2 ^ LENGTH('a)"
  by (rule unsigned_less)

lemma unat_add_no_wrap:
  fixes a b :: "'a::len word"
  shows "unat a + unat b < 2 ^ LENGTH('a) \<Longrightarrow> unat (a + b) = unat a + unat b"
  by (simp add: unat_add_lem)

lemma word_neq_max_iff:
  fixes a :: "'a::len word"
  shows "a \<noteq> - 1 \<longleftrightarrow> unat a + 1 < 2 ^ LENGTH('a)"
proof -
  have "unat (- 1 :: 'a word) = 2 ^ LENGTH('a) - 1"
    by (simp add: unsigned_minus_1_eq_mask mask_eq_exp_minus_1)
  moreover have "unat a < 2 ^ LENGTH('a)" by simp
  moreover have "a = - 1 \<longleftrightarrow> unat a = unat (- 1 :: 'a word)"
    by (simp only: word_unat_eq_iff)
  ultimately show ?thesis by linarith
qed

lemma unat_Suc_word:
  fixes a :: "'a::len word"
  shows "a \<noteq> - 1 \<Longrightarrow> unat (a + 1) = unat a + 1"
  using unat_add_no_wrap [of a 1] by (simp add: word_neq_max_iff)

lemma word_less_imp_neq_max: "(a::'a::len word) < b \<Longrightarrow> a \<noteq> - 1"
  by (metis leD word_order.extremum)

lemma word_less_Suc_iff:
  fixes a b :: "'a::len word"
  shows "a \<noteq> - 1 \<Longrightarrow> b < a + 1 \<longleftrightarrow> b \<le> a"
  by (simp add: word_less_nat_alt word_le_nat_alt unat_Suc_word less_Suc_eq_le)

lemma word_Suc_le_iff:
  fixes a b :: "'a::len word"
  shows "a \<noteq> - 1 \<Longrightarrow> a + 1 \<le> b \<longleftrightarrow> a < b"
  by (simp add: word_less_nat_alt word_le_nat_alt unat_Suc_word Suc_le_eq)

lemma saturating_add_1:
  "saturating_add (a::'a::len word) 1 = (if a = - 1 then - 1 else a + 1)"
  using word_neq_max_iff [of a] by (auto simp: saturating_add_def)

lemma checked_add_1:
  "checked_add (a::'a::len word) 1 = (if a = - 1 then None else Some (a + 1))"
  using word_neq_max_iff [of a] by (auto simp: checked_add_def)

lemma checked_add_Some:
  "checked_add (a::'a::len word) b = Some c \<Longrightarrow> unat c = unat a + unat b"
  by (auto simp: checked_add_def unat_add_no_wrap split: if_splits)

lemma checked_mul_Some:
  "checked_mul (a::'a::len word) b = Some c \<Longrightarrow> unat c = unat a * unat b"
  by (auto simp: checked_mul_def unat_mult_lem split: if_splits)

lemma unat_diff_le:
  "(b::'a::len word) \<le> a \<Longrightarrow> unat (a - b) = unat a - unat b"
  by (simp add: unat_sub)

lemma checked_sub_Some:
  "checked_sub (a::'a::len word) b = Some c \<Longrightarrow> b \<le> a \<and> unat c = unat a - unat b"
  by (auto simp: checked_sub_def unat_diff_le split: if_splits)

lemma unat_saturating_sub:
  "unat (saturating_sub (a::'a::len word) b) = unat a - unat b"
  by (auto simp: saturating_sub_def unat_diff_le word_le_nat_alt)

lemma unat_saturating_add:
  "unat (saturating_add (a::'a::len word) b) = min (unat a + unat b) (2 ^ LENGTH('a) - 1)"
  by (auto simp: saturating_add_def unat_add_no_wrap unsigned_minus_1_eq_mask
      mask_eq_exp_minus_1)

lemma unat_of_nat_small:
  "n < 2 ^ LENGTH('a) \<Longrightarrow> unat (of_nat n :: 'a::len word) = n"
  by (simp add: unat_of_nat take_bit_nat_eq_self)

lemma unat_add_of_nat:
  fixes a :: "'a::len word"
  assumes "unat a + n < 2 ^ LENGTH('a)"
  shows "unat (a + of_nat n) = unat a + n"
proof -
  have "unat (of_nat n :: 'a word) = n" using assms by (intro unat_of_nat_small) linarith
  with assms show ?thesis by (simp add: unat_add_no_wrap)
qed

lemma unat_below_256:
  assumes "LENGTH('a::len) \<le> 256"
  shows "unat (x :: 'a word) < 2 ^ 256"
  by (rule order.strict_trans2 [OF unat_bound]) (use assms in \<open>intro power_increasing; simp\<close>)

lemma unat_ucast_u256:
  "LENGTH('a::len) \<le> 256 \<Longrightarrow> unat (ucast (x :: 'a word) :: u256) = unat x"
  by (simp only: unsigned_ucast_eq) (simp add: take_bit_nat_eq_self [OF unat_below_256])

lemma unat_u64_bound [simp]: "unat (a::u64) < 18446744073709551616"
  using unsigned_less [of a] by simp

text \<open>Binary evaluation of the overflow tests.\<close>

lemma unat_add_bound_code:
  "unat (a::'a::len word) + unat b < 2 ^ LENGTH('a) \<longleftrightarrow> uint a + uint b < 2 ^ LENGTH('a)"
  by (simp flip: of_nat_less_iff [where 'a = int])

lemma unat_mult_bound_code:
  "unat (a::'a::len word) * unat b < 2 ^ LENGTH('a) \<longleftrightarrow> uint a * uint b < 2 ^ LENGTH('a)"
  by (simp flip: of_nat_less_iff [where 'a = int])

lemma integer_method_code [code]:
  "saturating_add a b = (if uint a + uint b < 2 ^ LENGTH('a) then a + b else - 1)"
  "checked_add a b = (if uint a + uint b < 2 ^ LENGTH('a) then Some (a + b) else None)"
  "checked_mul a b = (if uint a * uint b < 2 ^ LENGTH('a) then Some (a * b) else None)"
  for a b :: "'a::len word"
  by (simp_all only: saturating_add_def checked_add_def checked_mul_def unat_add_bound_code
      unat_mult_bound_code)

section \<open>Lemmas on the containers\<close>

lemma map_of_map_remove [simp, container_simps]:
  "map_of (map_remove k m) = (map_of m)(k := None)"
  by (induction m) (auto simp: map_remove_def fun_eq_iff)

lemma map_of_hm_insert [simp, container_simps]:
  "map_of (hm_insert k v m) = (map_of m)(k \<mapsto> v)"
  by (rule update_conv')

lemma map_of_bt_insert [simp, container_simps]:
  "map_of (bt_insert k v m) = (map_of m)(k \<mapsto> v)"
  by (induction m) (auto simp: fun_eq_iff)

lemma keys_map_remove [simp]: "keys (map_remove k m) = filter (\<lambda>x. x \<noteq> k) (keys m)"
  by (simp add: map_remove_def filter_map comp_def)

lemma set_keys_bt_insert [simp]: "set (keys (bt_insert k v m)) = insert k (set (keys m))"
  by (induction m) auto

lemma set_keys_hm_insert [simp]: "set (keys (hm_insert k v m)) = insert k (set (keys m))"
  using dom_update [of k v m] by simp

lemma set_keys_dom: "set (keys m) = dom (map_of m)"
  by (simp add: dom_map_of_conv_image_fst)

lemma contains_key_iff [container_simps]: "contains_key m k \<longleftrightarrow> k \<in> set (keys m)"
  by (simp add: contains_key_def map_of_eq_None_iff)

lemma hm_inv_Nil [simp, container_inv]: "hm_inv []"
  by (simp add: hm_inv_def)

lemma hm_inv_insert [simp, container_inv]: "hm_inv m \<Longrightarrow> hm_inv (hm_insert k v m)"
  by (simp add: hm_inv_def distinct_update)

lemma hm_inv_remove [simp, container_inv]: "hm_inv m \<Longrightarrow> hm_inv (map_remove k m)"
  by (simp add: hm_inv_def)

lemma hm_inv_filter [simp, container_inv]: "hm_inv m \<Longrightarrow> hm_inv (filter P m)"
  by (auto simp: hm_inv_def distinct_map intro: inj_on_subset)

lemma bt_inv_Nil [simp, container_inv]: "bt_inv []"
  by (simp add: bt_inv_def)

lemma bt_inv_insert [simp, container_inv]: "bt_inv m \<Longrightarrow> bt_inv (bt_insert k v m)"
  unfolding bt_inv_def
proof (induction m)
  case (Cons e m)
  have "set (map fst (bt_insert k v m)) = insert k (set (map fst m))" by (rule set_keys_bt_insert)
  with Cons show ?case by fastforce
qed simp

lemma bt_inv_filter [simp, container_inv]: "bt_inv m \<Longrightarrow> bt_inv (filter P m)"
  by (induction m) (auto simp: bt_inv_def)

lemma bt_inv_remove [simp, container_inv]: "bt_inv m \<Longrightarrow> bt_inv (map_remove k m)"
  by (simp add: map_remove_def)

lemma bt_inv_below [simp, container_inv]: "bt_inv m \<Longrightarrow> bt_inv (entries_below k m)"
  by (simp add: entries_below_def)

lemma bt_inv_from [simp, container_inv]: "bt_inv m \<Longrightarrow> bt_inv (entries_from k m)"
  by (simp add: entries_from_def)

lemma bt_inv_distinct: "bt_inv m \<Longrightarrow> distinct (keys m)"
  by (simp add: bt_inv_def strict_sorted_iff)

lemma map_of_filter_key:
  "map_of (filter (\<lambda>e. P (fst e)) m) = (\<lambda>k. if P k then map_of m k else None)"
  by (induction m) (auto simp: fun_eq_iff)

lemma map_of_entries_from [simp, container_simps]:
  "map_of (entries_from k m) = (\<lambda>x. if k \<le> x then map_of m x else None)"
  by (simp add: entries_from_def map_of_filter_key)

lemma map_of_entries_below [simp, container_simps]:
  "map_of (entries_below k m) = (\<lambda>x. if x < k then map_of m x else None)"
  unfolding entries_below_def by (rule map_of_filter_key)

lemma last_entry_None [simp]: "last_entry m = None \<longleftrightarrow> m = []"
  by (simp add: last_entry_def)

lemma last_entry_max:
  assumes "bt_inv m" and "last_entry m = Some (k, v)"
  shows "k \<in> set (keys m)" and "\<forall>x\<in>set (keys m). x \<le> k" and "map_of m k = Some v"
proof -
  from assms(2) obtain xs where m: "m = xs @ [(k, v)]"
    by (auto simp: last_entry_def split: if_splits) (metis append_butlast_last_id)
  then show "k \<in> set (keys m)" by simp
  from m assms(1) show "\<forall>x\<in>set (keys m). x \<le> k"
    by (auto simp: bt_inv_def sorted_wrt_append)
  from m have "(k, v) \<in> set m" by simp
  moreover from assms(1) have "distinct (keys m)" by (rule bt_inv_distinct)
  ultimately show "map_of m k = Some v" by (simp add: map_of_is_SomeI)
qed

lemma first_entry_min:
  assumes "bt_inv m" and "first_entry m = Some (k, v)"
  shows "map_of m k = Some v" and "\<forall>x\<in>set (keys m). k \<le> x"
  using assms by (auto simp: first_entry_def bt_inv_def split: list.splits)

lemma length_map_remove_less:
  "map_of m k = Some v \<Longrightarrow> length (map_remove k m) < length m"
  unfolding map_remove_def by (rule length_filter_less [of "(k, v)"]) (auto dest: map_of_SomeD)

lemma length_map_remove_present:
  "distinct (keys m) \<Longrightarrow> k \<in> set (keys m) \<Longrightarrow> length (map_remove k m) = length m - 1"
proof (induction m)
  case (Cons e m)
  show ?case
  proof (cases "fst e = k")
    case True
    with Cons.prems have "filter (\<lambda>e. fst e \<noteq> k) m = m"
      by (intro filter_True) (auto simp: image_iff)
    with True show ?thesis by (simp add: map_remove_def)
  next
    case False
    with Cons show ?thesis by (cases m) (auto simp: map_remove_def)
  qed
qed simp

lemma length_bt_insert:
  "bt_inv m \<Longrightarrow> length (bt_insert k v m) = (if k \<in> set (keys m) then length m else Suc (length m))"
  by (induction m) (fastforce simp: bt_inv_def)+

lemma map_remove_absent: "k \<notin> set (keys m) \<Longrightarrow> map_remove k m = m"
  by (auto simp: map_remove_def intro!: filter_True)

lemma map_by_keys:
  assumes "distinct (keys m)"
  shows "m = map (\<lambda>k. (k, the (map_of m k))) (keys m)"
proof -
  have "map (\<lambda>e. (fst e, the (map_of m (fst e)))) m = m"
    by (rule map_idI) (use assms in \<open>auto simp: map_of_is_SomeI\<close>)
  then show ?thesis by (simp add: comp_def)
qed

lemma bt_ext:
  assumes "bt_inv m" and "bt_inv m'" and "map_of m = map_of m'"
  shows "m = m'"
proof -
  have "set (keys m) = set (keys m')" using assms(3) by (simp only: set_keys_dom)
  with assms(1,2) have "keys m = keys m'"
    unfolding bt_inv_def by (metis strict_sorted_equal)
  then show ?thesis
    using map_by_keys [OF bt_inv_distinct [OF assms(1)]]
      map_by_keys [OF bt_inv_distinct [OF assms(2)]] assms(3) by metis
qed

lemma card_dom_map_of: "distinct (keys m) \<Longrightarrow> card (dom (map_of m)) = length m"
  by (metis distinct_card length_map set_keys_dom)

section \<open>Interfaces\<close>

text \<open>
  What a keyed container promises: lookup after an insertion and after a removal, a
  representation invariant that both keep, and a length that counts the keys.
\<close>

locale map_adt =
  fixes lookup :: "'m \<Rightarrow> 'k \<Rightarrow> 'v option"
    and ins :: "'k \<Rightarrow> 'v \<Rightarrow> 'm \<Rightarrow> 'm"
    and rem :: "'k \<Rightarrow> 'm \<Rightarrow> 'm"
    and len :: "'m \<Rightarrow> nat"
    and invar :: "'m \<Rightarrow> bool"
  assumes lookup_ins: "invar m \<Longrightarrow> lookup (ins k v m) = (lookup m)(k \<mapsto> v)"
    and lookup_rem: "invar m \<Longrightarrow> lookup (rem k m) = (lookup m)(k := None)"
    and invar_ins: "invar m \<Longrightarrow> invar (ins k v m)"
    and invar_rem: "invar m \<Longrightarrow> invar (rem k m)"
    and finite_lookup: "invar m \<Longrightarrow> finite (dom (lookup m))"
    and len_lookup: "invar m \<Longrightarrow> len m = card (dom (lookup m))"
begin

lemma invar_fold_rem: "invar m \<Longrightarrow> invar (fold rem ks m)"
  by (induction ks arbitrary: m) (auto intro: invar_rem)

lemma lookup_fold_rem:
  "invar m \<Longrightarrow> lookup (fold rem ks m) = (\<lambda>k. if k \<in> set ks then None else lookup m k)"
  by (induction ks arbitrary: m) (auto simp: invar_rem lookup_rem fun_eq_iff)

lemma invar_fold_ins: "invar m \<Longrightarrow> invar (fold (\<lambda>e. ins (fst e) (f e)) es m)"
  by (induction es arbitrary: m) (auto intro: invar_ins)

lemma dom_fold_ins:
  "invar m \<Longrightarrow> dom (lookup (fold (\<lambda>e. ins (fst e) (f e)) es m)) = fst ` set es \<union> dom (lookup m)"
  by (induction es arbitrary: m) (auto simp: invar_ins lookup_ins)

lemma len_ins: "invar m \<Longrightarrow> len (ins k v m) = (if lookup m k = None then Suc (len m) else len m)"
  by (auto simp: len_lookup invar_ins lookup_ins finite_lookup domIff insert_absorb)

lemma len_rem: "invar m \<Longrightarrow> len (rem k m) = (if lookup m k = None then len m else len m - 1)"
  by (auto simp: len_lookup invar_rem lookup_rem finite_lookup domIff card_Diff_singleton)

end

text \<open>An ordered container also lists its entries by ascending key.\<close>

locale ordered_map_adt = map_adt lookup ins rem len invar
  for lookup :: "'m \<Rightarrow> 'k::linorder \<Rightarrow> 'v option" and ins rem len invar +
  fixes entries :: "'m \<Rightarrow> ('k \<times> 'v) list"
  assumes entries_sorted: "invar m \<Longrightarrow> sorted_wrt (<) (map fst (entries m))"
    and entries_lookup: "invar m \<Longrightarrow> map_of (entries m) = lookup m"
begin

lemma set_entries: "invar m \<Longrightarrow> (k, v) \<in> set (entries m) \<longleftrightarrow> lookup m k = Some v"
  using entries_sorted [of m] entries_lookup [of m]
  by (metis strict_sorted_iff map_of_eq_Some_iff)

lemma entries_length: "invar m \<Longrightarrow> length (entries m) = len m"
  using entries_sorted [of m] entries_lookup [of m]
  by (metis card_dom_map_of len_lookup strict_sorted_iff)

end

interpretation hash: map_adt map_of hm_insert map_remove length hm_inv
  by unfold_locales (auto simp: finite_dom_map_of card_dom_map_of hm_inv_def distinct_update)

interpretation btree: ordered_map_adt map_of bt_insert map_remove length bt_inv "\<lambda>m. m"
  by unfold_locales
    (auto simp: finite_dom_map_of card_dom_map_of bt_inv_distinct bt_inv_def [symmetric])

text \<open>
  A component that reacts to events: an invariant that every admissible event keeps
  holds after every sequence of events each of which is admissible when it happens.
\<close>

fun admissible_run :: "('e \<Rightarrow> 's \<Rightarrow> 's) \<Rightarrow> ('e \<Rightarrow> 's \<Rightarrow> bool) \<Rightarrow> 'e list \<Rightarrow> 's \<Rightarrow> bool" where
  "admissible_run step ok [] s \<longleftrightarrow> True"
| "admissible_run step ok (e # es) s \<longleftrightarrow> ok e s \<and> admissible_run step ok es (step e s)"

fun outputs :: "('e \<Rightarrow> 's \<Rightarrow> 's) \<Rightarrow> ('e \<Rightarrow> 's \<Rightarrow> 'o list) \<Rightarrow> 'e list \<Rightarrow> 's \<Rightarrow> 'o list" where
  "outputs step out [] s = []"
| "outputs step out (e # es) s = out e s @ outputs step out es (step e s)"

lemma admissible_True: "admissible_run step (\<lambda>_ _. True) es s"
  by (induction es arbitrary: s) simp_all

locale invariant_machine =
  fixes step :: "'e \<Rightarrow> 's \<Rightarrow> 's"
    and admissible :: "'e \<Rightarrow> 's \<Rightarrow> bool"
    and inv :: "'s \<Rightarrow> bool"
  assumes step_inv: "inv s \<Longrightarrow> admissible e s \<Longrightarrow> inv (step e s)"
begin

lemma run_inv: "inv s \<Longrightarrow> admissible_run step admissible es s \<Longrightarrow> inv (fold step es s)"
  by (induction es arbitrary: s) (auto intro: step_inv)

text \<open>
  What each step appends to an output, when every step extends the run of a measure that
  it moves forward, is the run from the first value of the measure to the last.
\<close>

lemma run_map_upt:
  assumes "\<And>e s. inv s \<Longrightarrow> admissible e s \<Longrightarrow>
    f s \<le> f (step e s) \<and> out e s = map g [f s ..< f (step e s)]"
  shows "inv s \<Longrightarrow> admissible_run step admissible es s \<Longrightarrow>
    f s \<le> f (fold step es s) \<and>
    outputs step out es s = map g [f s ..< f (fold step es s)]"
proof (induction es arbitrary: s)
  case (Cons e es)
  have "inv (step e s)" using Cons.prems step_inv by simp
  then have "f (step e s) \<le> f (fold step es (step e s))"
    and "outputs step out es (step e s) = map g [f (step e s) ..< f (fold step es (step e s))]"
    using Cons.IH [of "step e s"] Cons.prems by simp_all
  moreover have "f s \<le> f (step e s)" "out e s = map g [f s ..< f (step e s)]"
    using assms [of s e] Cons.prems by simp_all
  ultimately show ?case
    by (simp flip: map_append) (metis le_Suc_ex upt_add_eq_append)
qed simp

text \<open>Outputs that ascend within the interval that each step moves a measure through ascend over a run.\<close>

lemma run_ascends:
  assumes "\<And>e s. inv s \<Longrightarrow> admissible e s \<Longrightarrow>
    f s \<le> f (step e s) \<and> sorted_wrt (<) (out e s) \<and> set (out e s) \<subseteq> {f s ..< f (step e s) :: nat}"
  shows "inv s \<Longrightarrow> admissible_run step admissible es s \<Longrightarrow>
    f s \<le> f (fold step es s) \<and> sorted_wrt (<) (outputs step out es s) \<and>
    set (outputs step out es s) \<subseteq> {f s ..< f (fold step es s)}"
proof (induction es arbitrary: s)
  case (Cons e es)
  have "inv (step e s)" using Cons.prems step_inv by simp
  then have "f (step e s) \<le> f (fold step es (step e s)) \<and>
      sorted_wrt (<) (outputs step out es (step e s)) \<and>
      set (outputs step out es (step e s)) \<subseteq> {f (step e s) ..< f (fold step es (step e s))}"
    using Cons.IH [of "step e s"] Cons.prems by simp
  moreover have "f s \<le> f (step e s) \<and> sorted_wrt (<) (out e s) \<and> set (out e s) \<subseteq> {f s ..< f (step e s)}"
    using assms [of s e] Cons.prems by simp
  ultimately show ?case by (fastforce simp: sorted_wrt_append)
qed simp

lemmas run_upt = run_map_upt [where g = "\<lambda>x. x", simplified]

end

end
