(* ===== verification/Pending_Buffer.thy ===== *)
theory Pending_Buffer
  imports Prelude
begin

text \<open>
  \<open>crates/sequencer/src/pending.rs\<close>: the bounded buffer of future nonces of one sender.

  The \<open>BTreeMap\<close> of slots is a sorted association list. Every method is one definition with
  the buffer as its last argument; a method that mutates the buffer returns it with its result.
  \<open>drain_consecutive_from\<close> is the iterator run to exhaustion, as every caller runs it.
\<close>

section \<open>Data\<close>

datatype 't InsertOutcome =
    Inserted
  | Replaced
  | EvictedFuture u64 't
  | RejectedTooFar u64
  | DroppedBufferDisabled

record 't Slot =
  slot_deadline :: "instant option"
  slot_value :: 't

record 't PendingBuffer =
  pb_capacity :: "nat option"
  pb_inner :: "(u64, 't Slot) btree_map"

section \<open>Operations\<close>

definition pb_new :: "nat \<Rightarrow> 't PendingBuffer" where
  "pb_new capacity =
     \<lparr>pb_capacity = (if capacity = 0 then None else Some capacity), pb_inner = []\<rparr>"

definition pb_len :: "'t PendingBuffer \<Rightarrow> nat" where
  "pb_len b = length (pb_inner b)"

definition pb_count_below :: "u64 \<Rightarrow> 't PendingBuffer \<Rightarrow> nat" where
  "pb_count_below floor b = length (entries_below floor (pb_inner b))"

definition pb_contains :: "u64 \<Rightarrow> 't PendingBuffer \<Rightarrow> bool" where
  "pb_contains nonce b = contains_key (pb_inner b) nonce"

definition full_max :: "nat \<Rightarrow> u64 \<Rightarrow> 't PendingBuffer \<Rightarrow> (u64 \<times> 't Slot) option" where
  "full_max capacity nonce b =
     (if \<not> contains_key (pb_inner b) nonce \<and> capacity \<le> length (pb_inner b)
      then last_entry (pb_inner b) else None)"

definition pb_insert ::
  "u64 \<Rightarrow> 't \<Rightarrow> instant \<Rightarrow> 't PendingBuffer \<Rightarrow> 't InsertOutcome \<times> 't PendingBuffer" where
  "pb_insert nonce value deadline b =
     (case pb_capacity b of
        None \<Rightarrow> (DroppedBufferDisabled, b)
      | Some capacity \<Rightarrow>
          let slot = \<lparr>slot_deadline = Some deadline, slot_value = value\<rparr> in
          (case full_max capacity nonce b of
             Some (highest, highest_slot) \<Rightarrow>
               if highest < nonce then (RejectedTooFar nonce, b)
               else (EvictedFuture highest (slot_value highest_slot),
                     b\<lparr>pb_inner := bt_insert nonce slot (map_remove highest (pb_inner b))\<rparr>)
           | None \<Rightarrow>
               (if contains_key (pb_inner b) nonce then Replaced else Inserted,
                b\<lparr>pb_inner := bt_insert nonce slot (pb_inner b)\<rparr>)))"

definition pb_reinsert :: "u64 \<Rightarrow> 't \<Rightarrow> instant option \<Rightarrow> 't PendingBuffer \<Rightarrow> 't PendingBuffer" where
  "pb_reinsert nonce value deadline b =
     b\<lparr>pb_inner := bt_insert nonce \<lparr>slot_deadline = deadline, slot_value = value\<rparr> (pb_inner b)\<rparr>"

definition pb_remove :: "u64 \<Rightarrow> 't PendingBuffer \<Rightarrow> 't option \<times> 't PendingBuffer" where
  "pb_remove nonce b =
     (map_option slot_value (map_of (pb_inner b) nonce),
      b\<lparr>pb_inner := map_remove nonce (pb_inner b)\<rparr>)"

definition pb_expire :: "u64 \<Rightarrow> instant \<Rightarrow> 't PendingBuffer \<Rightarrow> 't option \<times> 't PendingBuffer" where
  "pb_expire nonce deadline b =
     (let live = (case map_of (pb_inner b) nonce of
                    None \<Rightarrow> False
                  | Some slot \<Rightarrow> slot_deadline slot = Some deadline)
      in if live then pb_remove nonce b else (None, b))"

definition pb_take_parked ::
  "u64 \<Rightarrow> ('t \<Rightarrow> bool) \<Rightarrow> 't PendingBuffer \<Rightarrow> 't option \<times> 't PendingBuffer" where
  "pb_take_parked nonce named b =
     (let parked = (case map_of (pb_inner b) nonce of
                      None \<Rightarrow> False
                    | Some slot \<Rightarrow> slot_deadline slot \<noteq> None \<and> named (slot_value slot))
      in if parked then pb_remove nonce b else (None, b))"

definition pb_drop_below :: "u64 \<Rightarrow> 't PendingBuffer \<Rightarrow> (u64 \<times> 't) list \<times> 't PendingBuffer" where
  "pb_drop_below floor b =
     (map (\<lambda>(nonce, slot). (nonce, slot_value slot)) (entries_below floor (pb_inner b)),
      b\<lparr>pb_inner := entries_from floor (pb_inner b)\<rparr>)"

text \<open>
  One call of the drain iterator's \<open>next\<close>. The slot leaves the buffer before the successor
  of its nonce is computed, and a successor that overflows ends the iteration with no item.
\<close>

definition drain_next ::
  "'t PendingBuffer \<Rightarrow> u64 \<Rightarrow> (u64 \<times> 't) option \<times> 't PendingBuffer \<times> u64" where
  "drain_next b next =
     (case map_of (pb_inner b) next of
        None \<Rightarrow> (None, b, next)
      | Some slot \<Rightarrow>
          let b' = b\<lparr>pb_inner := map_remove next (pb_inner b)\<rparr> in
          (case checked_add next 1 of
             None \<Rightarrow> (None, b', next)
           | Some next' \<Rightarrow> (Some (next, slot_value slot), b', next')))"

lemma drain_next_shrinks:
  assumes "drain_next b next = (Some item, b', next')"
  shows "length (pb_inner b') < length (pb_inner b)"
proof -
  from assms obtain slot where "map_of (pb_inner b) next = Some slot"
    by (auto simp: drain_next_def split: option.splits)
  with assms show ?thesis
    by (auto simp: drain_next_def Let_def length_map_remove_less split: option.splits)
qed

function drain_consecutive_from :: "'t PendingBuffer \<Rightarrow> u64 \<Rightarrow> (u64 \<times> 't) list \<times> 't PendingBuffer" where
  "drain_consecutive_from b next =
     (case drain_next b next of
        (None, b', _) \<Rightarrow> ([], b')
      | (Some item, b', next') \<Rightarrow>
          (case drain_consecutive_from b' next' of (items, b'') \<Rightarrow> (item # items, b'')))"
  by pat_completeness auto
termination
  by (relation "measure (\<lambda>(b, _). length (pb_inner b))")
    (auto intro: drain_next_shrinks dest: sym)

declare drain_consecutive_from.simps [simp del]
section \<open>Representation invariant\<close>

definition pb_inv :: "'t PendingBuffer \<Rightarrow> bool" where
  "pb_inv b \<longleftrightarrow> bt_inv (pb_inner b) \<and> pb_capacity b \<noteq> Some 0"

abbreviation pb_slot :: "'t PendingBuffer \<Rightarrow> u64 \<Rightarrow> 't Slot option" where
  "pb_slot b \<equiv> map_of (pb_inner b)"

abbreviation pb_nonces :: "'t PendingBuffer \<Rightarrow> u64 set" where
  "pb_nonces b \<equiv> dom (pb_slot b)"

named_theorems pb_inv_intros "operations that keep the invariant of the pending buffer"

lemma pb_inv_new [simp, pb_inv_intros]: "pb_inv (pb_new c)"
  by (simp add: pb_inv_def pb_new_def)

lemma pb_inv_insert [pb_inv_intros]: "pb_inv b \<Longrightarrow> pb_inv (snd (pb_insert n v d b))"
  by (auto simp: pb_inv_def pb_insert_def Let_def split: option.splits)

lemma pb_inv_reinsert [pb_inv_intros]: "pb_inv b \<Longrightarrow> pb_inv (pb_reinsert n v d b)"
  by (simp add: pb_inv_def pb_reinsert_def)

lemma pb_inv_remove [pb_inv_intros]: "pb_inv b \<Longrightarrow> pb_inv (snd (pb_remove n b))"
  by (simp add: pb_inv_def pb_remove_def)

lemma pb_inv_expire [pb_inv_intros]: "pb_inv b \<Longrightarrow> pb_inv (snd (pb_expire n d b))"
  by (auto simp: pb_expire_def Let_def intro: pb_inv_remove split: option.splits)

lemma pb_inv_take_parked [pb_inv_intros]: "pb_inv b \<Longrightarrow> pb_inv (snd (pb_take_parked n P b))"
  by (auto simp: pb_take_parked_def Let_def intro: pb_inv_remove split: option.splits)

lemma pb_inv_drop_below [pb_inv_intros]: "pb_inv b \<Longrightarrow> pb_inv (snd (pb_drop_below n b))"
  by (simp add: pb_inv_def pb_drop_below_def)

section \<open>Lookups after an operation\<close>

lemma pb_slot_new [simp]: "pb_slot (pb_new c) = Map.empty"
  by (simp add: pb_new_def)

lemma pb_slot_reinsert [simp]:
  "pb_slot (pb_reinsert n v d b) = (pb_slot b)(n \<mapsto> \<lparr>slot_deadline = d, slot_value = v\<rparr>)"
  by (simp add: pb_reinsert_def)

lemma pb_slot_remove [simp]: "pb_slot (snd (pb_remove n b)) = (pb_slot b)(n := None)"
  by (simp add: pb_remove_def)

lemma pb_slot_drop_below [simp]:
  "pb_slot (snd (pb_drop_below f b)) = (\<lambda>n. if f \<le> n then pb_slot b n else None)"
  by (simp add: pb_drop_below_def)

lemma pb_contains_iff: "pb_contains n b \<longleftrightarrow> n \<in> pb_nonces b"
  by (simp add: pb_contains_def contains_key_def domIff)

lemma pb_len_card: "pb_inv b \<Longrightarrow> pb_len b = card (pb_nonces b)"
  by (simp add: pb_inv_def pb_len_def btree.len_lookup)

lemma finite_pb_nonces [simp]: "finite (pb_nonces b)"
  by (simp add: finite_dom_map_of)

lemma pb_count_below_0_iff: "pb_count_below f b = 0 \<longleftrightarrow> (\<forall>n\<in>pb_nonces b. f \<le> n)"
  by (auto simp: pb_count_below_def entries_below_def filter_empty_conv not_less
      dom_map_of_conv_image_fst)

lemma pb_count_below_card:
  assumes "pb_inv b"
  shows "pb_count_below f b = card {n \<in> pb_nonces b. n < f}"
proof -
  have "bt_inv (entries_below f (pb_inner b))" using assms by (simp add: pb_inv_def)
  then have "pb_count_below f b = card (dom (map_of (entries_below f (pb_inner b))))"
    unfolding pb_count_below_def by (rule btree.len_lookup)
  also have "dom (map_of (entries_below f (pb_inner b))) = {n \<in> pb_nonces b. n < f}"
    by (auto split: if_splits)
  finally show ?thesis .
qed

lemma pb_capacity_simps [simp]:
  "pb_capacity (snd (pb_insert n v d b)) = pb_capacity b"
  "pb_capacity (pb_reinsert n v d' b) = pb_capacity b"
  "pb_capacity (snd (pb_remove n b)) = pb_capacity b"
  "pb_capacity (snd (pb_drop_below n b)) = pb_capacity b"
  by (auto simp: pb_insert_def pb_reinsert_def pb_remove_def pb_drop_below_def Let_def
      split: option.splits)

section \<open>Insertion keeps the lowest nonces\<close>

lemma Max_last_entry:
  assumes "pb_inv b" and "last_entry (pb_inner b) = Some (k, s)"
  shows "Max (pb_nonces b) = k" and "pb_slot b k = Some s"
proof -
  note l = last_entry_max [of "pb_inner b" k s]
  have "bt_inv (pb_inner b)" using assms(1) by (simp add: pb_inv_def)
  with l assms(2) show "pb_slot b k = Some s" by blast
  from \<open>bt_inv (pb_inner b)\<close> assms(2) l(1,2) show "Max (pb_nonces b) = k"
    unfolding set_keys_dom by (intro Max_eqI) auto
qed

lemma pb_insert_disabled [simp]:
  "pb_capacity b = None \<Longrightarrow> pb_insert n v d b = (DroppedBufferDisabled, b)"
  by (simp add: pb_insert_def)

lemma pb_insert_room:
  assumes "pb_inv b" and "pb_capacity b = Some c" and "n \<in> pb_nonces b \<or> card (pb_nonces b) < c"
  shows "pb_insert n v d b =
    (if n \<in> pb_nonces b then Replaced else Inserted,
     b\<lparr>pb_inner := bt_insert n \<lparr>slot_deadline = Some d, slot_value = v\<rparr> (pb_inner b)\<rparr>)"
proof -
  have "full_max c n b = None"
    using assms pb_len_card [OF assms(1)]
    by (auto simp: full_max_def contains_key_def pb_len_def domIff)
  with assms(2) show ?thesis
    by (simp add: pb_insert_def contains_key_def domIff)
qed

lemma pb_insert_full:
  assumes "pb_inv b" and "pb_capacity b = Some c" and "n \<notin> pb_nonces b" and "c \<le> card (pb_nonces b)"
  obtains k s where "k = Max (pb_nonces b)" and "pb_slot b k = Some s"
    and "pb_insert n v d b =
      (if k < n then (RejectedTooFar n, b)
       else (EvictedFuture k (slot_value s),
             b\<lparr>pb_inner := bt_insert n \<lparr>slot_deadline = Some d, slot_value = v\<rparr>
                              (map_remove k (pb_inner b))\<rparr>))"
proof -
  have len: "c \<le> length (pb_inner b)" using assms(1,4) pb_len_card [of b] by (simp add: pb_len_def)
  moreover have "c \<noteq> 0" using assms(1,2) by (auto simp: pb_inv_def)
  ultimately have "pb_inner b \<noteq> []" by auto
  then obtain k s where ks: "last_entry (pb_inner b) = Some (k, s)"
    by (cases "last_entry (pb_inner b)") auto
  have "full_max c n b = Some (k, s)"
    using assms(3) len ks by (simp add: full_max_def contains_key_def domIff)
  with assms(2) ks Max_last_entry [OF assms(1) ks] that show ?thesis
    by (simp add: pb_insert_def)
qed

lemma Max_insert_above:
  fixes K :: "'a::linorder set"
  assumes "finite K" and "K \<noteq> {}"
  shows "Max (insert n K) = (if Max K < n then n else Max K)"
  using assms by (auto simp: max_def simp del: Max_less_iff Max_ge_iff)

text \<open>The nonces a buffer of capacity \<open>c\<close> should hold after it takes in \<open>n\<close>.\<close>

definition lowest_kept :: "nat \<Rightarrow> u64 \<Rightarrow> u64 set \<Rightarrow> u64 set" where
  "lowest_kept c n K =
     (if n \<in> K \<or> card K < c then insert n K else insert n K - {Max (insert n K)})"

lemma card_lowest_kept:
  assumes "finite K" and "K \<noteq> {} \<or> 0 < c"
  shows "card (lowest_kept c n K) \<le> max c (card K)"
proof (cases "n \<in> K \<or> card K < c")
  case True
  with assms(1) show ?thesis by (auto simp: lowest_kept_def card_insert_if)
next
  case False
  have "Max (insert n K) \<in> insert n K" using assms(1) by (intro Max_in) auto
  with False assms(1) show ?thesis by (simp add: lowest_kept_def card_Diff_singleton)
qed

lemma pb_insert_effect:
  assumes "pb_inv b" and "pb_capacity b = Some c"
  shows "pb_slot (snd (pb_insert n v d b)) =
    (\<lambda>m. if m \<notin> lowest_kept c n (pb_nonces b) then None
         else if m = n then Some \<lparr>slot_deadline = Some d, slot_value = v\<rparr> else pb_slot b m)"
proof (cases "n \<in> pb_nonces b \<or> card (pb_nonces b) < c")
  case True
  then show ?thesis
    using pb_insert_room [OF assms, of n v d] by (auto simp: lowest_kept_def fun_eq_iff)
next
  case False
  then have full: "n \<notin> pb_nonces b" "c \<le> card (pb_nonces b)" by auto
  obtain k s where k: "k = Max (pb_nonces b)" "pb_slot b k = Some s"
    and ins: "pb_insert n v d b =
      (if k < n then (RejectedTooFar n, b)
       else (EvictedFuture k (slot_value s),
             b\<lparr>pb_inner := bt_insert n \<lparr>slot_deadline = Some d, slot_value = v\<rparr>
                              (map_remove k (pb_inner b))\<rparr>))"
    using pb_insert_full [OF assms full] by metis
  have "pb_nonces b \<noteq> {}" using k(2) by auto
  then have "Max (insert n (pb_nonces b)) = (if k < n then n else k)"
    using Max_insert_above [of "pb_nonces b" n] k(1) by simp
  with False ins k(2) show ?thesis by (auto simp: lowest_kept_def fun_eq_iff)
qed

lemma lowest_kept_subset: "lowest_kept c n K \<subseteq> insert n K"
  by (auto simp: lowest_kept_def)

lemma pb_insert_nonces:
  assumes "pb_inv b" and "pb_capacity b = Some c"
  shows "pb_nonces (snd (pb_insert n v d b)) = lowest_kept c n (pb_nonces b)"
  using lowest_kept_subset [of c n "pb_nonces b"]
  by (auto simp: pb_insert_effect [OF assms] split: if_splits)

text \<open>
  On an enabled buffer, an insertion that finds the nonce present or the buffer below its
  capacity adds the nonce. Otherwise the buffer keeps the lowest nonces: of the old nonces
  and the new one, exactly the highest is dropped. Every nonce that stays keeps its slot, and
  the inserted nonce carries the new value and deadline.
\<close>
theorem pb_insert_lowest_wins:
  assumes "pb_inv b" and "pb_capacity b = Some c"
  shows "pb_nonces (snd (pb_insert n v d b)) = lowest_kept c n (pb_nonces b)
    \<and> (\<forall>m. m \<in> lowest_kept c n (pb_nonces b) \<longrightarrow> pb_slot (snd (pb_insert n v d b)) m =
          (if m = n then Some \<lparr>slot_deadline = Some d, slot_value = v\<rparr> else pb_slot b m))"
  by (simp only: pb_insert_nonces [OF assms]) (simp add: pb_insert_effect [OF assms])

theorem pb_insert_lowest_wins_witness:
  "pb_nonces (snd (pb_insert 4 ''d'' 9
      \<lparr>pb_capacity = Some 2, pb_inner = [(3, \<lparr>slot_deadline = Some 1, slot_value = ''a''\<rparr>),
         (7, \<lparr>slot_deadline = Some 2, slot_value = ''b''\<rparr>)]\<rparr>)) = {3, 4}"
  using pb_insert_lowest_wins [of "\<lparr>pb_capacity = Some 2,
      pb_inner = [(3, \<lparr>slot_deadline = Some 1, slot_value = ''a''\<rparr>),
         (7, \<lparr>slot_deadline = Some 2, slot_value = ''b''\<rparr>)]\<rparr>" 2 4 "''d''" 9]
  by (simp add: pb_inv_def bt_inv_def lowest_kept_def card_insert_if insert_Diff_if) auto

text \<open>
  An insertion never grows a buffer past its capacity: the length afterwards is at most
  the larger of the capacity and the length before, which exceeds the capacity only when a
  rebuffer put back more than the capacity.
\<close>
theorem pb_insert_bounded:
  assumes "pb_inv b" and "pb_capacity b = Some c"
  shows "pb_len (snd (pb_insert n v d b)) \<le> max c (pb_len b)"
proof -
  have "0 < c" using assms by (auto simp: pb_inv_def)
  then show ?thesis
    using card_lowest_kept [OF finite_pb_nonces, of b c n] pb_insert_nonces [OF assms]
      pb_len_card [OF assms(1)] pb_len_card [OF pb_inv_insert [OF assms(1)]] by simp
qed

theorem pb_insert_bounded_witness:
  "pb_len (snd (pb_insert 4 ''d'' 9
      \<lparr>pb_capacity = Some 2, pb_inner = [(3, \<lparr>slot_deadline = Some 1, slot_value = ''a''\<rparr>),
         (7, \<lparr>slot_deadline = Some 2, slot_value = ''b''\<rparr>)]\<rparr>)) \<le> 2"
  using pb_insert_bounded [of "\<lparr>pb_capacity = Some 2,
      pb_inner = [(3, \<lparr>slot_deadline = Some 1, slot_value = ''a''\<rparr>),
         (7, \<lparr>slot_deadline = Some 2, slot_value = ''b''\<rparr>)]\<rparr>" 2 4 "''d''" 9]
  by (simp add: pb_inv_def bt_inv_def pb_len_def)

section \<open>The drain yields the contiguous run\<close>

lemma drain_stop: "pb_slot b start = None \<Longrightarrow> drain_consecutive_from b start = ([], b)"
  by (simp add: drain_consecutive_from.simps [of b start] drain_next_def)

lemma drain_step:
  assumes "pb_slot b start = Some s" and "start \<noteq> - 1"
  shows "drain_consecutive_from b start =
    (let (items, b') = drain_consecutive_from (snd (pb_remove start b)) (start + 1)
     in ((start, slot_value s) # items, b'))"
  using assms
  by (simp add: drain_consecutive_from.simps [of b start] drain_next_def checked_add_1
      pb_remove_def split: prod.splits)

lemma drain_last:
  assumes "pb_slot b (- 1) = Some s"
  shows "drain_consecutive_from b (- 1) = ([], snd (pb_remove (- 1) b))"
  using assms
  by (simp add: drain_consecutive_from.simps [of b] drain_next_def checked_add_1 pb_remove_def)

lemma drain_induct [case_names stop last step]:
  assumes "\<And>b start. pb_slot b start = None \<Longrightarrow> P b start"
    and "\<And>b s. pb_slot b (- 1) = Some s \<Longrightarrow> P b (- 1)"
    and "\<And>b start s. pb_slot b start = Some s \<Longrightarrow> start \<noteq> - 1 \<Longrightarrow>
           P (snd (pb_remove start b)) (start + 1) \<Longrightarrow> P b start"
  shows "P b start"
proof (induction "length (pb_inner b)" arbitrary: b start rule: less_induct)
  case (less b start)
  show ?case
  proof (cases "pb_slot b start")
    case None
    then show ?thesis by (rule assms(1))
  next
    case (Some s)
    have "length (pb_inner (snd (pb_remove start b))) < length (pb_inner b)"
      using length_map_remove_less [OF Some] by (simp add: pb_remove_def)
    then have "P (snd (pb_remove start b)) (start + 1)" by (rule less)
    with Some show ?thesis by (cases "start = - 1") (auto intro: assms(2,3))
  qed
qed

lemma drain_inv [pb_inv_intros]:
  "pb_inv b \<Longrightarrow> pb_inv (snd (drain_consecutive_from b start))"
  by (induction b start rule: drain_induct)
    (auto simp: drain_stop drain_last drain_step pb_inv_remove Let_def split: prod.splits)

lemma drain_capacity [simp]:
  "pb_capacity (snd (drain_consecutive_from b start)) = pb_capacity b"
  by (induction b start rule: drain_induct)
    (auto simp: drain_stop drain_last drain_step Let_def split: prod.splits)

text \<open>
  \<open>run_of b start items b'\<close>: the items are the dense run of \<open>b\<close> from \<open>start\<close>, in order and
  with the buffered values; the run ends below the last nonce; what is left in \<open>b'\<close> is the
  rest of \<open>b\<close>, and the nonce after the run is a gap.
\<close>

definition run_of ::
  "'t PendingBuffer \<Rightarrow> u64 \<Rightarrow> (u64 \<times> 't) list \<Rightarrow> 't PendingBuffer \<Rightarrow> bool" where
  "run_of b start items b' \<longleftrightarrow>
     map (\<lambda>e. unat (fst e)) items = [unat start ..< unat start + length items]
     \<and> unat start + length items < 2 ^ 64
     \<and> (\<forall>(n, v) \<in> set items. map_option slot_value (pb_slot b n) = Some v)
     \<and> pb_slot b' = (\<lambda>n. if n \<in> fst ` set items then None else pb_slot b n)
     \<and> pb_slot b (start + of_nat (length items)) = None"

lemma run_of_fst:
  assumes "run_of b start items b'" and "(n, v) \<in> set items"
  shows "start \<le> n" and "n < start + of_nat (length items)"
proof -
  have "unat n \<in> set (map (\<lambda>e. unat (fst e)) items)" using assms(2) by force
  then have "unat start \<le> unat n \<and> unat n < unat start + length items"
    using assms(1) unfolding run_of_def by (simp only: set_upt atLeastLessThan_iff)
  moreover have "unat (start + of_nat (length items)) = unat start + length items"
    using assms(1) by (simp add: run_of_def unat_add_of_nat)
  ultimately show "start \<le> n" and "n < start + of_nat (length items)"
    by (simp_all add: word_le_nat_alt word_less_nat_alt)
qed

lemma run_of_Cons:
  assumes "pb_slot b start = Some s" and "start \<noteq> - 1"
    and "run_of (snd (pb_remove start b)) (start + 1) items b'"
  shows "run_of b start ((start, slot_value s) # items) b'"
proof -
  have u: "unat (start + 1) = Suc (unat start)" using assms(2) by (simp add: unat_Suc_word)
  have "unat (start + 1 + of_nat (length items)) = Suc (unat start + length items)"
    using assms(3) u by (simp add: run_of_def unat_add_of_nat)
  then have gap: "start + 1 + of_nat (length items) \<noteq> start"
    by (metis less_add_Suc1 less_irrefl)
  have nin: "n \<noteq> start" if "(n, v) \<in> set items" for n v
    using run_of_fst(1) [OF assms(3) that] u by (auto simp: word_le_nat_alt)
  have "[unat start ..< Suc (unat start + length items)] =
      unat start # [Suc (unat start) ..< Suc (unat start + length items)]"
    by (rule upt_conv_Cons) simp
  with assms u gap nin show ?thesis
    by (auto simp: run_of_def fun_eq_iff add.assoc image_iff split: if_splits)
qed

lemma drain_run:
  assumes "- 1 \<notin> pb_nonces b"
  shows "case drain_consecutive_from b start of (items, b') \<Rightarrow> run_of b start items b'"
  using assms
proof (induction b start rule: drain_induct)
  case (stop b start)
  then show ?case by (auto simp: drain_stop run_of_def)
next
  case (step b start s)
  then show ?case
    by (auto simp: drain_step Let_def domIff split: prod.splits intro!: run_of_Cons)
qed auto



text \<open>
  A slot at the last nonce of the type is lost by a drain that starts there: the iterator
  removes it and then ends without yielding it.
\<close>
theorem drain_loses_last_nonce:
  assumes "pb_slot b (- 1) = Some s"
  shows "fst (drain_consecutive_from b (- 1)) = []
    \<and> pb_slot (snd (drain_consecutive_from b (- 1))) (- 1) = None"
  by (simp add: drain_last [OF assms])

theorem drain_loses_last_nonce_witness:
  "fst (drain_consecutive_from \<lparr>pb_capacity = Some 1,
     pb_inner = [(- 1, \<lparr>slot_deadline = Some 1, slot_value = ''z''\<rparr>)]\<rparr> (- 1)) = []"
  using drain_loses_last_nonce [of "\<lparr>pb_capacity = Some 1,
     pb_inner = [(- 1, \<lparr>slot_deadline = Some 1, slot_value = ''z''\<rparr>)]\<rparr>"] by simp

end
