(* ===== verification/Partition_State.thy ===== *)
theory Partition_State
  imports Pending_Buffer
begin

text \<open>
  \<open>crates/sequencer/src/state/mod.rs\<close>: the nonce state machine of one partition.

  Every method of \<open>PartitionState\<close> is one definition with the state as its last argument.
  The clock is an argument, as in \<open>process_at\<close>. The deadline heap (a \<open>BinaryHeap\<close> of
  \<open>Reverse\<close>) is a list kept in ascending order, whose head is the heap's top. The addition of
  a \<open>Duration\<close> to an \<open>Instant\<close> is unbounded.
\<close>

section \<open>Data\<close>

datatype 't ProcessAction =
    Publish (pub_nonce: u64) (pub_payload: 't)
  | ReportDuplicate (dup_nonce: u64) (dup_expected_nonce: u64)

datatype 't NonceOutcome =
    Matched
  | Buffered
  | BufferedEvicting u64 't
  | TooFarRejected u64
  | BufferedReplaced
  | BufferedDisabled
  | Past
  | Reoffered

type_synonym 't ProcessResult = "'t ProcessAction list \<times> 't NonceOutcome"

datatype ParkedDeadline = ParkedDeadline (pd_at: instant) (pd_sender: address) (pd_nonce: u64)

text \<open>The derived order of \<open>ParkedDeadline\<close>: lexicographic in the declaration order of its fields.\<close>

instantiation ParkedDeadline :: linorder
begin

definition less_eq_ParkedDeadline :: "ParkedDeadline \<Rightarrow> ParkedDeadline \<Rightarrow> bool" where
  "less_eq_ParkedDeadline d e \<longleftrightarrow>
     (pd_at d, pd_sender d, pd_nonce d) \<le> (pd_at e, pd_sender e, pd_nonce e)"

definition less_ParkedDeadline :: "ParkedDeadline \<Rightarrow> ParkedDeadline \<Rightarrow> bool" where
  "less_ParkedDeadline d e \<longleftrightarrow>
     (pd_at d, pd_sender d, pd_nonce d) < (pd_at e, pd_sender e, pd_nonce e)"

instance
  by standard
    (auto simp: less_eq_ParkedDeadline_def less_ParkedDeadline_def ParkedDeadline.expand)

end

lemma ParkedDeadline_le_at: "d \<le> e \<Longrightarrow> pd_at d \<le> pd_at e"
  by (auto simp: less_eq_ParkedDeadline_def less_eq_prod_def)

record 't FreedNonce =
  freed_sender :: address
  freed_nonce :: u64
  freed_later :: "(u64 \<times> 't) list"

record 't PartitionState =
  max_pending_per_sender :: nat
  tx_ttl :: duration
  ps_next :: "(address, u64) hash_map"
  ps_pending :: "(address, 't PendingBuffer) hash_map"
  ps_deadlines :: "ParkedDeadline list"
  ps_refused :: "(address, u64 set) hash_map"

section \<open>Operations\<close>

definition ps_new :: "nat \<Rightarrow> duration \<Rightarrow> 't PartitionState" where
  "ps_new max_pending ttl =
     \<lparr>max_pending_per_sender = max_pending, tx_ttl = ttl, ps_next = [], ps_pending = [],
      ps_deadlines = [], ps_refused = []\<rparr>"

definition next_nonce_known :: "address \<Rightarrow> 't PartitionState \<Rightarrow> u64 option" where
  "next_nonce_known sender s = map_of (ps_next s) sender"

definition next_nonce :: "address \<Rightarrow> 't PartitionState \<Rightarrow> u64" where
  "next_nonce sender s = (case map_of (ps_next s) sender of None \<Rightarrow> 0 | Some n \<Rightarrow> n)"

definition refs_below_floor :: "'t PartitionState \<Rightarrow> nat" where
  "refs_below_floor s =
     sum_list (map (\<lambda>(sender, buf). pb_count_below (next_nonce sender s) buf) (ps_pending s))"

definition seed_next_nonce :: "address \<Rightarrow> u64 \<Rightarrow> 't PartitionState \<Rightarrow> 't PartitionState" where
  "seed_next_nonce sender n s = s\<lparr>ps_next := hm_insert sender n (ps_next s)\<rparr>"

text \<open>\<open>self.pending.entry(sender).or_insert_with(..)\<close>: the buffer, and the update through it.\<close>

definition pending_entry :: "address \<Rightarrow> 't PartitionState \<Rightarrow> 't PendingBuffer" where
  "pending_entry sender s =
     (case map_of (ps_pending s) sender of
        None \<Rightarrow> pb_new (max_pending_per_sender s)
      | Some buf \<Rightarrow> buf)"

definition set_pending :: "address \<Rightarrow> 't PendingBuffer \<Rightarrow> 't PartitionState \<Rightarrow> 't PartitionState" where
  "set_pending sender buf s = s\<lparr>ps_pending := hm_insert sender buf (ps_pending s)\<rparr>"

definition push_deadline :: "ParkedDeadline \<Rightarrow> 't PartitionState \<Rightarrow> 't PartitionState" where
  "push_deadline d s = s\<lparr>ps_deadlines := insort d (ps_deadlines s)\<rparr>"

definition is_refused :: "address \<Rightarrow> u64 \<Rightarrow> 't PartitionState \<Rightarrow> bool" where
  "is_refused sender nonce s =
     (case map_of (ps_refused s) sender of None \<Rightarrow> False | Some marks \<Rightarrow> nonce \<in> marks)"

definition park ::
  "instant \<Rightarrow> address \<Rightarrow> u64 \<Rightarrow> 't \<Rightarrow> 't PartitionState \<Rightarrow> 't NonceOutcome \<times> 't PartitionState" where
  "park now sender nonce payload s =
     (let deadline = now + tx_ttl s;
          (inserted, buf) = pb_insert nonce payload deadline (pending_entry sender s);
          (outcome, parked) =
            (case inserted of
               Inserted \<Rightarrow> (Buffered, True)
             | Replaced \<Rightarrow> (BufferedReplaced, True)
             | EvictedFuture evicted_nonce evicted \<Rightarrow> (BufferedEvicting evicted_nonce evicted, True)
             | RejectedTooFar n \<Rightarrow> (TooFarRejected n, False)
             | DroppedBufferDisabled \<Rightarrow> (BufferedDisabled, False));
          s' = set_pending sender buf s
      in (outcome, if parked then push_deadline (ParkedDeadline deadline sender nonce) s' else s'))"

text \<open>The successor of the last drained nonce, or \<open>from\<close> when nothing drained.\<close>

definition past_drained :: "u64 \<Rightarrow> (u64 \<times> 't) list \<Rightarrow> u64" where
  "past_drained start items = fold (\<lambda>(n, _) _. saturating_add n 1) items start"

definition drain_consecutive_into ::
  "address \<Rightarrow> u64 \<Rightarrow> 't ProcessAction list \<Rightarrow> 't PartitionState
    \<Rightarrow> u64 \<times> 't ProcessAction list \<times> 't PartitionState" where
  "drain_consecutive_into sender start actions s =
     (case map_of (ps_pending s) sender of
        None \<Rightarrow> (start, actions, s)
      | Some buf \<Rightarrow>
          let (items, buf') = drain_consecutive_from buf start in
          (past_drained start items, actions @ map (\<lambda>(n, p). Publish n p) items,
           set_pending sender buf' s))"

definition process_at ::
  "instant \<Rightarrow> address \<Rightarrow> u64 \<Rightarrow> 't \<Rightarrow> 't PartitionState \<Rightarrow> 't ProcessResult \<times> 't PartitionState" where
  "process_at now sender nonce payload s =
     (let expected = next_nonce sender s in
      if nonce < expected \<and> is_refused sender nonce s then
        (([Publish nonce payload], Reoffered), s)
      else if nonce < expected then
        (([ReportDuplicate nonce expected], Past), s)
      else if expected < nonce then
        (let (outcome, s') = park now sender nonce payload s in (([], outcome), s'))
      else
        let (first_payload, s1) =
              (case map_of (ps_pending s) sender of
                 None \<Rightarrow> (payload, s)
               | Some buf \<Rightarrow>
                   let (removed, buf') = pb_remove nonce buf in
                   (case removed of None \<Rightarrow> payload | Some p \<Rightarrow> p, set_pending sender buf' s));
            (advanced, actions, s2) =
              drain_consecutive_into sender (saturating_add nonce 1)
                [Publish nonce first_payload] s1
        in ((actions, Matched), s2\<lparr>ps_next := hm_insert sender advanced (ps_next s2)\<rparr>))"

definition rewind_floor :: "address \<Rightarrow> u64 \<Rightarrow> 't PartitionState \<Rightarrow> 't PartitionState" where
  "rewind_floor sender nonce s =
     (let floor = (case next_nonce_known sender s of None \<Rightarrow> nonce | Some next \<Rightarrow> min next nonce)
      in set_pending sender (pending_entry sender s)
           (s\<lparr>ps_next := hm_insert sender floor (ps_next s)\<rparr>))"

definition reinsert_for_retry ::
  "address \<Rightarrow> u64 \<Rightarrow> 't \<Rightarrow> 't PartitionState \<Rightarrow> 't PartitionState" where
  "reinsert_for_retry sender nonce payload s =
     (let s' = rewind_floor sender nonce s
      in set_pending sender (pb_reinsert nonce payload None (pending_entry sender s')) s')"

definition trim_refused :: "address \<Rightarrow> (u64 \<Rightarrow> bool) \<Rightarrow> 't PartitionState \<Rightarrow> 't PartitionState" where
  "trim_refused sender keep s =
     (if ps_refused s = [] then s
      else (case map_of (ps_refused s) sender of
              None \<Rightarrow> s
            | Some marks \<Rightarrow>
                let marks' = Set.filter keep marks in
                if marks' = {} then s\<lparr>ps_refused := map_remove sender (ps_refused s)\<rparr>
                else s\<lparr>ps_refused := hm_insert sender marks' (ps_refused s)\<rparr>))"

definition free_nonce :: "instant \<Rightarrow> 't FreedNonce \<Rightarrow> 't PartitionState \<Rightarrow> 't PartitionState" where
  "free_nonce now freed s =
     (let sender = freed_sender freed;
          nonce = freed_nonce freed;
          at = now + tx_ttl s;
          s1 = rewind_floor sender nonce (trim_refused sender (\<lambda>n. n < nonce) s);
          buf = fold (\<lambda>(n, payload). pb_reinsert n payload (Some at)) (freed_later freed)
                  (pending_entry sender s1);
          parked = map (\<lambda>(n, _). ParkedDeadline at sender n) (freed_later freed)
      in fold push_deadline parked (set_pending sender buf s1))"

definition mark_refused :: "address \<Rightarrow> u64 \<Rightarrow> 't PartitionState \<Rightarrow> 't PartitionState" where
  "mark_refused sender nonce s =
     (if nonce < next_nonce sender s then
        let marks = (case map_of (ps_refused s) sender of None \<Rightarrow> {} | Some m \<Rightarrow> m)
        in s\<lparr>ps_refused := hm_insert sender (insert nonce marks) (ps_refused s)\<rparr>
      else s)"

definition clear_refused :: "address \<Rightarrow> u64 \<Rightarrow> 't PartitionState \<Rightarrow> 't PartitionState" where
  "clear_refused sender nonce = trim_refused sender (\<lambda>n. n \<noteq> nonce)"

definition holds :: "address \<Rightarrow> u64 \<Rightarrow> 't PartitionState \<Rightarrow> bool" where
  "holds sender nonce s =
     (case map_of (ps_pending s) sender of None \<Rightarrow> False | Some buf \<Rightarrow> pb_contains nonce buf)"

definition take_parked ::
  "address \<Rightarrow> u64 \<Rightarrow> ('t \<Rightarrow> bool) \<Rightarrow> 't PartitionState \<Rightarrow> 't option \<times> 't PartitionState" where
  "take_parked sender nonce named s =
     (case map_of (ps_pending s) sender of
        None \<Rightarrow> (None, s)
      | Some buf \<Rightarrow>
          let (taken, buf') = pb_take_parked nonce named buf in (taken, set_pending sender buf' s))"

definition pop_due :: "instant \<Rightarrow> 't PartitionState \<Rightarrow> ParkedDeadline option \<times> 't PartitionState" where
  "pop_due now s =
     (case ps_deadlines s of
        [] \<Rightarrow> (None, s)
      | head # rest \<Rightarrow>
          if pd_at head \<le> now then (Some head, s\<lparr>ps_deadlines := rest\<rparr>) else (None, s))"

definition expire_parked ::
  "ParkedDeadline \<Rightarrow> 't PartitionState \<Rightarrow> (address \<times> u64 \<times> 't) option \<times> 't PartitionState" where
  "expire_parked d s =
     (if pd_nonce d \<le> next_nonce (pd_sender d) s then (None, s)
      else (case map_of (ps_pending s) (pd_sender d) of
              None \<Rightarrow> (None, s)
            | Some buf \<Rightarrow>
                let (expired, buf') = pb_expire (pd_nonce d) (pd_at d) buf in
                (map_option (\<lambda>payload. (pd_sender d, pd_nonce d, payload)) expired,
                 set_pending (pd_sender d) buf' s)))"

lemma pop_due_shrinks:
  "pop_due now s = (Some d, s') \<Longrightarrow> length (ps_deadlines s') < length (ps_deadlines s)"
  by (auto simp: pop_due_def split: list.splits if_splits)

lemma expire_parked_deadlines [simp]: "ps_deadlines (snd (expire_parked d s)) = ps_deadlines s"
  by (simp add: expire_parked_def set_pending_def split: option.splits prod.splits)

text \<open>The iterator chain \<open>from_fn(..).flatten().take(max)\<close>, collected.\<close>

function sweep_expired ::
  "instant \<Rightarrow> nat \<Rightarrow> 't PartitionState \<Rightarrow> (address \<times> u64 \<times> 't) list \<times> 't PartitionState" where
  "sweep_expired now limit s =
     (if limit = 0 then ([], s)
      else (case pop_due now s of
              (None, s1) \<Rightarrow> ([], s1)
            | (Some d, s1) \<Rightarrow>
                (case expire_parked d s1 of
                   (None, s2) \<Rightarrow> sweep_expired now limit s2
                 | (Some item, s2) \<Rightarrow>
                     let (items, s3) = sweep_expired now (limit - 1) s2 in (item # items, s3))))"
  by pat_completeness auto
termination
proof (relation "measure (\<lambda>(_, _, s). length (ps_deadlines s))"; (simp; fail)?)
qed (metis expire_parked_deadlines in_measure pop_due_shrinks case_prod_conv snd_conv)+

declare sweep_expired.simps [simp del]

definition pending_depth_by :: "(address \<Rightarrow> u8) \<Rightarrow> 't PartitionState \<Rightarrow> u32 list" where
  "pending_depth_by bucket s =
     fold (\<lambda>(sender, buf) depth.
             let slot = unat (bucket sender);
                 n = (if pb_len buf < 2 ^ 32 then of_nat (pb_len buf) else - 1)
             in depth[slot := saturating_add (depth ! slot) n])
       (ps_pending s) (replicate 256 0)"

definition drain_sender_run ::
  "'t PendingBuffer \<Rightarrow> address \<Rightarrow> u64 \<Rightarrow> (address \<times> u64 \<times> 't) list
    \<Rightarrow> u64 option \<times> 't PendingBuffer \<times> (address \<times> u64 \<times> 't) list" where
  "drain_sender_run buf sender expected out =
     (let (items, buf') = drain_consecutive_from buf expected in
      (fold (\<lambda>(n, _) _. Some (saturating_add n 1)) items None, buf',
       out @ map (\<lambda>(n, p). (sender, n, p)) items))"

definition drain_one_sender ::
  "(address, u64) hash_map \<Rightarrow> 't PendingBuffer \<Rightarrow> address \<Rightarrow> (address \<times> u64 \<times> 't) list
    \<Rightarrow> (address, u64) hash_map \<times> 't PendingBuffer \<times> (address \<times> u64 \<times> 't) list" where
  "drain_one_sender next buf sender out =
     (let expected = (case map_of next sender of None \<Rightarrow> 0 | Some n \<Rightarrow> n);
          (advanced, buf', out') = drain_sender_run buf sender expected out
      in (case advanced of None \<Rightarrow> next | Some n \<Rightarrow> hm_insert sender n next, buf', out'))"

fun drain_senders ::
  "(address, u64) hash_map \<Rightarrow> (address, 't PendingBuffer) hash_map \<Rightarrow> (address \<times> u64 \<times> 't) list
    \<Rightarrow> (address, u64) hash_map \<times> (address, 't PendingBuffer) hash_map \<times> (address \<times> u64 \<times> 't) list" where
  "drain_senders next [] out = (next, [], out)"
| "drain_senders next ((sender, buf) # rest) out =
     (let (next1, buf', out1) = drain_one_sender next buf sender out;
          (next2, rest', out2) = drain_senders next1 rest out1
      in (next2, (sender, buf') # rest', out2))"

definition drain_pending :: "'t PartitionState \<Rightarrow> (address \<times> u64 \<times> 't) list \<times> 't PartitionState" where
  "drain_pending s =
     (let (next, pending, out) = drain_senders (ps_next s) (ps_pending s) []
      in (out, s\<lparr>ps_next := next, ps_pending := pending\<rparr>))"

definition advance_floor ::
  "address \<Rightarrow> u64 \<Rightarrow> 't PartitionState
    \<Rightarrow> (u64 \<times> (u64 \<times> 't) list) option \<times> 't PartitionState" where
  "advance_floor sender floor s =
     (let cur = next_nonce sender s in
      if floor \<le> cur then (None, s)
      else
        let (dropped, s1) =
              (case map_of (ps_pending s) sender of
                 None \<Rightarrow> ([], s)
               | Some buf \<Rightarrow>
                   let (dropped, buf') = pb_drop_below floor buf
                   in (dropped, set_pending sender buf' s));
            s2 = s1\<lparr>ps_next := hm_insert sender floor (ps_next s1)\<rparr>
        in (Some (cur, dropped), trim_refused sender (\<lambda>n. floor \<le> n) s2))"

definition release_floor :: "address \<Rightarrow> u64 \<Rightarrow> 't PartitionState \<Rightarrow> u64 option \<times> 't PartitionState" where
  "release_floor sender chain s =
     (case next_nonce_known sender s of
        None \<Rightarrow> (None, s)
      | Some cur \<Rightarrow>
          if chain < cur then
            (Some cur, trim_refused sender (\<lambda>n. n < chain)
                         (s\<lparr>ps_next := hm_insert sender chain (ps_next s)\<rparr>))
          else (None, s))"

definition forget_floor :: "address \<Rightarrow> 't PartitionState \<Rightarrow> u64 option \<times> 't PartitionState" where
  "forget_floor sender s =
     (map_of (ps_next s) sender, s\<lparr>ps_next := map_remove sender (ps_next s)\<rparr>)"

section \<open>The buffered slots as one function\<close>

text \<open>
  The operations are described by their effect on three observations of the state: the floor
  of a sender (\<^const>\<open>next_nonce\<close>), the slot of a sender at a nonce (\<open>slot_at\<close>) and the
  deadlines on the heap.
\<close>

definition slot_at :: "'t PartitionState \<Rightarrow> address \<Rightarrow> u64 \<Rightarrow> 't Slot option" where
  "slot_at s a = (case map_of (ps_pending s) a of None \<Rightarrow> Map.empty | Some buf \<Rightarrow> pb_slot buf)"

lemma slot_at_set_pending [simp]: "slot_at (set_pending a buf s) = (slot_at s)(a := pb_slot buf)"
  by (auto simp: slot_at_def set_pending_def fun_eq_iff)

lemma pb_slot_pending_entry [simp]: "pb_slot (pending_entry a s) = slot_at s a"
  by (simp add: slot_at_def pending_entry_def split: option.splits)

lemma slot_at_simps [simp]:
  "slot_at (s\<lparr>ps_next := x\<rparr>) = slot_at s"
  "slot_at (s\<lparr>ps_deadlines := y\<rparr>) = slot_at s"
  "slot_at (s\<lparr>ps_refused := z\<rparr>) = slot_at s"
  "slot_at (push_deadline d s) = slot_at s"
  "slot_at (trim_refused a keep s) = slot_at s"
  by (auto simp: slot_at_def push_deadline_def trim_refused_def Let_def fun_eq_iff
      split: option.splits)

lemma set_pending_simps [simp]:
  "ps_next (set_pending a buf s) = ps_next s"
  "ps_deadlines (set_pending a buf s) = ps_deadlines s"
  "ps_refused (set_pending a buf s) = ps_refused s"
  "tx_ttl (set_pending a buf s) = tx_ttl s"
  "max_pending_per_sender (set_pending a buf s) = max_pending_per_sender s"
  "map_of (ps_pending (set_pending a buf s)) = (map_of (ps_pending s))(a \<mapsto> buf)"
  "next_nonce x (set_pending a buf s) = next_nonce x s"
  "next_nonce_known x (set_pending a buf s) = next_nonce_known x s"
  by (simp_all add: set_pending_def next_nonce_def next_nonce_known_def)

lemma push_deadline_simps [simp]:
  "ps_next (push_deadline d s) = ps_next s"
  "ps_pending (push_deadline d s) = ps_pending s"
  "ps_refused (push_deadline d s) = ps_refused s"
  "tx_ttl (push_deadline d s) = tx_ttl s"
  "max_pending_per_sender (push_deadline d s) = max_pending_per_sender s"
  "set (ps_deadlines (push_deadline d s)) = insert d (set (ps_deadlines s))"
  "sorted (ps_deadlines (push_deadline d s)) = sorted (ps_deadlines s)"
  "next_nonce x (push_deadline d s) = next_nonce x s"
  by (simp_all add: push_deadline_def next_nonce_def set_insort_key sorted_insort)

lemma trim_refused_simps [simp]:
  "ps_next (trim_refused a keep s) = ps_next s"
  "ps_pending (trim_refused a keep s) = ps_pending s"
  "ps_deadlines (trim_refused a keep s) = ps_deadlines s"
  "tx_ttl (trim_refused a keep s) = tx_ttl s"
  "max_pending_per_sender (trim_refused a keep s) = max_pending_per_sender s"
  "next_nonce x (trim_refused a keep s) = next_nonce x s"
  "next_nonce_known x (trim_refused a keep s) = next_nonce_known x s"
  by (auto simp: trim_refused_def next_nonce_def next_nonce_known_def Let_def split: option.splits)

lemma next_nonce_update [simp]:
  "next_nonce x (s\<lparr>ps_next := hm_insert a n (ps_next s)\<rparr>) = (if x = a then n else next_nonce x s)"
  by (simp add: next_nonce_def)

lemma next_nonce_known_some: "next_nonce_known a s = Some n \<Longrightarrow> next_nonce a s = n"
  by (simp add: next_nonce_def next_nonce_known_def)

lemma fold_push_deadline [simp]:
  "slot_at (fold push_deadline ds s) = slot_at s"
  "ps_next (fold push_deadline ds s) = ps_next s"
  "ps_pending (fold push_deadline ds s) = ps_pending s"
  "ps_refused (fold push_deadline ds s) = ps_refused s"
  "tx_ttl (fold push_deadline ds s) = tx_ttl s"
  "max_pending_per_sender (fold push_deadline ds s) = max_pending_per_sender s"
  "set (ps_deadlines (fold push_deadline ds s)) = set ds \<union> set (ps_deadlines s)"
  "sorted (ps_deadlines (fold push_deadline ds s)) = sorted (ps_deadlines s)"
  "next_nonce x (fold push_deadline ds s) = next_nonce x s"
  by (induction ds arbitrary: s) auto

section \<open>Representation invariant\<close>

definition ps_rep :: "'t PartitionState \<Rightarrow> bool" where
  "ps_rep s \<longleftrightarrow>
     hm_inv (ps_next s) \<and> hm_inv (ps_pending s) \<and> hm_inv (ps_refused s)
     \<and> sorted (ps_deadlines s)
     \<and> (\<forall>a buf. map_of (ps_pending s) a = Some buf \<longrightarrow>
          pb_inv buf \<and> pb_capacity buf = pb_capacity (pb_new (max_pending_per_sender s) :: 't PendingBuffer))
     \<and> (\<forall>a marks. map_of (ps_refused s) a = Some marks \<longrightarrow> marks \<noteq> {} \<and> finite marks)"

lemma ps_rep_entry:
  assumes "ps_rep s"
  shows "pb_inv (pending_entry a s)"
    and "pb_capacity (pending_entry a s) =
           (if max_pending_per_sender s = 0 then None else Some (max_pending_per_sender s))"
  using assms by (auto simp: ps_rep_def pending_entry_def pb_new_def pb_inv_def split: option.splits)

lemma ps_rep_buf:
  assumes "ps_rep s" and "map_of (ps_pending s) a = Some buf"
  shows "pb_inv buf" and "pb_capacity buf = pb_capacity (pending_entry a s)"
  using assms by (auto simp: ps_rep_def pending_entry_def)

lemma ps_rep_set_pending:
  assumes "ps_rep s" and "pb_inv buf" and "pb_capacity buf = pb_capacity (pending_entry a s)"
  shows "ps_rep (set_pending a buf s)"
  using assms ps_rep_entry(2) [OF assms(1), of a]
  by (auto simp: ps_rep_def set_pending_def pb_new_def)

lemma ps_rep_push_deadline [simp]: "ps_rep s \<Longrightarrow> ps_rep (push_deadline d s)"
  by (simp add: ps_rep_def)

lemma ps_rep_fold_push_deadline [simp]: "ps_rep s \<Longrightarrow> ps_rep (fold push_deadline ds s)"
  by (induction ds arbitrary: s) auto

lemma ps_rep_next [simp]: "ps_rep s \<Longrightarrow> hm_inv x \<Longrightarrow> ps_rep (s\<lparr>ps_next := x\<rparr>)"
  by (simp add: ps_rep_def)

lemma ps_rep_deadlines [simp]: "ps_rep s \<Longrightarrow> sorted ds \<Longrightarrow> ps_rep (s\<lparr>ps_deadlines := ds\<rparr>)"
  by (simp add: ps_rep_def)

lemma ps_rep_sorted: "ps_rep s \<Longrightarrow> sorted (ps_deadlines s)"
  by (simp add: ps_rep_def)

lemma ps_rep_hm_inv: "ps_rep s \<Longrightarrow> hm_inv (ps_next s)"
  by (simp add: ps_rep_def)

lemma ps_rep_trim_refused [simp]: "ps_rep s \<Longrightarrow> ps_rep (trim_refused a keep s)"
  by (auto simp: ps_rep_def trim_refused_def Let_def split: option.splits if_splits)

lemma ps_rep_new: "ps_rep (ps_new m ttl)"
  by (simp add: ps_rep_def ps_new_def)

end
