(* ===== verification/Partition_Invariant.thy ===== *)
theory Partition_Invariant
  imports Partition_State
begin

text \<open>
  What the operations of \<open>Partition_State\<close> do to the floors, the buffered slots and the
  deadline heap, and the invariants that hold over every sequence of operations.
\<close>

section \<open>The effect of a drain\<close>

text \<open>\<open>dense_to S f f'\<close>: every nonce from \<open>f\<close> up to \<open>f'\<close> is buffered, and \<open>f'\<close> is not.\<close>

definition dense_to :: "(u64 \<Rightarrow> 't Slot option) \<Rightarrow> u64 \<Rightarrow> u64 \<Rightarrow> bool" where
  "dense_to S f f' \<longleftrightarrow> f \<le> f' \<and> (\<forall>m. f \<le> m \<and> m < f' \<longrightarrow> S m \<noteq> None) \<and> S f' = None"

lemma run_of_nonces:
  assumes "run_of b start items b'"
  shows "n \<in> fst ` set items \<longleftrightarrow> start \<le> n \<and> n < start + of_nat (length items)"
proof -
  have e: "unat (start + of_nat (length items)) = unat start + length items"
    using assms by (simp add: run_of_def unat_add_of_nat)
  have "n \<in> fst ` set items \<longleftrightarrow> unat n \<in> set (map (\<lambda>e. unat (fst e)) items)"
    by (auto simp: image_iff word_unat_eq_iff)
  also have "\<dots> \<longleftrightarrow> unat start \<le> unat n \<and> unat n < unat start + length items"
    using assms unfolding run_of_def by (simp only: set_upt atLeastLessThan_iff)
  finally show ?thesis using e by (simp add: word_le_nat_alt word_less_nat_alt)
qed

lemma past_drained_run:
  assumes "run_of b start items b'"
  shows "past_drained start items = start + of_nat (length items)"
proof (cases items rule: rev_cases)
  case Nil
  then show ?thesis by (simp add: past_drained_def)
next
  case (snoc xs e)
  have "map (\<lambda>e. unat (fst e)) items = [unat start ..< unat start + length items]"
    using assms unfolding run_of_def by blast
  moreover have "[unat start ..< unat start + length items] ! length xs = unat start + length xs"
    by (rule nth_upt) (simp add: snoc)
  ultimately have "map (\<lambda>e. unat (fst e)) items ! length xs = unat start + length xs" by metis
  then have n: "unat (fst e) = unat start + length xs" using snoc by (simp add: nth_append)
  moreover have b: "unat start + Suc (length xs) < 2 ^ 64" using assms snoc by (simp add: run_of_def)
  ultimately have "fst e \<noteq> - 1" by (simp add: word_neq_max_iff)
  then have "past_drained start items = fst e + 1"
    using snoc by (simp add: past_drained_def saturating_add_1 case_prod_unfold)
  also have "\<dots> = start + of_nat (length items)"
    using n b snoc \<open>fst e \<noteq> - 1\<close>
    by (simp add: word_unat_eq_iff unat_Suc_word unat_add_of_nat del: of_nat_Suc)
  finally show ?thesis .
qed

lemma drain_effect:
  assumes "- 1 \<notin> pb_nonces b" and "drain_consecutive_from b start = (items, b')"
  shows "dense_to (pb_slot b) start (past_drained start items)"
    and "map (\<lambda>e. unat (fst e)) items = [unat start ..< unat (past_drained start items)]"
    and "pb_slot b' =
           (\<lambda>n. if start \<le> n \<and> n < past_drained start items then None else pb_slot b n)"
    and "(n, v) \<in> set items \<Longrightarrow> map_option slot_value (pb_slot b n) = Some v"
    and "past_drained start items = start \<longleftrightarrow> items = []"
proof -
  have run: "run_of b start items b'" using drain_run [OF assms(1), of start] assms(2) by simp
  note past = past_drained_run [OF run]
  have e: "unat (start + of_nat (length items)) = unat start + length items"
    using run by (simp add: run_of_def unat_add_of_nat)
  have vals: "map_option slot_value (pb_slot b n) = Some v" if "(n, v) \<in> set items" for n v
    using run that by (auto simp: run_of_def)
  then show "(n, v) \<in> set items \<Longrightarrow> map_option slot_value (pb_slot b n) = Some v" .
  have "pb_slot b m \<noteq> None" if "m \<in> fst ` set items" for m
    using vals that by fastforce
  moreover have "start \<le> start + of_nat (length items)" by (simp add: word_le_nat_alt e)
  moreover have "pb_slot b (start + of_nat (length items)) = None" using run by (simp add: run_of_def)
  ultimately show "dense_to (pb_slot b) start (past_drained start items)"
    unfolding dense_to_def past run_of_nonces [OF run] by blast
  show "map (\<lambda>e. unat (fst e)) items = [unat start ..< unat (past_drained start items)]"
    using run by (simp only: past e run_of_def)
  show "pb_slot b' =
      (\<lambda>n. if start \<le> n \<and> n < past_drained start items then None else pb_slot b n)"
    using run by (simp add: past run_of_def run_of_nonces [OF run])
  show "past_drained start items = start \<longleftrightarrow> items = []"
    using e by (auto simp: past word_unat_eq_iff)
qed

section \<open>The effect of the nonce check\<close>

abbreviation buffered :: "'t PartitionState \<Rightarrow> address \<Rightarrow> u64 set" where
  "buffered s a \<equiv> dom (slot_at s a)"

lemma process_at_past:
  assumes "n < next_nonce a s"
  shows "process_at now a n payload s =
    (if is_refused a n s then (([Publish n payload], Reoffered), s)
     else (([ReportDuplicate n (next_nonce a s)], Past), s))"
  using assms by (simp add: process_at_def)

lemma process_at_future:
  assumes "next_nonce a s < n"
  shows "process_at now a n payload s =
    (let (outcome, s') = park now a n payload s in (([], outcome), s'))"
  using assms leD [OF less_imp_le [OF assms]] by (simp add: process_at_def)

lemma process_at_matched:
  assumes eq: "nonce = next_nonce a s" and top: "nonce \<noteq> - 1" "- 1 \<notin> buffered s a"
    and run: "process_at now a nonce payload s = ((acts, outcome), s')"
  shows "outcome = Matched"
    and "ps_next s' = hm_insert a (next_nonce a s') (ps_next s)"
    and "ps_deadlines s' = ps_deadlines s" and "ps_refused s' = ps_refused s"
    and "tx_ttl s' = tx_ttl s" and "max_pending_per_sender s' = max_pending_per_sender s"
    and "nonce < next_nonce a s'"
    and "slot_at s' = (slot_at s)(a :=
           (\<lambda>m. if nonce \<le> m \<and> m < next_nonce a s' then None else slot_at s a m))"
    and "slot_at s a (next_nonce a s') = None"
    and "list_all is_Publish acts"
    and "map (\<lambda>e. unat (pub_nonce e)) acts = [unat nonce ..< unat (next_nonce a s')]"
    and "Publish m v \<in> set acts \<Longrightarrow>
           v = (case slot_at s a m of None \<Rightarrow> payload | Some slot \<Rightarrow> slot_value slot)"
    and "ps_rep s \<Longrightarrow> ps_rep s'"
proof -
  define adv where "adv = next_nonce a s'"
  have eq': "next_nonce a s = nonce" by (simp only: eq)
  have sat: "saturating_add nonce 1 = nonce + 1" using top(1) by (simp add: saturating_add_1)
  have u: "unat (nonce + 1) = Suc (unat nonce)" using top(1) by (simp add: unat_Suc_word)
  have lt: "nonce < nonce + 1" by (simp add: word_less_nat_alt u)
  let ?goal = "outcome = Matched \<and> ps_next s' = hm_insert a adv (ps_next s)
    \<and> ps_deadlines s' = ps_deadlines s \<and> ps_refused s' = ps_refused s
    \<and> tx_ttl s' = tx_ttl s \<and> max_pending_per_sender s' = max_pending_per_sender s
    \<and> nonce < adv
    \<and> slot_at s' = (slot_at s)(a := (\<lambda>m. if nonce \<le> m \<and> m < adv then None else slot_at s a m))
    \<and> slot_at s a adv = None \<and> list_all is_Publish acts
    \<and> map (\<lambda>e. unat (pub_nonce e)) acts = [unat nonce ..< unat adv]
    \<and> (\<forall>m v. Publish m v \<in> set acts \<longrightarrow>
         v = (case slot_at s a m of None \<Rightarrow> payload | Some slot \<Rightarrow> slot_value slot))
    \<and> (ps_rep s \<longrightarrow> ps_rep s')"
  have ?goal
  proof (cases "map_of (ps_pending s) a")
    case None
    then have slots: "slot_at s a = Map.empty" by (simp add: slot_at_def)
    have "((acts, outcome), s') =
        (([Publish nonce payload], Matched), s\<lparr>ps_next := hm_insert a (nonce + 1) (ps_next s)\<rparr>)"
      using run None by (simp add: process_at_def drain_consecutive_into_def Let_def sat eq')
    then show ?thesis
      using slots lt u by (auto simp: adv_def ps_rep_hm_inv fun_eq_iff)
  next
    case (Some buf)
    define buf1 where "buf1 = snd (pb_remove nonce buf)"
    obtain items buf2 where dr: "drain_consecutive_from buf1 (nonce + 1) = (items, buf2)"
      by (cases "drain_consecutive_from buf1 (nonce + 1)")
    define first where
      "first = (case map_of (pb_inner buf) nonce of None \<Rightarrow> payload | Some sl \<Rightarrow> slot_value sl)"
    have slots: "slot_at s a = pb_slot buf" using Some by (simp add: slot_at_def)
    have "- 1 \<notin> pb_nonces buf1" using top(2) slots by (auto simp: buf1_def)
    note eff = drain_effect [OF this dr]
    have s1: "map_of (pb_inner buf1) = (pb_slot buf)(nonce := None)" by (simp add: buf1_def)
    have split: "pb_remove nonce buf = (map_option slot_value (map_of (pb_inner buf) nonce), buf1)"
      by (simp add: buf1_def pb_remove_def)
    have res: "((acts, outcome), s') =
        ((Publish nonce first # map (\<lambda>(n, p). Publish n p) items, Matched),
         set_pending a buf2 (set_pending a buf1
           (s\<lparr>ps_next := hm_insert a (past_drained (nonce + 1) items) (ps_next s)\<rparr>)))"
      using run Some dr
      by (auto simp: process_at_def Let_def eq' drain_consecutive_into_def sat split first_def set_pending_def
          split: option.splits)
    then have adv: "adv = past_drained (nonce + 1) items"
      by (simp add: adv_def)
    have le: "nonce + 1 \<le> adv" using eff(1) by (simp add: dense_to_def adv)
    then have "nonce < adv" using lt by simp
    moreover have "pb_slot buf adv = None"
      using eff(1) s1 \<open>nonce < adv\<close> by (auto simp: dense_to_def adv split: if_splits)
    moreover have "pb_slot buf2 = (\<lambda>m. if nonce \<le> m \<and> m < adv then None else pb_slot buf m)"
      using eff(3) s1 \<open>nonce < adv\<close> word_Suc_le_iff [OF top(1)] by (auto simp: adv fun_eq_iff)
    moreover have "map (\<lambda>e. unat (pub_nonce e)) acts = [unat nonce ..< unat adv]"
      using res eff(2) u \<open>nonce < adv\<close>
      by (simp add: adv comp_def case_prod_unfold upt_conv_Cons word_less_nat_alt)
    moreover have "v = (case pb_slot buf m of None \<Rightarrow> payload | Some slot \<Rightarrow> slot_value slot)"
      if "Publish m v \<in> set acts" for m v
      using that res eff(4) [of m v] s1 by (auto simp: first_def split: if_splits option.splits)
    moreover have "ps_rep s'" if "ps_rep s"
    proof -
      note b = ps_rep_buf [OF that Some]
      have "pb_inv buf2"
        using drain_inv [of buf1 "nonce + 1"] pb_inv_remove [OF b(1)] dr by (simp add: buf1_def)
      moreover have "pb_capacity buf2 = pb_capacity buf"
        using dr by (metis buf1_def drain_capacity pb_capacity_simps(3) snd_conv)
      moreover have inv1: "pb_inv buf1" "pb_capacity buf1 = pb_capacity buf"
        using pb_inv_remove [OF b(1)] by (simp_all add: buf1_def)
      moreover have entry: "pending_entry a (s\<lparr>ps_next := x\<rparr>) = buf" for x
        using Some by (simp add: pending_entry_def)
      ultimately show ?thesis
        using res that ps_rep_hm_inv [OF that]
        by (simp add: ps_rep_set_pending pending_entry_def entry)
    qed
    ultimately show ?thesis
      using res slots by (auto simp: adv list_all_iff fun_eq_iff)
  qed
  then show "outcome = Matched"
    and "ps_next s' = hm_insert a (next_nonce a s') (ps_next s)"
    and "ps_deadlines s' = ps_deadlines s" and "ps_refused s' = ps_refused s"
    and "tx_ttl s' = tx_ttl s" and "max_pending_per_sender s' = max_pending_per_sender s"
    and "nonce < next_nonce a s'"
    and "slot_at s' = (slot_at s)(a :=
           (\<lambda>m. if nonce \<le> m \<and> m < next_nonce a s' then None else slot_at s a m))"
    and "slot_at s a (next_nonce a s') = None"
    and "list_all is_Publish acts"
    and "map (\<lambda>e. unat (pub_nonce e)) acts = [unat nonce ..< unat (next_nonce a s')]"
    and "Publish m v \<in> set acts \<Longrightarrow>
           v = (case slot_at s a m of None \<Rightarrow> payload | Some slot \<Rightarrow> slot_value slot)"
    and "ps_rep s \<Longrightarrow> ps_rep s'"
    unfolding adv_def by blast+
qed

section \<open>The effect of the other operations\<close>

lemma pb_insert_slots:
  assumes "pb_insert n v d b = (r, b')"
  shows "pb_slot b' m = Some sl \<Longrightarrow>
      m = n \<and> sl = \<lparr>slot_deadline = Some d, slot_value = v\<rparr> \<or> pb_slot b m = Some sl"
    and "r \<in> {RejectedTooFar n, DroppedBufferDisabled} \<Longrightarrow> b' = b"
    and "r = RejectedTooFar k \<Longrightarrow> k = n"
  using assms by (auto simp: pb_insert_def Let_def split: option.splits if_splits)

lemma park_effect:
  assumes "park now a n payload s = (outcome, s')"
  shows "ps_next s' = ps_next s" and "ps_refused s' = ps_refused s"
    and "tx_ttl s' = tx_ttl s" and "max_pending_per_sender s' = max_pending_per_sender s"
    and "slot_at s' = (slot_at s)(a :=
           pb_slot (snd (pb_insert n payload (now + tx_ttl s) (pending_entry a s))))"
    and "set (ps_deadlines s) \<subseteq> set (ps_deadlines s')"
    and "slot_at s' b m = Some sl \<Longrightarrow>
      b = a \<and> m = n \<and> sl = \<lparr>slot_deadline = Some (now + tx_ttl s), slot_value = payload\<rparr>
        \<and> ParkedDeadline (now + tx_ttl s) a n \<in> set (ps_deadlines s')
      \<or> slot_at s b m = Some sl"
    and "ps_rep s \<Longrightarrow> ps_rep s'"
proof -
  obtain r buf where ins: "pb_insert n payload (now + tx_ttl s) (pending_entry a s) = (r, buf)"
    by fastforce
  have s': "s' = (if r \<in> {RejectedTooFar n, DroppedBufferDisabled} then set_pending a buf s
      else push_deadline (ParkedDeadline (now + tx_ttl s) a n) (set_pending a buf s))"
    using assms ins pb_insert_slots(3) [OF ins]
    by (auto simp: park_def Let_def split: InsertOutcome.splits)
  then show "ps_next s' = ps_next s" and "ps_refused s' = ps_refused s"
    and "tx_ttl s' = tx_ttl s" and "max_pending_per_sender s' = max_pending_per_sender s"
    and "set (ps_deadlines s) \<subseteq> set (ps_deadlines s')"
    by auto
  show "slot_at s' = (slot_at s)(a :=
      pb_slot (snd (pb_insert n payload (now + tx_ttl s) (pending_entry a s))))"
    by (simp add: s' ins)
  show "b = a \<and> m = n \<and> sl = \<lparr>slot_deadline = Some (now + tx_ttl s), slot_value = payload\<rparr>
        \<and> ParkedDeadline (now + tx_ttl s) a n \<in> set (ps_deadlines s')
      \<or> slot_at s b m = Some sl" if "slot_at s' b m = Some sl"
    using that s' pb_insert_slots(1,2) [OF ins] by (auto split: if_splits)
  show "ps_rep s'" if "ps_rep s"
  proof -
    have "ps_rep (set_pending a buf s)"
      using that ps_rep_entry [OF that, of a] pb_inv_insert [of "pending_entry a s"]
        pb_capacity_simps(1) [of n payload "now + tx_ttl s" "pending_entry a s"] ins
      by (intro ps_rep_set_pending) (metis snd_conv)+
    then show ?thesis by (simp add: s')
  qed
qed

lemma rewind_floor_effect:
  shows "slot_at (rewind_floor a n s) = slot_at s"
    and "next_nonce x (rewind_floor a n s) =
      (if x = a then (case next_nonce_known a s of None \<Rightarrow> n | Some f \<Rightarrow> min f n) else next_nonce x s)"
    and "ps_deadlines (rewind_floor a n s) = ps_deadlines s"
    and "ps_refused (rewind_floor a n s) = ps_refused s"
    and "tx_ttl (rewind_floor a n s) = tx_ttl s"
    and "ps_rep s \<Longrightarrow> ps_rep (rewind_floor a n s)"
proof -
  show "ps_rep (rewind_floor a n s)" if "ps_rep s"
    using that ps_rep_entry [OF that, of a]
    by (auto simp: rewind_floor_def Let_def pending_entry_def ps_rep_hm_inv
        intro!: ps_rep_set_pending split: option.splits)
qed (simp_all add: rewind_floor_def Let_def fun_eq_iff)

lemma reinsert_for_retry_effect:
  shows "slot_at (reinsert_for_retry a n payload s) =
      (slot_at s)(a := (slot_at s a)(n \<mapsto> \<lparr>slot_deadline = None, slot_value = payload\<rparr>))"
    and "next_nonce x (reinsert_for_retry a n payload s) =
      (if x = a then (case next_nonce_known a s of None \<Rightarrow> n | Some f \<Rightarrow> min f n) else next_nonce x s)"
    and "ps_deadlines (reinsert_for_retry a n payload s) = ps_deadlines s"
    and "ps_refused (reinsert_for_retry a n payload s) = ps_refused s"
    and "ps_rep s \<Longrightarrow> ps_rep (reinsert_for_retry a n payload s)"
proof -
  let ?s = "rewind_floor a n s"
  show "ps_rep (reinsert_for_retry a n payload s)" if "ps_rep s"
    using rewind_floor_effect(6) [OF that, of a n] ps_rep_entry(1) [of ?s a]
    by (auto simp: reinsert_for_retry_def Let_def intro!: ps_rep_set_pending pb_inv_reinsert)
qed (simp_all add: reinsert_for_retry_def Let_def rewind_floor_effect)

lemma fold_reinsert:
  "pb_slot (fold (\<lambda>(n, p). pb_reinsert n p d) l b) =
     (\<lambda>m. case map_of (rev l) m of
            None \<Rightarrow> pb_slot b m
          | Some p \<Rightarrow> Some \<lparr>slot_deadline = d, slot_value = p\<rparr>)"
  by (induction l arbitrary: b)
    (auto simp: fun_eq_iff map_add_def split: option.splits)

lemma fold_reinsert_rep:
  "pb_inv b \<Longrightarrow> pb_inv (fold (\<lambda>(n, p). pb_reinsert n p d) l b)"
  "pb_capacity (fold (\<lambda>(n, p). pb_reinsert n p d) l b) = pb_capacity b"
  by (induction l arbitrary: b) (auto intro: pb_inv_reinsert)

lemma free_nonce_effect:
  fixes a n l
  defines "freed \<equiv> \<lparr>freed_sender = a, freed_nonce = n, freed_later = l\<rparr>"
  shows "slot_at (free_nonce now freed s) = (slot_at s)(a :=
      (\<lambda>m. case map_of (rev l) m of
             None \<Rightarrow> slot_at s a m
           | Some p \<Rightarrow> Some \<lparr>slot_deadline = Some (now + tx_ttl s), slot_value = p\<rparr>))"
    and "next_nonce x (free_nonce now freed s) =
      (if x = a then (case next_nonce_known a s of None \<Rightarrow> n | Some f \<Rightarrow> min f n) else next_nonce x s)"
    and "set (ps_deadlines (free_nonce now freed s)) =
      (\<lambda>(m, _). ParkedDeadline (now + tx_ttl s) a m) ` set l \<union> set (ps_deadlines s)"
    and "ps_rep s \<Longrightarrow> ps_rep (free_nonce now freed s)"
proof -
  let ?s = "rewind_floor a n (trim_refused a (\<lambda>m. m < n) s)"
  show "ps_rep (free_nonce now freed s)" if "ps_rep s"
  proof -
    have "ps_rep ?s" using that by (simp add: rewind_floor_effect)
    then show ?thesis
      using ps_rep_entry(1) [of ?s a]
      by (auto simp: free_nonce_def Let_def freed_def fold_reinsert_rep
          intro!: ps_rep_fold_push_deadline ps_rep_set_pending)
  qed
qed (simp_all add: free_nonce_def Let_def freed_def rewind_floor_effect fold_reinsert
    fun_eq_iff split: option.splits)

lemma expire_parked_effect:
  assumes "expire_parked d s = (r, s')"
  shows "ps_next s' = ps_next s" and "ps_refused s' = ps_refused s"
    and "ps_deadlines s' = ps_deadlines s"
    and "next_nonce x s' = next_nonce x s"
    and "r = (case slot_at s (pd_sender d) (pd_nonce d) of
           None \<Rightarrow> None
         | Some sl \<Rightarrow> if next_nonce (pd_sender d) s < pd_nonce d \<and> slot_deadline sl = Some (pd_at d)
                      then Some (pd_sender d, pd_nonce d, slot_value sl) else None)"
    and "slot_at s' = (if r = None then slot_at s
           else (slot_at s)(pd_sender d := (slot_at s (pd_sender d))(pd_nonce d := None)))"
    and "ps_rep s \<Longrightarrow> ps_rep s'"
proof -
  show "ps_rep s'" if "ps_rep s"
  proof (cases "map_of (ps_pending s) (pd_sender d)")
    case (Some buf)
    let ?buf = "snd (pb_expire (pd_nonce d) (pd_at d) buf)"
    have "pb_inv ?buf" "pb_capacity ?buf = pb_capacity (pending_entry (pd_sender d) s)"
      using ps_rep_buf [OF that Some]
      by (auto simp: pb_inv_remove pb_expire_def Let_def split: option.splits)
    then have "ps_rep (set_pending (pd_sender d) ?buf s)" by (rule ps_rep_set_pending [OF that])
    with assms that Some show ?thesis
      by (auto simp: expire_parked_def Let_def split: prod.splits if_splits)
  qed (use assms that in \<open>auto simp: expire_parked_def split: if_splits\<close>)
qed (use assms in \<open>auto simp: expire_parked_def slot_at_def pb_expire_def pb_remove_def Let_def
      fun_eq_iff not_le leD split: option.splits if_splits prod.splits\<close>)

text \<open>\<open>floor_of\<close> reads a floor the way \<^const>\<open>drain_one_sender\<close> does.\<close>

definition floor_of :: "(address, u64) hash_map \<Rightarrow> address \<Rightarrow> u64" where
  "floor_of nx a = (case map_of nx a of None \<Rightarrow> 0 | Some n \<Rightarrow> n)"

lemma next_nonce_floor_of: "next_nonce a s = floor_of (ps_next s) a"
  by (simp add: next_nonce_def floor_of_def)

lemma advanced_fold:
  "fold (\<lambda>(n, _) _. Some (saturating_add n 1)) items None =
     (if items = [] then None else Some (past_drained start items))"
  by (cases items rule: rev_cases) (auto simp: past_drained_def)

lemma drain_one_sender_eq:
  assumes "drain_consecutive_from buf (floor_of nx a) = (items, buf')"
  shows "drain_one_sender nx buf a out =
    (if items = [] then nx else hm_insert a (past_drained (floor_of nx a) items) nx,
     buf', out @ map (\<lambda>(n, p). (a, n, p)) items)"
  using assms
  by (simp add: drain_one_sender_def drain_sender_run_def floor_of_def [symmetric]
      advanced_fold [of items "floor_of nx a"])

abbreviation drained_items ::
  "(address, u64) hash_map \<Rightarrow> (address, 't PendingBuffer) hash_map \<Rightarrow> (address \<times> u64 \<times> 't) list" where
  "drained_items nx P \<equiv> concat (map (\<lambda>(a, buf).
      map (\<lambda>(n, p). (a, n, p)) (fst (drain_consecutive_from buf (floor_of nx a)))) P)"

lemma floor_of_update [simp]:
  "floor_of (hm_insert a n nx) x = (if x = a then n else floor_of nx x)"
  by (simp add: floor_of_def)

lemma drained_items_cong:
  "(\<And>a. a \<in> set (keys P) \<Longrightarrow> floor_of nx a = floor_of nx' a) \<Longrightarrow>
    drained_items nx P = drained_items nx' P"
  by (induction P) auto

lemma drain_senders_effect:
  assumes "distinct (keys P)" and "drain_senders nx P out = (nx', P', out')"
    and "hm_inv nx"
  shows "keys P' = keys P \<and> hm_inv nx' \<and> out' = out @ drained_items nx P
    \<and> (\<forall>a. map_of P a = None \<longrightarrow> map_of nx' a = map_of nx a)
    \<and> (\<forall>a buf items buf'. map_of P a = Some buf \<longrightarrow>
         drain_consecutive_from buf (floor_of nx a) = (items, buf') \<longrightarrow>
         map_of P' a = Some buf'
         \<and> map_of nx' a = (if items = [] then map_of nx a
                             else Some (past_drained (floor_of nx a) items)))"
  using assms
proof (induction P arbitrary: nx nx' P' out out')
  case (Cons e P)
  obtain a buf where e: "e = (a, buf)" by fastforce
  obtain items buf' where dr: "drain_consecutive_from buf (floor_of nx a) = (items, buf')"
    by fastforce
  define nx1 where
    "nx1 = (if items = [] then nx else hm_insert a (past_drained (floor_of nx a) items) nx)"
  obtain nx2 P2 out2 where rest:
    "drain_senders nx1 P (out @ map (\<lambda>(n, p). (a, n, p)) items) = (nx2, P2, out2)"
    by (metis prod_cases3)
  have res: "nx' = nx2" "P' = (a, buf') # P2" "out' = out2"
    using Cons.prems(2) rest by (auto simp: e drain_one_sender_eq [OF dr] nx1_def)
  have notin: "map_of P a = None" using Cons.prems(1) e by (simp add: map_of_eq_None_iff)
  have floors: "floor_of nx1 x = floor_of nx x" "map_of nx1 x = map_of nx x" if "x \<noteq> a" for x
    using that by (simp_all add: nx1_def)
  have "drained_items nx1 P = drained_items nx P"
    using Cons.prems(1) e by (intro drained_items_cong floors) auto
  moreover have "hm_inv nx1" using Cons.prems(3) by (simp add: nx1_def)
  then have IH: "keys P2 = keys P \<and> hm_inv nx2
      \<and> out2 = (out @ map (\<lambda>(n, p). (a, n, p)) items) @ drained_items nx1 P
      \<and> (\<forall>a. map_of P a = None \<longrightarrow> map_of nx2 a = map_of nx1 a)
      \<and> (\<forall>a buf items buf'. map_of P a = Some buf \<longrightarrow>
           drain_consecutive_from buf (floor_of nx1 a) = (items, buf') \<longrightarrow>
           map_of P2 a = Some buf'
           \<and> map_of nx2 a = (if items = [] then map_of nx1 a
                               else Some (past_drained (floor_of nx1 a) items)))"
    using Cons.IH [OF _ rest] Cons.prems(1) e by simp
  moreover have "map_of nx2 a = (if items = [] then map_of nx a
      else Some (past_drained (floor_of nx a) items))"
    using IH notin by (simp add: nx1_def)
  ultimately show ?case
    using res e dr floors by (auto split: if_splits)
qed auto

text \<open>No buffered nonce of the state is the last one of the type.\<close>

definition no_max :: "'t PartitionState \<Rightarrow> bool" where
  "no_max s \<longleftrightarrow> (\<forall>a. - 1 \<notin> buffered s a)"

lemma no_max_buf: "no_max s \<Longrightarrow> map_of (ps_pending s) a = Some buf \<Longrightarrow> - 1 \<notin> pb_nonces buf"
  by (auto simp: no_max_def slot_at_def dest!: spec [of _ a])

lemma drain_pending_effect:
  assumes "ps_rep s" and "no_max s" and "drain_pending s = (out, s')"
  shows "ps_deadlines s' = ps_deadlines s" and "ps_refused s' = ps_refused s"
    and "tx_ttl s' = tx_ttl s" and "max_pending_per_sender s' = max_pending_per_sender s"
    and "ps_rep s'"
    and "dense_to (slot_at s a) (next_nonce a s) (next_nonce a s')"
    and "slot_at s' a =
      (\<lambda>m. if next_nonce a s \<le> m \<and> m < next_nonce a s' then None else slot_at s a m)"
    and "next_nonce_known a s' = (if next_nonce a s' = next_nonce a s
           then next_nonce_known a s else Some (next_nonce a s'))"
    and "out = drained_items (ps_next s) (ps_pending s)"
proof -
  obtain nx P where dr: "drain_senders (ps_next s) (ps_pending s) [] = (nx, P, out)"
    and s': "s' = s\<lparr>ps_next := nx, ps_pending := P\<rparr>"
    using assms(3) by (auto simp: drain_pending_def split: prod.splits)
  have hm: "distinct (keys (ps_pending s))" "hm_inv (ps_next s)"
    using assms(1) by (auto simp: ps_rep_def hm_inv_def)
  note all = drain_senders_effect [OF hm(1) dr hm(2)]
  have keys: "keys P = keys (ps_pending s)" and nx: "hm_inv nx"
    and out: "out = drained_items (ps_next s) (ps_pending s)"
    using all by simp_all
  have idle: "map_of nx x = map_of (ps_next s) x" if "map_of (ps_pending s) x = None" for x
    using all that by blast
  have run: "map_of P x = Some buf' \<and> map_of nx x = (if items = [] then map_of (ps_next s) x
         else Some (past_drained (next_nonce x s) items))"
    if "map_of (ps_pending s) x = Some buf"
      and "drain_consecutive_from buf (next_nonce x s) = (items, buf')" for x buf items buf'
    using all that unfolding next_nonce_floor_of by blast
  have dom: "map_of P x = None \<longleftrightarrow> map_of (ps_pending s) x = None" for x
    using keys unfolding map_of_eq_None_iff by (metis list.set_map)
  from s' show "ps_deadlines s' = ps_deadlines s" and "ps_refused s' = ps_refused s"
    and "tx_ttl s' = tx_ttl s" and "max_pending_per_sender s' = max_pending_per_sender s"
    by simp_all
  show "out = drained_items (ps_next s) (ps_pending s)" by (rule out)
  have *: "dense_to (slot_at s a) (next_nonce a s) (next_nonce a s')
    \<and> slot_at s' a =
      (\<lambda>m. if next_nonce a s \<le> m \<and> m < next_nonce a s' then None else slot_at s a m)
    \<and> next_nonce_known a s' = (if next_nonce a s' = next_nonce a s
           then next_nonce_known a s else Some (next_nonce a s'))"
  proof (cases "map_of (ps_pending s) a")
    case None
    then have "slot_at s a = Map.empty" "slot_at s' a = Map.empty"
      "next_nonce a s' = next_nonce a s" "next_nonce_known a s' = next_nonce_known a s"
      using dom [of a] idle [of a]
      by (simp_all add: slot_at_def s' next_nonce_def next_nonce_known_def)
    then show ?thesis by (auto simp: dense_to_def)
  next
    case (Some buf)
    obtain items buf' where it: "drain_consecutive_from buf (next_nonce a s) = (items, buf')"
      by fastforce
    note d = drain_effect [OF no_max_buf [OF assms(2) Some] it]
    note r = run [OF Some it]
    have nn: "next_nonce a s' = past_drained (next_nonce a s) items"
      using r d(5) by (cases "items = []") (simp_all add: s' next_nonce_def)
    have "slot_at s a = pb_slot buf" "slot_at s' a = pb_slot buf'"
      using r Some by (simp_all add: slot_at_def s')
    moreover have "next_nonce_known a s' = (if next_nonce a s' = next_nonce a s
           then next_nonce_known a s else Some (next_nonce a s'))"
      using r d(5) nn by (simp add: s' next_nonce_known_def)
    ultimately show ?thesis using d(1,3) by (simp only: nn simp_thms)
  qed
  then show "dense_to (slot_at s a) (next_nonce a s) (next_nonce a s')"
    and "slot_at s' a =
      (\<lambda>m. if next_nonce a s \<le> m \<and> m < next_nonce a s' then None else slot_at s a m)"
    and "next_nonce_known a s' = (if next_nonce a s' = next_nonce a s
           then next_nonce_known a s else Some (next_nonce a s'))" by blast+
  show "ps_rep s'"
  proof -
    have "pb_inv buf' \<and> pb_capacity buf' = pb_capacity (pending_entry x s)"
      if Px: "map_of P x = Some buf'" for x buf'
    proof -
      obtain buf where b: "map_of (ps_pending s) x = Some buf"
        using Px dom [of x] by (cases "map_of (ps_pending s) x") auto
      obtain items buf2 where it: "drain_consecutive_from buf (next_nonce x s) = (items, buf2)"
        by fastforce
      have "buf2 = buf'" using run [OF b it] Px by simp
      then have "buf' = snd (drain_consecutive_from buf (next_nonce x s))" by (simp add: it)
      then show ?thesis
        using ps_rep_buf [OF assms(1) b] by (simp add: drain_inv)
    qed
    moreover have "hm_inv P" using keys hm(1) by (simp only: hm_inv_def)
    ultimately show ?thesis
      using assms(1) nx ps_rep_entry(2) [OF assms(1)] unfolding ps_rep_def s'
      by (simp add: pb_new_def)
  qed
qed

end
