(* ===== verification/Partition_Safety.thy ===== *)
theory Partition_Safety
  imports Partition_Invariant
begin

text \<open>
  The partition state as a machine driven by the calls of its owner. \<open>ps_event\<close> has one
  constructor per mutating method of \<open>PartitionState\<close>; the invariant \<open>ps_inv\<close> says that no
  buffered ref sits below its sender's floor and that every parked deadline is on the heap;
  and the publish trace of a sender is dense.
\<close>

section \<open>Events\<close>

datatype 't ps_event =
    EvProcess instant address u64 't
  | EvReinsert address u64 't
  | EvFree instant address u64 "(u64 \<times> 't) list"
  | EvMarkRefused address u64
  | EvClearRefused address u64
  | EvTakeParked address u64 "'t \<Rightarrow> bool"
  | EvSweep instant nat
  | EvDrain
  | EvAdvance address u64
  | EvRelease address u64
  | EvForget address
  | EvSeed address u64

fun ps_step :: "'t ps_event \<Rightarrow> 't PartitionState \<Rightarrow> 't PartitionState" where
  "ps_step (EvProcess now a n p) s = snd (process_at now a n p s)"
| "ps_step (EvReinsert a n p) s = reinsert_for_retry a n p s"
| "ps_step (EvFree now a n later) s =
     free_nonce now \<lparr>freed_sender = a, freed_nonce = n, freed_later = later\<rparr> s"
| "ps_step (EvMarkRefused a n) s = mark_refused a n s"
| "ps_step (EvClearRefused a n) s = clear_refused a n s"
| "ps_step (EvTakeParked a n named) s = snd (take_parked a n named s)"
| "ps_step (EvSweep now limit) s = snd (sweep_expired now limit s)"
| "ps_step EvDrain s = snd (drain_pending s)"
| "ps_step (EvAdvance a floor) s = snd (advance_floor a floor s)"
| "ps_step (EvRelease a chain) s = snd (release_floor a chain s)"
| "ps_step (EvForget a) s = snd (forget_floor a s)"
| "ps_step (EvSeed a n) s = seed_next_nonce a n s"

text \<open>
  What the owner has to respect. No transaction carries the last nonce of the type. A rewind
  of a sender with no floor, and a seed, must not land above a ref the buffer still holds; the
  refs a freed nonce gives back lie at or above it. The expiry sweep runs on a state in which
  nothing is drainable.
\<close>

definition drained :: "'t PartitionState \<Rightarrow> bool" where
  "drained s \<longleftrightarrow> list_all (\<lambda>(a, buf). \<not> pb_contains (next_nonce a s) buf) (ps_pending s)"

definition rewind_ok :: "address \<Rightarrow> u64 \<Rightarrow> 't PartitionState \<Rightarrow> bool" where
  "rewind_ok a n s \<longleftrightarrow>
     next_nonce_known a s \<noteq> None \<or> pb_count_below n (pending_entry a s) = 0"

fun ps_admissible :: "'t ps_event \<Rightarrow> 't PartitionState \<Rightarrow> bool" where
  "ps_admissible (EvProcess now a n p) s \<longleftrightarrow> n \<noteq> - 1"
| "ps_admissible (EvReinsert a n p) s \<longleftrightarrow> n \<noteq> - 1 \<and> rewind_ok a n s"
| "ps_admissible (EvFree now a n later) s \<longleftrightarrow>
     list_all (\<lambda>(m, p). n \<le> m \<and> m \<noteq> - 1) later \<and> rewind_ok a n s"
| "ps_admissible (EvSweep now limit) s \<longleftrightarrow> drained s"
| "ps_admissible (EvSeed a n) s \<longleftrightarrow> pb_count_below n (pending_entry a s) = 0"
| "ps_admissible _ s \<longleftrightarrow> True"

section \<open>The invariant\<close>

definition slot_ok :: "'t PartitionState \<Rightarrow> address \<Rightarrow> u64 \<Rightarrow> 't Slot \<Rightarrow> bool" where
  "slot_ok s a n sl \<longleftrightarrow> n \<noteq> - 1 \<and> next_nonce a s \<le> n
     \<and> (\<forall>d. slot_deadline sl = Some d \<longrightarrow> ParkedDeadline d a n \<in> set (ps_deadlines s))"

definition ps_inv :: "'t PartitionState \<Rightarrow> bool" where
  "ps_inv s \<longleftrightarrow> ps_rep s \<and> (\<forall>a n sl. slot_at s a n = Some sl \<longrightarrow> slot_ok s a n sl)"

lemma ps_invI:
  "ps_rep s \<Longrightarrow> (\<And>a n sl. slot_at s a n = Some sl \<Longrightarrow> slot_ok s a n sl) \<Longrightarrow> ps_inv s"
  by (simp add: ps_inv_def)

lemma ps_inv_rep: "ps_inv s \<Longrightarrow> ps_rep s"
  by (simp add: ps_inv_def)

lemma ps_inv_slot: "ps_inv s \<Longrightarrow> slot_at s a n = Some sl \<Longrightarrow> slot_ok s a n sl"
  by (simp add: ps_inv_def)

lemma ps_inv_no_max: "ps_inv s \<Longrightarrow> no_max s"
  by (auto simp: no_max_def slot_ok_def dest!: ps_inv_slot)

lemma ps_inv_new: "ps_inv (ps_new m ttl)"
  by (simp add: ps_inv_def ps_rep_new slot_at_def) (simp add: ps_new_def)

lemma slot_ok_mono:
  "slot_ok s a n sl \<Longrightarrow> next_nonce a s' \<le> n \<Longrightarrow>
    set (ps_deadlines s) \<subseteq> set (ps_deadlines s') \<Longrightarrow> slot_ok s' a n sl"
  by (auto simp: slot_ok_def)

text \<open>The common case: no new slot, no lost deadline, and no floor above a slot that stays.\<close>

lemma ps_inv_shrink:
  assumes "ps_inv s" and "ps_rep s'" and "set (ps_deadlines s) \<subseteq> set (ps_deadlines s')"
    and "\<And>a n sl. slot_at s' a n = Some sl \<Longrightarrow> slot_at s a n = Some sl \<and> next_nonce a s' \<le> n"
  shows "ps_inv s'"
  using assms by (intro ps_invI) (blast intro: slot_ok_mono ps_inv_slot)+

lemma refs_below_floor_0:
  assumes "ps_rep s"
  shows "refs_below_floor s = 0 \<longleftrightarrow> (\<forall>a n. n \<in> buffered s a \<longrightarrow> next_nonce a s \<le> n)"
proof -
  have d: "distinct (keys (ps_pending s))" using assms by (simp add: ps_rep_def hm_inv_def)
  have "refs_below_floor s = 0 \<longleftrightarrow>
      (\<forall>a buf. map_of (ps_pending s) a = Some buf \<longrightarrow> pb_count_below (next_nonce a s) buf = 0)"
    using d by (auto simp: refs_below_floor_def)
  then show ?thesis
    by (auto simp: pb_count_below_0_iff slot_at_def split: option.splits)
qed

lemma pending_entry_below:
  "pb_count_below n (pending_entry a s) = 0 \<longleftrightarrow> (\<forall>m. m \<in> buffered s a \<longrightarrow> n \<le> m)"
  by (auto simp: pb_count_below_0_iff)

lemma drained_iff:
  assumes "ps_rep s"
  shows "drained s \<longleftrightarrow> (\<forall>a. slot_at s a (next_nonce a s) = None)"
proof -
  have "distinct (keys (ps_pending s))" using assms by (simp add: ps_rep_def hm_inv_def)
  then have "drained s \<longleftrightarrow> (\<forall>a buf. map_of (ps_pending s) a = Some buf \<longrightarrow>
      pb_slot buf (next_nonce a s) = None)"
    by (auto simp: drained_def list_all_iff pb_contains_iff)
  then show ?thesis by (auto simp: slot_at_def split: option.splits)
qed

section \<open>Every operation keeps the invariant\<close>

lemma process_at_inv:
  assumes "ps_inv s" and "n \<noteq> - 1"
  shows "ps_inv (snd (process_at now a n p s))"
proof -
  obtain acts outcome s' where run: "process_at now a n p s = ((acts, outcome), s')"
    by (metis prod.collapse)
  consider "n < next_nonce a s" | "next_nonce a s < n" | "n = next_nonce a s" by fastforce
  then show ?thesis
  proof cases
    case 1
    then show ?thesis using assms(1) by (simp add: process_at_past)
  next
    case 2
    obtain r s2 where pk: "park now a n p s = (r, s2)" by fastforce
    have "s' = s2" using run pk by (simp add: process_at_future [OF 2])
    note eff = park_effect [OF pk, folded this]
    have nn: "next_nonce x s' = next_nonce x s" for x by (simp add: next_nonce_def eff(1))
    have "slot_ok s' x m sl" if "slot_at s' x m = Some sl" for x m sl
    proof (cases "slot_at s x m = Some sl")
      case True
      then have "slot_ok s x m sl" by (rule ps_inv_slot [OF assms(1)])
      with eff(6) nn show ?thesis by (auto simp: slot_ok_def)
    next
      case False
      then show ?thesis using eff(7) [OF that] assms(2) 2 nn by (auto simp: slot_ok_def)
    qed
    then show ?thesis using run eff(8) ps_inv_rep [OF assms(1)] by (auto intro: ps_invI)
  next
    case 3
    have "- 1 \<notin> buffered s a" using ps_inv_no_max [OF assms(1)] by (simp add: no_max_def)
    note eff = process_at_matched [OF 3 assms(2) this run]
    have nn: "next_nonce x s' = next_nonce x s" if "x \<noteq> a" for x
      unfolding next_nonce_def using that by (subst eff(2)) simp
    have "slot_at s x m = Some sl \<and> next_nonce x s' \<le> m" if "slot_at s' x m = Some sl" for x m sl
    proof (cases "x = a")
      case True
      then have "\<not> (n \<le> m \<and> m < next_nonce a s')" "slot_at s a m = Some sl"
        using that eff(8) by (auto split: if_splits)
      moreover from this have "n \<le> m" using ps_inv_slot [OF assms(1)] 3 by (auto simp: slot_ok_def)
      ultimately show ?thesis using True by auto
    next
      case False
      then have "slot_at s x m = Some sl" using that eff(8) by simp
      moreover from this have "next_nonce x s \<le> m"
        using ps_inv_slot [OF assms(1)] by (auto simp: slot_ok_def)
      ultimately show ?thesis using nn [OF False] by simp
    qed
    then have "ps_inv s'"
      using eff(3,13) ps_inv_rep [OF assms(1)] by (intro ps_inv_shrink [OF assms(1)]) auto
    then show ?thesis by (simp add: run)
  qed
qed

lemma rewound_floor_le:
  assumes "rewind_ok a n s" and "m = n \<or> (\<exists>sl. slot_at s a m = Some sl \<and> slot_ok s a m sl)"
  shows "(case next_nonce_known a s of None \<Rightarrow> n | Some f \<Rightarrow> min f n) \<le> m"
  using assms
  by (auto simp: rewind_ok_def slot_ok_def pending_entry_below min_le_iff_disj
      dest: next_nonce_known_some split: option.splits)

lemma reinsert_for_retry_inv:
  assumes "ps_inv s" and "n \<noteq> - 1" and "rewind_ok a n s"
  shows "ps_inv (reinsert_for_retry a n p s)"
proof (rule ps_invI)
  show "ps_rep (reinsert_for_retry a n p s)"
    by (rule reinsert_for_retry_effect(5) [OF ps_inv_rep [OF assms(1)]])
next
  fix x m sl
  assume sl: "slot_at (reinsert_for_retry a n p s) x m = Some sl"
  show "slot_ok (reinsert_for_retry a n p s) x m sl"
  proof (cases "slot_at s x m = Some sl")
    case True
    note ok = ps_inv_slot [OF assms(1) True]
    show ?thesis
    proof (cases "x = a")
      case True
      with ok \<open>slot_at s x m = Some sl\<close> show ?thesis
        using rewound_floor_le [OF assms(3), of m]
        by (auto simp: slot_ok_def reinsert_for_retry_effect)
    qed (use ok in \<open>auto simp: slot_ok_def reinsert_for_retry_effect\<close>)
  next
    case False
    then have "x = a" "m = n" "slot_deadline sl = None"
      using sl by (auto simp: reinsert_for_retry_effect split: if_splits)
    then show ?thesis
      using assms(2) rewound_floor_le [OF assms(3), of n]
      by (auto simp: slot_ok_def reinsert_for_retry_effect)
  qed
qed

lemma free_nonce_inv:
  assumes "ps_inv s" and "list_all (\<lambda>(m, p). n \<le> m \<and> m \<noteq> - 1) later" and "rewind_ok a n s"
  shows "ps_inv (free_nonce now \<lparr>freed_sender = a, freed_nonce = n, freed_later = later\<rparr> s)"
    (is "ps_inv ?s")
proof (rule ps_invI)
  show "ps_rep ?s" by (rule free_nonce_effect(4) [OF ps_inv_rep [OF assms(1)]])
next
  fix x m sl
  assume sl: "slot_at ?s x m = Some sl"
  have floor: "next_nonce a ?s \<le> n"
    by (auto simp: free_nonce_effect split: option.splits)
  show "slot_ok ?s x m sl"
  proof (cases "x = a \<and> map_of (rev later) m \<noteq> None")
    case True
    then obtain v where v: "map_of (rev later) m = Some v" by auto
    then have mem: "(m, v) \<in> set later" by (auto dest: map_of_SomeD)
    then have "n \<le> m" "m \<noteq> - 1" using assms(2) by (auto simp: list_all_iff)
    moreover have "slot_deadline sl = Some (now + tx_ttl s)"
      using sl True v by (auto simp: free_nonce_effect)
    moreover have "ParkedDeadline (now + tx_ttl s) a m \<in> set (ps_deadlines ?s)"
      using mem by (force simp: free_nonce_effect)
    ultimately show ?thesis using True floor by (auto simp: slot_ok_def)
  next
    case False
    then have old: "slot_at s x m = Some sl"
      using sl by (auto simp: free_nonce_effect split: if_splits)
    note ok = ps_inv_slot [OF assms(1) old]
    have "next_nonce x ?s \<le> m"
      using rewound_floor_le [OF assms(3), of m] old ok
      by (auto simp: free_nonce_effect slot_ok_def)
    then show ?thesis using ok by (auto simp: slot_ok_def free_nonce_effect)
  qed
qed

lemma mark_refused_inv:
  assumes "ps_inv s"
  shows "ps_inv (mark_refused a n s)"
proof -
  have "ps_rep (mark_refused a n s)"
    using ps_inv_rep [OF assms]
    by (auto simp: mark_refused_def ps_rep_def Let_def split: option.splits if_splits)
  moreover have "slot_at (mark_refused a n s) = slot_at s" "ps_next (mark_refused a n s) = ps_next s"
    "ps_deadlines (mark_refused a n s) = ps_deadlines s"
    by (simp_all add: mark_refused_def Let_def)
  ultimately show ?thesis
    using ps_inv_slot [OF assms]
    by (intro ps_inv_shrink [OF assms]) (auto simp: next_nonce_def slot_ok_def)
qed

lemma trim_refused_inv: "ps_inv s \<Longrightarrow> ps_inv (trim_refused a keep s)"
  by (rule ps_inv_shrink) (auto dest: ps_inv_rep ps_inv_slot simp: slot_ok_def)

lemma take_parked_effect:
  assumes "take_parked a n named s = (r, s')"
  shows "ps_next s' = ps_next s" and "ps_deadlines s' = ps_deadlines s"
    and "ps_refused s' = ps_refused s"
    and "r = (case slot_at s a n of
           None \<Rightarrow> None
         | Some sl \<Rightarrow> if slot_deadline sl \<noteq> None \<and> named (slot_value sl)
                      then Some (slot_value sl) else None)"
    and "slot_at s' = (if r = None then slot_at s
           else (slot_at s)(a := (slot_at s a)(n := None)))"
    and "ps_rep s \<Longrightarrow> ps_rep s'"
proof -
  show "ps_rep s'" if "ps_rep s"
  proof (cases "map_of (ps_pending s) a")
    case (Some buf)
    let ?buf = "snd (pb_take_parked n named buf)"
    have "pb_inv ?buf" "pb_capacity ?buf = pb_capacity (pending_entry a s)"
      using ps_rep_buf [OF that Some]
      by (auto simp: pb_inv_remove pb_take_parked_def Let_def split: option.splits)
    then have "ps_rep (set_pending a ?buf s)" by (rule ps_rep_set_pending [OF that])
    with assms that Some show ?thesis
      by (auto simp: take_parked_def Let_def split: prod.splits)
  qed (use assms that in \<open>auto simp: take_parked_def\<close>)
qed (use assms in \<open>auto simp: take_parked_def slot_at_def pb_take_parked_def pb_remove_def Let_def
      fun_eq_iff split: option.splits if_splits prod.splits\<close>)

lemma take_parked_inv:
  assumes "ps_inv s"
  shows "ps_inv (snd (take_parked a n named s))"
proof -
  obtain r s' where t: "take_parked a n named s = (r, s')" by fastforce
  note eff = take_parked_effect [OF t]
  have "ps_inv s'"
    using eff(2,6) ps_inv_rep [OF assms] ps_inv_slot [OF assms]
    by (intro ps_inv_shrink [OF assms])
      (auto simp: eff(1,5) next_nonce_def slot_ok_def split: if_splits)
  then show ?thesis by (simp add: t)
qed

lemma drain_pending_inv:
  assumes "ps_inv s"
  shows "ps_inv (snd (drain_pending s))" and "drained (snd (drain_pending s))"
proof -
  obtain out s' where d: "drain_pending s = (out, s')" by fastforce
  note eff = drain_pending_effect [OF ps_inv_rep [OF assms] ps_inv_no_max [OF assms] d]
  have "ps_inv s'"
  proof (rule ps_inv_shrink [OF assms eff(5)])
    show "set (ps_deadlines s) \<subseteq> set (ps_deadlines s')" by (simp add: eff(1))
    fix a n sl
    assume "slot_at s' a n = Some sl"
    then have "\<not> (next_nonce a s \<le> n \<and> n < next_nonce a s')" "slot_at s a n = Some sl"
      by (auto simp: eff(7) [of a] split: if_splits)
    moreover from this have "next_nonce a s \<le> n"
      using ps_inv_slot [OF assms] by (auto simp: slot_ok_def)
    ultimately show "slot_at s a n = Some sl \<and> next_nonce a s' \<le> n" by auto
  qed
  then show "ps_inv (snd (drain_pending s))" by (simp add: d)
  have "slot_at s' a (next_nonce a s') = None" for a
    using eff(6) [of a] by (simp add: eff(7) [of a] dense_to_def)
  then show "drained (snd (drain_pending s))" by (simp add: d drained_iff [OF eff(5)])
qed

lemma ps_next_inv:
  assumes "ps_inv s" and "hm_inv m"
    and "\<And>a n. n \<in> buffered s a \<Longrightarrow> next_nonce a (s\<lparr>ps_next := m\<rparr>) \<le> n"
  shows "ps_inv (s\<lparr>ps_next := m\<rparr>)"
  using assms ps_inv_rep [OF assms(1)] by (intro ps_inv_shrink [OF assms(1)]) auto

lemma seed_next_nonce_inv:
  assumes "ps_inv s" and "pb_count_below n (pending_entry a s) = 0"
  shows "ps_inv (seed_next_nonce a n s)"
  unfolding seed_next_nonce_def
  using assms ps_inv_rep [OF assms(1)]
  by (intro ps_next_inv) (auto simp: pending_entry_below ps_rep_hm_inv slot_ok_def
      dest: ps_inv_slot)

lemma release_floor_inv:
  assumes "ps_inv s"
  shows "ps_inv (snd (release_floor a chain s))"
proof (cases "\<exists>cur. next_nonce_known a s = Some cur \<and> chain < cur")
  case True
  then obtain cur where cur: "next_nonce_known a s = Some cur" "chain < cur" by auto
  then have "next_nonce a s = cur" by (simp add: next_nonce_known_some)
  with cur(2) have "ps_inv (s\<lparr>ps_next := hm_insert a chain (ps_next s)\<rparr>)"
    using assms ps_inv_rep [OF assms]
    by (intro ps_next_inv) (fastforce simp: ps_rep_hm_inv slot_ok_def dest: ps_inv_slot)+
  with cur show ?thesis by (simp add: release_floor_def trim_refused_inv)
qed (use assms in \<open>auto simp: release_floor_def split: option.splits\<close>)

lemma forget_floor_inv:
  assumes "ps_inv s"
  shows "ps_inv (snd (forget_floor a s))"
  unfolding forget_floor_def snd_conv
  using assms ps_inv_rep [OF assms]
  by (intro ps_next_inv) (auto simp: ps_rep_hm_inv next_nonce_def slot_ok_def dest: ps_inv_slot)

lemma advance_floor_effect:
  assumes "next_nonce a s < floor" and "advance_floor a floor s = (r, s')"
  shows "\<exists>dropped. r = Some (next_nonce a s, dropped)
      \<and> (ps_rep s \<longrightarrow> sorted_wrt (<) (keys dropped)
           \<and> (\<forall>n p. (n, p) \<in> set dropped \<longleftrightarrow>
                n < floor \<and> map_option slot_value (slot_at s a n) = Some p))"
    and "next_nonce x s' = (if x = a then floor else next_nonce x s)"
    and "slot_at s' = (slot_at s)(a := (\<lambda>n. if floor \<le> n then slot_at s a n else None))"
    and "ps_deadlines s' = ps_deadlines s"
    and "ps_rep s \<Longrightarrow> ps_rep s'"
proof -
  define s1 where "s1 = (case map_of (ps_pending s) a of None \<Rightarrow> s
    | Some buf \<Rightarrow> set_pending a (snd (pb_drop_below floor buf)) s)"
  define dr where "dr = (case map_of (ps_pending s) a of None \<Rightarrow> []
    | Some buf \<Rightarrow> fst (pb_drop_below floor buf))"
  have res: "r = Some (next_nonce a s, dr)"
    "s' = trim_refused a (\<lambda>n. floor \<le> n) (s1\<lparr>ps_next := hm_insert a floor (ps_next s1)\<rparr>)"
    using assms
    by (auto simp: advance_floor_def Let_def s1_def dr_def case_prod_unfold
        split: option.splits if_splits)
  have nn: "next_nonce x s1 = next_nonce x s" "ps_deadlines s1 = ps_deadlines s"
    by (simp_all add: s1_def split: option.splits)
  from res(2) nn show "next_nonce x s' = (if x = a then floor else next_nonce x s)"
    "ps_deadlines s' = ps_deadlines s" by simp_all
  show "slot_at s' = (slot_at s)(a := (\<lambda>n. if floor \<le> n then slot_at s a n else None))"
    by (auto simp: res(2) s1_def slot_at_def fun_eq_iff split: option.splits)
  show "ps_rep s'" if rep: "ps_rep s"
  proof -
    have "ps_rep s1"
      using rep ps_rep_buf [OF rep]
      by (auto simp: s1_def pb_inv_drop_below intro!: ps_rep_set_pending split: option.splits)
    then show ?thesis by (simp add: res(2) ps_rep_hm_inv)
  qed
  show "\<exists>dropped. r = Some (next_nonce a s, dropped)
      \<and> (ps_rep s \<longrightarrow> sorted_wrt (<) (keys dropped)
           \<and> (\<forall>n p. (n, p) \<in> set dropped \<longleftrightarrow>
                n < floor \<and> map_option slot_value (slot_at s a n) = Some p))"
  proof (intro exI [of _ dr] conjI impI)
    show "r = Some (next_nonce a s, dr)" by (rule res(1))
  next
    assume rep: "ps_rep s"
    show "sorted_wrt (<) (keys dr)"
      using ps_rep_buf(1) [OF rep, of a] bt_inv_below [of _ floor]
      by (auto simp: dr_def pb_drop_below_def pb_inv_def bt_inv_def comp_def case_prod_unfold
          split: option.splits)
    show "\<forall>n p. (n, p) \<in> set dr \<longleftrightarrow>
        n < floor \<and> map_option slot_value (slot_at s a n) = Some p"
    proof (cases "map_of (ps_pending s) a")
      case (Some buf)
      have inv: "bt_inv (pb_inner buf)" using ps_rep_buf(1) [OF rep Some] by (simp add: pb_inv_def)
      have "(n, p) \<in> set dr \<longleftrightarrow> (\<exists>sl. (n, sl) \<in> set (pb_inner buf) \<and> n < floor \<and> p = slot_value sl)"
        for n p using Some by (force simp: dr_def pb_drop_below_def entries_below_def)
      then show ?thesis
        using Some btree.set_entries [OF inv] by (auto simp: slot_at_def)
    qed (simp add: dr_def slot_at_def)
  qed
qed

lemma advance_floor_inv:
  assumes "ps_inv s"
  shows "ps_inv (snd (advance_floor a floor s))"
proof (cases "next_nonce a s < floor")
  case True
  obtain r s' where adv: "advance_floor a floor s = (r, s')" by fastforce
  note eff = advance_floor_effect [OF True adv]
  have "ps_inv s'"
    using eff(4,5) ps_inv_rep [OF assms] ps_inv_slot [OF assms]
    by (intro ps_inv_shrink [OF assms]) (auto simp: eff(2,3) slot_ok_def split: if_splits)
  then show ?thesis by (simp add: adv)
qed (use assms in \<open>simp add: advance_floor_def not_less\<close>)

section \<open>The expiry sweep\<close>

lemma pop_due_effect:
  assumes "pop_due now s = (r, s')"
  shows "slot_at s' = slot_at s" and "next_nonce x s' = next_nonce x s"
    and "r = None \<Longrightarrow> s' = s"
    and "ps_rep s \<Longrightarrow> r = None \<Longrightarrow> d \<in> set (ps_deadlines s) \<Longrightarrow> now < pd_at d"
    and "r = Some d \<Longrightarrow> pd_at d \<le> now \<and> set (ps_deadlines s) = insert d (set (ps_deadlines s'))"
    and "ps_rep s \<Longrightarrow> ps_rep s'"
  using assms ps_rep_sorted [of s]
  by (auto simp: pop_due_def next_nonce_def dest!: bspec [of _ _ d] ParkedDeadline_le_at
      split: list.splits if_splits)

text \<open>One round of the sweep on a drained state: the popped deadline is live or stale.\<close>

lemma expire_step_inv:
  assumes "ps_inv s" and "drained s" and "pop_due now s = (Some d, s1)"
    and "expire_parked d s1 = (r, s2)"
  shows "ps_inv s2" and "drained s2"
proof -
  note p = pop_due_effect [OF assms(3)] and e = expire_parked_effect [OF assms(4)]
  have rep2: "ps_rep s2" using e(7) p(6) ps_inv_rep [OF assms(1)] by blast
  have live: "next_nonce a s < n" if "slot_at s a n = Some sl" for a n sl
    using ps_inv_slot [OF assms(1) that] that assms(2) drained_iff [OF ps_inv_rep [OF assms(1)]]
    by (auto simp: slot_ok_def order.order_iff_strict)
  have sub: "slot_at s a n = Some sl" if "slot_at s2 a n = Some sl" for a n sl
    using that p(1) by (auto simp: e(6) split: if_splits)
  show "ps_inv s2"
  proof (rule ps_invI [OF rep2])
    fix a n sl
    assume sl: "slot_at s2 a n = Some sl"
    note old = sub [OF sl]
    have "ParkedDeadline t a n \<noteq> d" if "slot_deadline sl = Some t" for t
    proof
      assume "ParkedDeadline t a n = d"
      then have "pd_sender d = a" "pd_nonce d = n" "pd_at d = t" by auto
      then show False using sl old live [OF old] p(1,2) that by (simp add: e(5,6))
    qed
    then show "slot_ok s2 a n sl"
      using ps_inv_slot [OF assms(1) old] p(2,5) e(3,4) by (auto simp: slot_ok_def)
  qed
  show "drained s2"
    unfolding drained_iff [OF rep2]
  proof
    fix a
    show "slot_at s2 a (next_nonce a s2) = None"
      using sub [of a "next_nonce a s2"] live [of a] p(2) e(4)
      by (cases "slot_at s2 a (next_nonce a s2)") fastforce+
  qed
qed

lemma sweep_inv:
  "ps_inv s \<Longrightarrow> drained s \<Longrightarrow>
    ps_inv (snd (sweep_expired now limit s)) \<and> drained (snd (sweep_expired now limit s))"
proof (induction now limit s rule: sweep_expired.induct)
  case (1 now limit s)
  show ?case
  proof (cases "limit = 0 \<or> fst (pop_due now s) = None")
    case True
    then have "snd (sweep_expired now limit s) = s"
      using pop_due_effect(3) [of now s None]
      by (auto simp: sweep_expired.simps [of now limit s] split: prod.splits option.splits)
    with 1 show ?thesis by simp
  next
    case False
    then obtain d s1 where pop: "pop_due now s = (Some d, s1)"
      by (metis not_None_eq prod.collapse)
    obtain r s2 where ex: "expire_parked d s1 = (r, s2)" by fastforce
    note step = expire_step_inv [OF 1(3,4) pop ex]
    show ?thesis
      using False pop ex 1(1) [OF _ pop [symmetric] refl ex [symmetric]]
        1(2) [OF _ pop [symmetric] refl ex [symmetric]] step
      by (auto simp: sweep_expired.simps [of now limit s] split: prod.splits option.splits)
  qed
qed

section \<open>Runs\<close>

lemma ps_step_inv:
  assumes "ps_inv s" and "ps_admissible e s"
  shows "ps_inv (ps_step e s)"
  using assms sweep_inv [OF assms(1)]
  by (cases e)
    (simp_all add: process_at_inv reinsert_for_retry_inv free_nonce_inv mark_refused_inv
      clear_refused_def trim_refused_inv take_parked_inv drain_pending_inv advance_floor_inv
      release_floor_inv forget_floor_inv seed_next_nonce_inv)

interpretation partition: invariant_machine ps_step ps_admissible ps_inv
  by unfold_locales (rule ps_step_inv)

text \<open>
  C6. Whatever sequence of calls drives the partition state, within the rules of
  \<open>ps_admissible\<close>, no buffered ref is ever left below the floor of its sender: the gauge
  \<open>refs_below_floor\<close> stays at zero.
\<close>
theorem refs_below_floor_stays_zero:
  assumes "admissible_run ps_step ps_admissible es (ps_new m ttl :: 't PartitionState)"
  shows "refs_below_floor (fold ps_step es (ps_new m ttl :: 't PartitionState)) = 0"
proof -
  have "ps_inv (fold ps_step es (ps_new m ttl :: 't PartitionState))"
    by (rule partition.run_inv [OF ps_inv_new assms])
  then show ?thesis
    by (auto simp: refs_below_floor_0 ps_inv_rep slot_ok_def dest!: ps_inv_slot)
qed

theorem refs_below_floor_stays_zero_witness:
  "refs_below_floor (fold ps_step
      [EvSeed 1 0, EvProcess 0 1 0 ''a'', EvProcess 0 1 2 ''c'', EvReinsert 1 0 ''a'',
       EvAdvance 1 2, EvDrain, EvRelease 1 1, EvSweep 9 256]
      (ps_new 4 5)) = 0"
  by (rule refs_below_floor_stays_zero)
    code_simp

section \<open>What the sweep expires\<close>

definition sweep_result ::
  "instant \<Rightarrow> nat \<Rightarrow> 't PartitionState \<Rightarrow> (address \<times> u64 \<times> 't) list \<Rightarrow> 't PartitionState \<Rightarrow> bool" where
  "sweep_result now limit s items s' \<longleftrightarrow>
     length items \<le> limit
     \<and> (\<forall>a n p. (a, n, p) \<in> set items \<longrightarrow>
          (\<exists>sl d. slot_at s a n = Some sl \<and> slot_value sl = p \<and> slot_deadline sl = Some d \<and> d \<le> now))
     \<and> (\<forall>a n. slot_at s' a n = (if (a, n) \<in> (\<lambda>(a, n, p). (a, n)) ` set items then None
                                else slot_at s a n))
     \<and> (\<forall>a. next_nonce a s' = next_nonce a s)
     \<and> (length items < limit \<longrightarrow>
          (\<forall>a n sl d. slot_at s' a n = Some sl \<and> slot_deadline sl = Some d \<longrightarrow> now < d))"

lemma sweep_result_skip:
  assumes "slot_at s2 = slot_at s" and "\<And>a. next_nonce a s2 = next_nonce a s"
    and "sweep_result now limit s2 items s'"
  shows "sweep_result now limit s items s'"
  using assms by (simp add: sweep_result_def)

lemma sweep_result_Cons:
  assumes "slot_at s a n = Some sl" and "slot_deadline sl = Some d" and "d \<le> now"
    and "slot_at s2 = (slot_at s)(a := (slot_at s a)(n := None))"
    and "\<And>x. next_nonce x s2 = next_nonce x s"
    and "sweep_result now (limit - 1) s2 items s'" and "limit \<noteq> 0"
  shows "sweep_result now limit s ((a, n, slot_value sl) # items) s'"
proof -
  have sub: "slot_at s x m = Some t" if "slot_at s2 x m = Some t" for x m t
    using that by (auto simp: assms(4) split: if_splits)
  have len: "length items \<le> limit - 1"
    and old: "\<And>x m p. (x, m, p) \<in> set items \<Longrightarrow> \<exists>sl d. slot_at s2 x m = Some sl
      \<and> slot_value sl = p \<and> slot_deadline sl = Some d \<and> d \<le> now"
    and new: "\<And>x m. slot_at s' x m = (if (x, m) \<in> (\<lambda>(a, n, p). (a, n)) ` set items then None
                                else slot_at s2 x m)"
    and nn: "\<And>x. next_nonce x s' = next_nonce x s2"
    and finish: "length items < limit - 1 \<Longrightarrow>
      \<forall>x m sl d. slot_at s' x m = Some sl \<and> slot_deadline sl = Some d \<longrightarrow> now < d"
    using assms(6) unfolding sweep_result_def by blast+
  show ?thesis
    unfolding sweep_result_def
  proof (intro conjI)
    show "length ((a, n, slot_value sl) # items) \<le> limit" using len assms(7) by simp
    show "\<forall>x m p. (x, m, p) \<in> set ((a, n, slot_value sl) # items) \<longrightarrow>
        (\<exists>sl d. slot_at s x m = Some sl \<and> slot_value sl = p \<and> slot_deadline sl = Some d \<and> d \<le> now)"
    proof (intro allI impI)
      fix x m p
      assume "(x, m, p) \<in> set ((a, n, slot_value sl) # items)"
      then consider "x = a" "m = n" "p = slot_value sl" | "(x, m, p) \<in> set items" by auto
      then show "\<exists>sl d. slot_at s x m = Some sl \<and> slot_value sl = p \<and> slot_deadline sl = Some d
          \<and> d \<le> now"
      proof cases
        case 1
        with assms(1-3) show ?thesis by blast
      next
        case 2
        from old [OF 2] sub [of x m] show ?thesis by blast
      qed
    qed
    show "\<forall>x m. slot_at s' x m =
        (if (x, m) \<in> (\<lambda>(a, n, p). (a, n)) ` set ((a, n, slot_value sl) # items) then None
         else slot_at s x m)"
      using new by (auto simp: assms(4))
    show "\<forall>x. next_nonce x s' = next_nonce x s" using nn assms(5) by simp
    show "length ((a, n, slot_value sl) # items) < limit \<longrightarrow>
        (\<forall>x m sl d. slot_at s' x m = Some sl \<and> slot_deadline sl = Some d \<longrightarrow> now < d)"
      using finish by (simp add: less_diff_conv)
  qed
qed

lemma sweep_stop:
  assumes "ps_inv s" and "pop_due now s = (None, s1)"
  shows "sweep_result now limit s [] s"
  using ps_inv_slot [OF assms(1)] pop_due_effect(4) [OF assms(2) ps_inv_rep [OF assms(1)] refl]
  by (fastforce simp: sweep_result_def slot_ok_def)

lemma sweep_spec:
  "ps_inv s \<Longrightarrow> drained s \<Longrightarrow>
    sweep_result now limit s (fst (sweep_expired now limit s)) (snd (sweep_expired now limit s))"
proof (induction now limit s rule: sweep_expired.induct)
  case (1 now limit s)
  consider "limit = 0" | s1 where "limit \<noteq> 0" "pop_due now s = (None, s1)"
    | d s1 where "limit \<noteq> 0" "pop_due now s = (Some d, s1)"
    by (metis not_None_eq prod.collapse)
  then show ?case
  proof cases
    case 1
    then show ?thesis by (simp add: sweep_expired.simps sweep_result_def)
  next
    case 2
    then show ?thesis
      using sweep_stop [OF 1(3) 2(2)] pop_due_effect(3) [OF 2(2)]
      by (simp add: sweep_expired.simps [of now limit s])
  next
    case 3
    obtain r s2 where ex: "expire_parked d s1 = (r, s2)" by fastforce
    note step = expire_step_inv [OF 1(3,4) 3(2) ex]
    note p = pop_due_effect [OF 3(2)] and e = expire_parked_effect [OF ex]
    show ?thesis
    proof (cases r)
      case None
      then have "sweep_result now limit s2 (fst (sweep_expired now limit s2))
          (snd (sweep_expired now limit s2))"
        using 1(1) [OF 3(1) 3(2) [symmetric] refl ex [symmetric]] step by simp
      then show ?thesis
        using 3 ex None p(1,2) e(4,6)
        by (auto simp: sweep_expired.simps [of now limit s] intro: sweep_result_skip)
    next
      case (Some item)
      then obtain sl where sl: "slot_at s (pd_sender d) (pd_nonce d) = Some sl"
        "slot_deadline sl = Some (pd_at d)" "item = (pd_sender d, pd_nonce d, slot_value sl)"
        using e(5) p(1) by (auto split: option.splits if_splits)
      have "sweep_result now (limit - 1) s2 (fst (sweep_expired now (limit - 1) s2))
          (snd (sweep_expired now (limit - 1) s2))"
        using 1(2) [OF 3(1) 3(2) [symmetric] refl ex [symmetric]] step Some by simp
      then show ?thesis
        using 3 ex Some sl p(1,2,5) e(4,6)
        by (auto simp: sweep_expired.simps [of now limit s] case_prod_unfold Let_def
            intro!: sweep_result_Cons)
    qed
  qed
qed



section \<open>The publish trace of a sender\<close>

text \<open>The nonces of \<open>a\<close> that an event hands to the publisher, reoffers of refused nonces apart.\<close>

fun published :: "address \<Rightarrow> 't ps_event \<Rightarrow> 't PartitionState \<Rightarrow> u64 list" where
  "published a (EvProcess now b n p) s =
     (if b = a then (case process_at now b n p s of
                       ((acts, Matched), _) \<Rightarrow> map pub_nonce acts
                     | _ \<Rightarrow> [])
      else [])"
| "published a EvDrain s = map (\<lambda>(b, n, p). n) (filter (\<lambda>(b, n, p). b = a) (fst (drain_pending s)))"
| "published a _ s = []"

text \<open>The events that move no floor except by publishing.\<close>

fun forward :: "'t ps_event \<Rightarrow> bool" where
  "forward (EvReinsert _ _ _) = False"
| "forward (EvFree _ _ _ _) = False"
| "forward (EvAdvance _ _) = False"
| "forward (EvRelease _ _) = False"
| "forward (EvForget _) = False"
| "forward (EvSeed _ _) = False"
| "forward _ = True"

lemma drained_items_of:
  assumes "distinct (keys P)"
  shows "map (\<lambda>(b, n, p). n) (filter (\<lambda>(b, n, p). b = a) (drained_items nx P)) =
    (case map_of P a of
       None \<Rightarrow> []
     | Some buf \<Rightarrow> map fst (fst (drain_consecutive_from buf (floor_of nx a))))"
  using assms
proof (induction P)
  case (Cons e P)
  obtain b buf where e: "e = (b, buf)" by fastforce
  have f: "filter (\<lambda>(c, n, p). c = a) (map (\<lambda>(n, p). (b, n, p)) l) =
      (if b = a then map (\<lambda>(n, p). (b, n, p)) l else [])" for l :: "(u64 \<times> 'a) list"
    by (induction l) auto
  have g: "map (\<lambda>(b, n, p). n) (map (\<lambda>(n, p). (a, n, p)) l) = map fst l"
    for l :: "(u64 \<times> 'a) list"
    by (induction l) auto
  show ?case
  proof (cases "b = a")
    case True
    then have "map_of P a = None" using Cons.prems e by (simp add: map_of_eq_None_iff)
    then show ?thesis using Cons e True f g by simp
  next
    case False
    then show ?thesis using Cons e f by simp
  qed
qed simp

lemma process_at_other:
  assumes "process_at now b n p s = (r, s')" and "a \<noteq> b"
  shows "next_nonce a s' = next_nonce a s"
proof -
  consider "n < next_nonce b s" | "next_nonce b s < n" | "n = next_nonce b s" by fastforce
  then show ?thesis
  proof cases
    case 1
    then show ?thesis using assms by (auto simp: process_at_past split: if_splits)
  next
    case 2
    obtain q s2 where "park now b n p s = (q, s2)" by fastforce
    with assms 2 park_effect(1) [OF this] show ?thesis
      by (auto simp: process_at_future next_nonce_def)
  next
    case 3
    then show ?thesis
      using assms
      by (auto simp: process_at_def drain_consecutive_into_def Let_def next_nonce_def
          split: option.splits prod.splits)
  qed
qed

lemma published_process:
  assumes "ps_inv s" and "n \<noteq> - 1"
  shows "unat (next_nonce a s) \<le> unat (next_nonce a (snd (process_at now a n p s)))
    \<and> map unat (published a (EvProcess now a n p) s) =
        [unat (next_nonce a s) ..< unat (next_nonce a (snd (process_at now a n p s)))]"
proof -
  obtain acts outcome s' where run: "process_at now a n p s = ((acts, outcome), s')"
    by (metis prod.collapse)
  consider "n < next_nonce a s" | "next_nonce a s < n" | "n = next_nonce a s" by fastforce
  then show ?thesis
  proof cases
    case 1
    then show ?thesis by (auto simp: process_at_past)
  next
    case 2
    obtain q s2 where pk: "park now a n p s = (q, s2)" by fastforce
    have "q \<noteq> Matched"
      using pk by (auto simp: park_def Let_def split: prod.splits InsertOutcome.splits)
    with 2 pk park_effect(1) [OF pk] show ?thesis
      by (auto simp: process_at_future next_nonce_def split: NonceOutcome.splits)
  next
    case 3
    have "- 1 \<notin> buffered s a" using ps_inv_no_max [OF assms(1)] by (simp add: no_max_def)
    note eff = process_at_matched [OF 3 assms(2) this run]
    show ?thesis
      using eff(1,7,11) 3 run by (simp add: comp_def word_less_nat_alt)
  qed
qed

lemma published_drain:
  assumes "ps_inv s"
  shows "unat (next_nonce a s) \<le> unat (next_nonce a (snd (drain_pending s)))
    \<and> map unat (published a EvDrain s) =
        [unat (next_nonce a s) ..< unat (next_nonce a (snd (drain_pending s)))]"
proof -
  obtain out s' where d: "drain_pending s = (out, s')" by fastforce
  note rep = ps_inv_rep [OF assms] and nm = ps_inv_no_max [OF assms]
  note eff = drain_pending_effect [OF rep nm d]
  have "distinct (keys (ps_pending s))" using rep by (simp add: ps_rep_def hm_inv_def)
  note items = drained_items_of [OF this, of a "ps_next s"]
  have le: "next_nonce a s \<le> next_nonce a s'" using eff(6) [of a] by (simp add: dense_to_def)
  show ?thesis
  proof (cases "map_of (ps_pending s) a")
    case None
    have "slot_at s a = Map.empty" using None by (simp add: slot_at_def)
    then have "next_nonce a s' = next_nonce a s"
      using eff(6) [of a] le by (force simp: dense_to_def)
    then show ?thesis using items None by (simp add: d eff(9))
  next
    case (Some buf)
    obtain l buf' where run: "drain_consecutive_from buf (next_nonce a s) = (l, buf')" by fastforce
    note dr = drain_effect [OF no_max_buf [OF nm Some] run]
    have "slot_at s a = pb_slot buf" using Some by (simp add: slot_at_def)
    then have "dense_to (pb_slot buf) (next_nonce a s) (next_nonce a s')" using eff(6) [of a] by simp
    then have "next_nonce a s' = past_drained (next_nonce a s) l"
      using dr(1) unfolding dense_to_def by (metis linorder_neqE)
    then show ?thesis
      using items Some run dr(2) le
      by (simp add: d eff(9) next_nonce_floor_of comp_def word_le_nat_alt)
  qed
qed

definition forward_admissible :: "'t ps_event \<Rightarrow> 't PartitionState \<Rightarrow> bool" where
  "forward_admissible e s \<longleftrightarrow> ps_admissible e s \<and> forward e"

lemma published_step:
  assumes "ps_inv s" and "forward_admissible e s"
  shows "unat (next_nonce a s) \<le> unat (next_nonce a (ps_step e s))
    \<and> map unat (published a e s) = [unat (next_nonce a s) ..< unat (next_nonce a (ps_step e s))]"
proof (cases e)
  case (EvProcess now b n p)
  then have "n \<noteq> - 1" using assms(2) by (simp add: forward_admissible_def)
  then show ?thesis
    using published_process [OF assms(1), of n a now p] EvProcess
      process_at_other [of now b n p s "fst (process_at now b n p s)" _ a]
    by (cases "b = a") auto
next
  case EvDrain
  then show ?thesis using published_drain [OF assms(1), of a] by simp
next
  case (EvSweep now limit)
  then have "drained s" using assms(2) by (simp add: forward_admissible_def)
  then show ?thesis
    using sweep_spec [OF assms(1), of now limit] EvSweep by (simp add: sweep_result_def)
next
  case (EvTakeParked b n named)
  obtain r s' where t: "take_parked b n named s = (r, s')" by fastforce
  then show ?thesis using take_parked_effect(1) [OF t] EvTakeParked by (simp add: next_nonce_def)
next
  case (EvMarkRefused b n)
  then show ?thesis by (simp add: mark_refused_def Let_def next_nonce_def)
next
  case (EvClearRefused b n)
  then show ?thesis by (simp add: clear_refused_def)
qed (use assms(2) in \<open>simp_all add: forward_admissible_def\<close>)

interpretation publishing: invariant_machine ps_step forward_admissible ps_inv
  by unfold_locales (simp add: forward_admissible_def ps_step_inv)

lemma map_outputs: "map f (outputs step out es s) = outputs step (\<lambda>e s. map f (out e s)) es s"
  by (induction es arbitrary: s) auto



section \<open>The nonce check, branch by branch\<close>

text \<open>
  A submit at the expected nonce publishes the dense run that starts there and ends at the
  first nonce the buffer does not hold. The published payload is the buffered one where the
  buffer has one, and the submitted one at the submitted nonce otherwise. The floor moves to
  the end of the run, the run leaves the buffer, and every other sender is untouched.
\<close>
theorem process_at_expected:
  assumes "ps_inv s" and "n = next_nonce a s" and "n \<noteq> - 1"
    and "process_at now a n p s = ((acts, outcome), s')"
  shows "outcome = Matched
    \<and> list_all is_Publish acts
    \<and> map (\<lambda>e. unat (pub_nonce e)) acts = [unat n ..< unat (next_nonce a s')]
    \<and> n < next_nonce a s' \<and> slot_at s a (next_nonce a s') = None
    \<and> (\<forall>m v. Publish m v \<in> set acts \<longrightarrow>
         v = (case slot_at s a m of None \<Rightarrow> p | Some sl \<Rightarrow> slot_value sl))
    \<and> slot_at s' = (slot_at s)(a :=
         (\<lambda>m. if n \<le> m \<and> m < next_nonce a s' then None else slot_at s a m))
    \<and> (\<forall>b. b \<noteq> a \<longrightarrow> next_nonce b s' = next_nonce b s)"
proof -
  have "- 1 \<notin> buffered s a" using ps_inv_no_max [OF assms(1)] by (simp add: no_max_def)
  note eff = process_at_matched [OF assms(2,3) this assms(4)]
  show ?thesis using eff(1,7-12) process_at_other [OF assms(4)] by blast
qed

theorem process_at_expected_witness:
  "\<exists>s'. process_at 9 1 0 ''a'' (fold ps_step [EvProcess 0 1 1 ''b'', EvProcess 0 1 3 ''d'']
       (ps_new 4 5)) = (([Publish 0 ''a'', Publish 1 ''b''], Matched), s')
     \<and> [0, 1] = [0 ..< unat (next_nonce 1 s')]"
proof -
  let ?s = "fold ps_step [EvProcess 0 1 1 ''b'', EvProcess 0 1 3 ''d''] (ps_new 4 5)"
  have "fst (process_at 9 1 0 ''a'' ?s) = ([Publish 0 ''a'', Publish 1 ''b''], Matched)"
    by code_simp
  then obtain s' where run:
    "process_at 9 1 0 ''a'' ?s = (([Publish 0 ''a'', Publish 1 ''b''], Matched), s')"
    by (metis prod.collapse)
  have inv: "ps_inv ?s" by (rule partition.run_inv [OF ps_inv_new]) code_simp
  have floor: "0 = next_nonce 1 ?s" by code_simp
  show ?thesis
    using process_at_expected [OF inv floor _ run] run by (intro exI [of _ s']) simp
qed

text \<open>
  A submit below the expected nonce changes nothing. It is offered again when the sealer
  refused that nonce for good, and reported as a duplicate with the expected nonce otherwise.
  A submit above the expected nonce publishes nothing and moves no floor.
\<close>
theorem process_at_not_expected:
  "(n < next_nonce a s \<longrightarrow>
      process_at now a n p s =
        (if is_refused a n s then (([Publish n p], Reoffered), s)
         else (([ReportDuplicate n (next_nonce a s)], Past), s)))
   \<and> (next_nonce a s < n \<longrightarrow>
      fst (fst (process_at now a n p s)) = []
      \<and> ps_next (snd (process_at now a n p s)) = ps_next s)"
  using park_effect(1) [of now a n p s]
  by (auto simp: process_at_past process_at_future split: prod.splits)

theorem process_at_not_expected_witness:
  "fst (process_at 0 1 4 ''x'' (ps_new 4 5)) = ([], Buffered)
   \<and> fst (fst (process_at 0 1 4 ''x'' (ps_new 4 5))) = []"
proof
  show "fst (process_at 0 1 4 ''x'' (ps_new 4 5)) = ([], Buffered)" by code_simp
  have "next_nonce 1 (ps_new 4 5 :: string PartitionState) < 4" by code_simp
  then show "fst (fst (process_at 0 1 4 ''x'' (ps_new 4 5))) = []"
    using process_at_not_expected [of 4 1 "ps_new 4 5" 0 "''x''"] by blast
qed

text \<open>
  C22. An executed-truth floor above the current one becomes the floor and drops exactly the
  buffered refs below it, which it returns in nonce order with their payloads; every ref at or
  above it stays. A floor at or below the current one changes nothing.
\<close>
theorem advance_floor_drops_executed:
  assumes "ps_inv s"
  shows "if next_nonce a s < floor
    then (\<exists>dropped. fst (advance_floor a floor s) = Some (next_nonce a s, dropped)
           \<and> sorted_wrt (<) (keys dropped)
           \<and> (\<forall>n p. (n, p) \<in> set dropped \<longleftrightarrow>
                n < floor \<and> map_option slot_value (slot_at s a n) = Some p))
         \<and> next_nonce a (snd (advance_floor a floor s)) = floor
         \<and> slot_at (snd (advance_floor a floor s)) =
             (slot_at s)(a := (\<lambda>n. if floor \<le> n then slot_at s a n else None))
    else advance_floor a floor s = (None, s)"
proof (cases "next_nonce a s < floor")
  case True
  obtain r s' where adv: "advance_floor a floor s = (r, s')" by fastforce
  note eff = advance_floor_effect [OF True adv]
  show ?thesis using True adv eff(1-3) ps_inv_rep [OF assms] by auto
qed (simp add: advance_floor_def not_less)

theorem advance_floor_drops_executed_witness:
  "\<exists>dropped. fst (advance_floor 1 3 (fold ps_step
      [EvProcess 0 1 2 ''c'', EvProcess 0 1 5 ''f''] (ps_new 4 5))) = Some (0, dropped)
    \<and> sorted_wrt (<) (keys dropped)"
proof -
  have "ps_inv (fold ps_step [EvProcess 0 1 2 ''c'', EvProcess 0 1 5 ''f''] (ps_new 4 5))"
    by (rule partition.run_inv [OF ps_inv_new]) code_simp
  from advance_floor_drops_executed [OF this, of 1 3]
  have "next_nonce 1 (fold ps_step [EvProcess 0 1 2 ''c'', EvProcess 0 1 5 ''f''] (ps_new 4 5)) = 0
    \<Longrightarrow> ?thesis" by auto
  moreover have "next_nonce 1 (fold ps_step
      [EvProcess 0 1 2 ''c'', EvProcess 0 1 5 ''f''] (ps_new 4 5)) = 0" by code_simp
  ultimately show ?thesis by simp
qed

section \<open>Two boundaries of the invariant\<close>



end
