(* ===== verification/Unconfirmed.thy ===== *)
theory Unconfirmed
  imports Prelude
begin

text \<open>
  \<open>crates/sequencer/src/unconfirmed.rs\<close>: the ledger of refs that were published and are not
  yet confirmed by a receipt.

  The entries are a \<open>BTreeMap\<close> keyed by sender and nonce, the expiry queue a list in publish
  order. A confirmation removes from the map only, so queue entries can be stale. The instant
  that \<open>record_published\<close> reads from the clock is an argument.
\<close>

section \<open>Data and operations\<close>

type_synonym UnconfirmedKey = "address \<times> u64"

record 't UnconfirmedLedger =
  ul_entries :: "(UnconfirmedKey, 't \<times> instant) btree_map"
  ul_expiry :: "(instant \<times> UnconfirmedKey) list"

definition ledger_new :: "'t UnconfirmedLedger" where
  "ledger_new = \<lparr>ul_entries = [], ul_expiry = []\<rparr>"

definition ledger_len :: "'t UnconfirmedLedger \<Rightarrow> nat" where
  "ledger_len l = length (ul_entries l)"

definition keys_in :: "address \<Rightarrow> u64 \<Rightarrow> u64 \<Rightarrow> 't UnconfirmedLedger \<Rightarrow> UnconfirmedKey list" where
  "keys_in sender lo hi l =
     filter (\<lambda>k. (sender, lo) \<le> k \<and> k \<le> (sender, hi)) (keys (ul_entries l))"

definition ledger_contains :: "address \<Rightarrow> u64 \<Rightarrow> 't UnconfirmedLedger \<Rightarrow> bool" where
  "ledger_contains sender nonce l = contains_key (ul_entries l) (sender, nonce)"

definition count_from :: "address \<Rightarrow> u64 \<Rightarrow> 't UnconfirmedLedger \<Rightarrow> nat" where
  "count_from sender from l =
     length (filter (\<lambda>e. (sender, from) \<le> fst e \<and> fst e \<le> (sender, - 1)) (ul_entries l))"

definition record_published ::
  "instant \<Rightarrow> address \<Rightarrow> u64 \<Rightarrow> 't \<Rightarrow> 't UnconfirmedLedger \<Rightarrow> 't UnconfirmedLedger" where
  "record_published at sender nonce meta l =
     l\<lparr>ul_entries := bt_insert (sender, nonce) (meta, at) (ul_entries l),
       ul_expiry := ul_expiry l @ [(at, (sender, nonce))]\<rparr>"

definition ledger_remove ::
  "UnconfirmedKey \<Rightarrow> 't UnconfirmedLedger \<Rightarrow> 't option \<times> 't UnconfirmedLedger" where
  "ledger_remove k l =
     (map_option fst (map_of (ul_entries l) k), l\<lparr>ul_entries := map_remove k (ul_entries l)\<rparr>)"

definition confirm_through :: "address \<Rightarrow> u64 \<Rightarrow> 't UnconfirmedLedger \<Rightarrow> 't UnconfirmedLedger" where
  "confirm_through sender confirmed l =
     fold (\<lambda>k l. snd (ledger_remove k l)) (keys_in sender 0 confirmed l) l"

definition drop_committed ::
  "address \<Rightarrow> u64 \<Rightarrow> 't UnconfirmedLedger \<Rightarrow> 't option \<times> 't UnconfirmedLedger" where
  "drop_committed sender nonce l = ledger_remove (sender, nonce) l"

definition take_named ::
  "address \<Rightarrow> u64 \<Rightarrow> ('t \<Rightarrow> bool) \<Rightarrow> 't UnconfirmedLedger \<Rightarrow> 't option \<times> 't UnconfirmedLedger" where
  "take_named sender nonce named l =
     (let held = (case map_of (ul_entries l) (sender, nonce) of
                    None \<Rightarrow> False
                  | Some (meta, _) \<Rightarrow> named meta)
      in if held then drop_committed sender nonce l else (None, l))"

fun take_each ::
  "UnconfirmedKey list \<Rightarrow> 't UnconfirmedLedger \<Rightarrow> (UnconfirmedKey \<times> 't) list \<times> 't UnconfirmedLedger" where
  "take_each [] l = ([], l)"
| "take_each (k # ks) l =
     (case ledger_remove k l of (removed, l1) \<Rightarrow>
      case take_each ks l1 of (rest, l2) \<Rightarrow>
        (case removed of None \<Rightarrow> rest | Some meta \<Rightarrow> (k, meta) # rest, l2))"

definition take_descending ::
  "UnconfirmedKey list \<Rightarrow> 't UnconfirmedLedger \<Rightarrow> (UnconfirmedKey \<times> 't) list \<times> 't UnconfirmedLedger" where
  "take_descending ks l = take_each (rev ks) l"

definition take_gap_rewinds ::
  "address \<Rightarrow> u64 \<Rightarrow> 't UnconfirmedLedger \<Rightarrow> (UnconfirmedKey \<times> 't) list \<times> 't UnconfirmedLedger" where
  "take_gap_rewinds sender expected l = take_descending (keys_in sender expected (- 1) l) l"

datatype 'c ControlFlow = Break | Continue 'c

definition expire_step ::
  "instant \<Rightarrow> duration \<Rightarrow> 't UnconfirmedLedger
    \<Rightarrow> UnconfirmedKey option ControlFlow \<times> 't UnconfirmedLedger" where
  "expire_step now timeout l =
     (case ul_expiry l of
        [] \<Rightarrow> (Break, l)
      | (queued_at, key) # rest \<Rightarrow>
          if now - queued_at < timeout then (Break, l)
          else
            let current = (case map_of (ul_entries l) key of
                             None \<Rightarrow> False
                           | Some (_, at) \<Rightarrow> at = queued_at)
            in (Continue (if current then Some key else None), l\<lparr>ul_expiry := rest\<rparr>))"

lemma expire_step_shrinks:
  "expire_step now timeout l = (Continue c, l') \<Longrightarrow> length (ul_expiry l') < length (ul_expiry l)"
  by (auto simp: expire_step_def Let_def split: list.splits if_splits)

function collect_stale ::
  "instant \<Rightarrow> duration \<Rightarrow> nat \<Rightarrow> UnconfirmedKey list \<Rightarrow> 't UnconfirmedLedger
    \<Rightarrow> UnconfirmedKey list \<times> 't UnconfirmedLedger" where
  "collect_stale now timeout limit stale l =
     (if length stale < limit then
        (case expire_step now timeout l of
           (Break, l') \<Rightarrow> (stale, l')
         | (Continue (Some key), l') \<Rightarrow> collect_stale now timeout limit (stale @ [key]) l'
         | (Continue None, l') \<Rightarrow> collect_stale now timeout limit stale l')
      else (stale, l))"
  by pat_completeness auto
termination
  by (relation "measure (\<lambda>(_, _, _, _, l). length (ul_expiry l))")
    (auto intro: expire_step_shrinks dest: sym)

declare collect_stale.simps [simp del]

definition ledger_sweep_expired ::
  "duration \<Rightarrow> instant \<Rightarrow> nat \<Rightarrow> 't UnconfirmedLedger
    \<Rightarrow> (UnconfirmedKey \<times> 't) list \<times> 't UnconfirmedLedger" where
  "ledger_sweep_expired timeout now limit l =
     (let (stale, l') = collect_stale now timeout limit [] l in take_descending stale l')"

section \<open>Invariant\<close>

abbreviation entry_of :: "'t UnconfirmedLedger \<Rightarrow> UnconfirmedKey \<Rightarrow> ('t \<times> instant) option" where
  "entry_of l \<equiv> map_of (ul_entries l)"

text \<open>
  The map is ordered, the queue holds no entry twice and is ordered by publish time, and every
  entry of the map is on the queue with its publish time.
\<close>

definition ledger_inv :: "'t UnconfirmedLedger \<Rightarrow> bool" where
  "ledger_inv l \<longleftrightarrow> bt_inv (ul_entries l) \<and> distinct (ul_expiry l) \<and> sorted (map fst (ul_expiry l))
     \<and> (\<forall>k m at. entry_of l k = Some (m, at) \<longrightarrow> (at, k) \<in> set (ul_expiry l))"

lemma ledger_inv_new: "ledger_inv ledger_new"
  by (simp add: ledger_inv_def ledger_new_def)

lemma record_published_inv:
  assumes "ledger_inv l" and "\<forall>e\<in>set (ul_expiry l). fst e \<le> at" and "(at, a, n) \<notin> set (ul_expiry l)"
  shows "ledger_inv (record_published at a n meta l)"
  using assms by (auto simp: ledger_inv_def record_published_def sorted_append split: if_splits)

lemma ledger_remove_effect [simp]:
  "entry_of (snd (ledger_remove k l)) = (entry_of l)(k := None)"
  "ul_expiry (snd (ledger_remove k l)) = ul_expiry l"
  "fst (ledger_remove k l) = map_option fst (entry_of l k)"
  by (simp_all add: ledger_remove_def)

lemma ledger_remove_bt: "bt_inv (ul_entries l) \<Longrightarrow> bt_inv (ul_entries (snd (ledger_remove k l)))"
  by (simp add: ledger_remove_def)

lemma ledger_inv_queued:
  "ledger_inv l \<Longrightarrow> entry_of l k = Some (m, at) \<Longrightarrow> (at, k) \<in> set (ul_expiry l)"
  unfolding ledger_inv_def by blast

lemma ledger_remove_inv: "ledger_inv l \<Longrightarrow> ledger_inv (snd (ledger_remove k l))"
  by (auto simp: ledger_inv_def ledger_remove_def split: if_splits)

lemma fold_ledger_remove:
  "entry_of (fold (\<lambda>k l. snd (ledger_remove k l)) ks l) =
     (\<lambda>k. if k \<in> set ks then None else entry_of l k)"
  "ledger_inv l \<Longrightarrow> ledger_inv (fold (\<lambda>k l. snd (ledger_remove k l)) ks l)"
  "ul_expiry (fold (\<lambda>k l. snd (ledger_remove k l)) ks l) = ul_expiry l"
  "bt_inv (ul_entries l) \<Longrightarrow> bt_inv (ul_entries (fold (\<lambda>k l. snd (ledger_remove k l)) ks l))"
  by (induction ks arbitrary: l) (auto simp: fun_eq_iff ledger_remove_inv ledger_remove_bt)

lemma set_keys_in:
  "(b, n) \<in> set (keys_in a lo hi l) \<longleftrightarrow>
     b = a \<and> lo \<le> n \<and> n \<le> hi \<and> entry_of l (b, n) \<noteq> None"
  by (auto simp: keys_in_def set_keys_dom [simplified] dom_def)

lemma keys_in_sorted: "ledger_inv l \<Longrightarrow> sorted_wrt (<) (keys_in a lo hi l)"
  by (simp add: keys_in_def ledger_inv_def bt_inv_def sorted_wrt_filter)

lemma snd_take_each: "snd (take_each ks l) = fold (\<lambda>k l. snd (ledger_remove k l)) ks l"
  by (induction ks arbitrary: l) (simp_all add: case_prod_unfold)

lemma take_each_effect:
  "entry_of (snd (take_each ks l)) = (\<lambda>k. if k \<in> set ks then None else entry_of l k)"
  "ul_expiry (snd (take_each ks l)) = ul_expiry l"
  "ledger_inv l \<Longrightarrow> ledger_inv (snd (take_each ks l))"
  "bt_inv (ul_entries l) \<Longrightarrow> bt_inv (ul_entries (snd (take_each ks l)))"
  by (simp_all only: snd_take_each fold_ledger_remove)

lemma take_each_result:
  "distinct ks \<Longrightarrow> \<forall>k\<in>set ks. entry_of l k \<noteq> None \<Longrightarrow>
    fst (take_each ks l) = map (\<lambda>k. (k, fst (the (entry_of l k)))) ks"
proof (induction ks arbitrary: l)
  case (Cons k ks)
  obtain e where e: "entry_of l k = Some e" using Cons.prems(2) by auto
  let ?l = "snd (ledger_remove k l)"
  have "fst (take_each ks ?l) = map (\<lambda>k. (k, fst (the (entry_of ?l k)))) ks"
    using Cons.prems by (intro Cons.IH) auto
  also have "\<dots> = map (\<lambda>k. (k, fst (the (entry_of l k)))) ks"
    using Cons.prems(1) by (auto intro!: map_cong)
  finally show ?case using e by (simp add: case_prod_unfold)
qed simp

section \<open>The confirm-timeout sweep\<close>

abbreviation current :: "'t UnconfirmedLedger \<Rightarrow> instant \<times> UnconfirmedKey \<Rightarrow> bool" where
  "current l \<equiv> (\<lambda>(t, k). map_option snd (entry_of l k) = Some t)"

lemma expire_step_eq:
  "ul_expiry l = (t, k) # rest \<Longrightarrow> expire_step now timeout l =
    (if now - t < timeout then (Break, l)
     else (Continue (if current l (t, k) then Some k else None), l\<lparr>ul_expiry := rest\<rparr>))"
  by (auto simp: expire_step_def Let_def split: option.splits)

lemma expire_step_Nil: "ul_expiry l = [] \<Longrightarrow> expire_step now timeout l = (Break, l)"
  by (simp add: expire_step_def)

lemma collect_stale_spec:
  "collect_stale now timeout limit stale l = (ks, l') \<Longrightarrow>
    ul_entries l' = ul_entries l
    \<and> (\<exists>popped. ul_expiry l = popped @ ul_expiry l'
         \<and> ks = stale @ map snd (filter (current l) popped)
         \<and> (\<forall>e\<in>set popped. timeout \<le> now - fst e))
    \<and> (length ks < limit \<longrightarrow> ul_expiry l' = [] \<or> now - fst (hd (ul_expiry l')) < timeout)
    \<and> (length stale \<le> limit \<longrightarrow> length ks \<le> limit)"
proof (induction now timeout limit stale l arbitrary: ks l' rule: collect_stale.induct)
  case (1 now timeout limit stale l)
  consider (full) "\<not> length stale < limit"
    | (halt) "length stale < limit" "expire_step now timeout l = (Break, l)"
        "ul_expiry l = [] \<or> now - fst (hd (ul_expiry l)) < timeout"
    | (pop) t k rest where "length stale < limit" "ul_expiry l = (t, k) # rest" "timeout \<le> now - t"
        "expire_step now timeout l =
           (Continue (if current l (t, k) then Some k else None), l\<lparr>ul_expiry := rest\<rparr>)"
    using expire_step_Nil [of l now timeout] expire_step_eq [of l _ _ _ now timeout]
    by (cases "ul_expiry l"; cases "length stale < limit"; cases "now - fst (hd (ul_expiry l)) < timeout")
      (auto simp: not_less)
  then show ?case
  proof cases
    case full
    then show ?thesis using 1(3) by (auto simp: collect_stale.simps [of now timeout limit stale l])
  next
    case halt
    then show ?thesis using 1(3) by (auto simp: collect_stale.simps [of now timeout limit stale l])
  next
    case pop
    let ?l = "l\<lparr>ul_expiry := rest\<rparr>"
    let ?stale = "if current l (t, k) then stale @ [k] else stale"
    have rec: "collect_stale now timeout limit ?stale ?l = (ks, l')"
      using 1(3) pop(1,4) by (auto simp: collect_stale.simps [of now timeout limit stale l]
          split: if_splits)
    have IH: "ul_entries l' = ul_entries ?l
      \<and> (\<exists>popped. ul_expiry ?l = popped @ ul_expiry l'
         \<and> ks = ?stale @ map snd (filter (current ?l) popped)
         \<and> (\<forall>e\<in>set popped. timeout \<le> now - fst e))
      \<and> (length ks < limit \<longrightarrow> ul_expiry l' = [] \<or> now - fst (hd (ul_expiry l')) < timeout)
      \<and> (length ?stale \<le> limit \<longrightarrow> length ks \<le> limit)"
    proof (cases "current l (t, k)")
      case True
      then have st: "?stale = stale @ [k]" and "expire_step now timeout l = (Continue (Some k), ?l)"
        using pop(4) by simp_all
      from 1(2) [OF pop(1) this(2) [symmetric] refl refl rec [unfolded st]] show ?thesis
        unfolding st .
    next
      case False
      then have st: "?stale = stale" and "expire_step now timeout l = (Continue None, ?l)"
        using pop(4) by auto
      from 1(1) [OF pop(1) this(2) [symmetric] refl refl rec [unfolded st]] show ?thesis
        unfolding st .
    qed
    then obtain popped where p: "rest = popped @ ul_expiry l'"
      "ks = ?stale @ map snd (filter (current l) popped)" "\<forall>e\<in>set popped. timeout \<le> now - fst e"
      by auto
    have "ul_expiry l = ((t, k) # popped) @ ul_expiry l'"
      "ks = stale @ map snd (filter (current l) ((t, k) # popped))"
      "\<forall>e\<in>set ((t, k) # popped). timeout \<le> now - fst e"
      using p pop(2,3) by auto
    moreover have "length ?stale \<le> limit" using pop(1) by simp
    moreover have "ul_entries l' = ul_entries l" using IH by simp
    ultimately show ?thesis using IH by blast
  qed
qed

text \<open>
  \<open>ledger_sweep_result\<close>: what a sweep returns and leaves. The result carries due entries only, each once
  and at most \<open>limit\<close> of them; the map loses exactly those; and a result shorter than \<open>limit\<close>
  means that no due entry is left.
\<close>

definition ledger_sweep_result ::
  "duration \<Rightarrow> instant \<Rightarrow> nat \<Rightarrow> 't UnconfirmedLedger \<Rightarrow> (UnconfirmedKey \<times> 't) list
    \<Rightarrow> 't UnconfirmedLedger \<Rightarrow> bool" where
  "ledger_sweep_result timeout now limit l out l' \<longleftrightarrow>
     distinct (keys out) \<and> length out \<le> limit
     \<and> (\<forall>k m. (k, m) \<in> set out \<longrightarrow> (\<exists>at. entry_of l k = Some (m, at) \<and> timeout \<le> now - at))
     \<and> entry_of l' = (\<lambda>k. if k \<in> set (keys out) then None else entry_of l k)
     \<and> (length out < limit \<longrightarrow>
          (\<forall>k m at. entry_of l' k = Some (m, at) \<longrightarrow> now - at < timeout))"

lemma ledger_sweep:
  assumes "ledger_inv l"
  shows "ledger_sweep_result timeout now limit l
      (fst (ledger_sweep_expired timeout now limit l)) (snd (ledger_sweep_expired timeout now limit l))"
    and "ledger_inv (snd (ledger_sweep_expired timeout now limit l))"
proof -
  obtain ks l1 where col: "collect_stale now timeout limit [] l = (ks, l1)" by fastforce
  note spec = collect_stale_spec [OF col]
  obtain popped where ent: "ul_entries l1 = ul_entries l"
    and pop: "ul_expiry l = popped @ ul_expiry l1"
    and ks: "ks = map snd (filter (current l) popped)"
    and due: "\<forall>e\<in>set popped. timeout \<le> now - fst e"
    and stop: "length ks < limit \<Longrightarrow> ul_expiry l1 = [] \<or> now - fst (hd (ul_expiry l1)) < timeout"
    and len: "length ks \<le> limit"
    using spec by auto
  have dist: "distinct popped" "distinct (ul_expiry l1)" "sorted (map fst (ul_expiry l1))"
    using assms pop by (auto simp: ledger_inv_def sorted_append)
  have dks: "distinct ks"
    unfolding ks distinct_map using dist(1) by (auto simp: inj_on_def)
  have held: "\<exists>m at. entry_of l k = Some (m, at) \<and> timeout \<le> now - at" if "k \<in> set ks" for k
    using that due by (auto simp: ks)
  define out where "out = map (\<lambda>k. (k, fst (the (entry_of l k)))) (rev ks)"
  have "\<forall>k\<in>set (rev ks). entry_of l1 k \<noteq> None"
    unfolding ent using held by fastforce
  with dks have "fst (take_each (rev ks) l1) = out"
    using take_each_result [of "rev ks" l1] unfolding out_def ent by simp
  then have res: "ledger_sweep_expired timeout now limit l = (out, snd (take_each (rev ks) l1))"
    by (simp add: ledger_sweep_expired_def take_descending_def col prod_eq_iff)
  have keys: "set (keys out) = set ks" by (simp add: out_def comp_def)
  have rest: "(at, k) \<in> set (ul_expiry l1)" if "entry_of l k = Some (m, at)" "k \<notin> set ks" for k m at
  proof -
    have "(at, k) \<in> set (ul_expiry l)" by (rule ledger_inv_queued [OF assms that(1)])
    moreover have "(at, k) \<notin> set popped" using that by (force simp: ks)
    ultimately show ?thesis by (simp add: pop)
  qed
  have late: "now - at < timeout"
    if "length ks < limit" "entry_of l k = Some (m, at)" "k \<notin> set ks" for k m at
  proof -
    have "(at, k) \<in> set (ul_expiry l1)" using rest that by blast
    moreover from this have "fst (hd (ul_expiry l1)) \<le> at"
      using dist(3) by (cases "ul_expiry l1") auto
    ultimately show ?thesis using stop [OF that(1)] by auto
  qed
  show "ledger_sweep_result timeout now limit l
      (fst (ledger_sweep_expired timeout now limit l)) (snd (ledger_sweep_expired timeout now limit l))"
    unfolding ledger_sweep_result_def res fst_conv snd_conv
  proof (intro conjI)
    show "distinct (keys out)" using dks by (simp add: out_def comp_def)
    show "length out \<le> limit" using len by (simp add: out_def)
    show "\<forall>k m. (k, m) \<in> set out \<longrightarrow> (\<exists>at. entry_of l k = Some (m, at) \<and> timeout \<le> now - at)"
    proof (intro allI impI)
      fix k m
      assume "(k, m) \<in> set out"
      then have "k \<in> set ks" "m = fst (the (entry_of l k))" by (auto simp: out_def)
      with held [of k] show "\<exists>at. entry_of l k = Some (m, at) \<and> timeout \<le> now - at" by auto
    qed
    show left: "entry_of (snd (take_each (rev ks) l1)) =
        (\<lambda>k. if k \<in> set (keys out) then None else entry_of l k)"
      unfolding take_each_effect ent keys by simp
    show "length out < limit \<longrightarrow> (\<forall>k m at. entry_of (snd (take_each (rev ks) l1)) k = Some (m, at) \<longrightarrow>
        now - at < timeout)"
      unfolding left keys using late by (auto simp: out_def split: if_splits)
  qed
  have "bt_inv (ul_entries (snd (take_each (rev ks) l1)))"
    by (rule take_each_effect(4)) (use assms in \<open>simp add: ledger_inv_def ent\<close>)
  moreover have "(at, k) \<in> set (ul_expiry l1)"
    if "entry_of (snd (take_each (rev ks) l1)) k = Some (m, at)" for k m at
    using that rest unfolding take_each_effect(1) ent by (simp split: if_splits)
  ultimately show "ledger_inv (snd (ledger_sweep_expired timeout now limit l))"
    using dist(2,3) unfolding res snd_conv ledger_inv_def take_each_effect(2) by blast
qed

section \<open>Runs\<close>

datatype 't ledger_event =
    LRecord instant address u64 't
  | LConfirm address u64
  | LDrop address u64
  | LTakeNamed address u64 "'t \<Rightarrow> bool"
  | LGapRewinds address u64
  | LSweep duration instant nat

fun ledger_step :: "'t ledger_event \<Rightarrow> 't UnconfirmedLedger \<Rightarrow> 't UnconfirmedLedger" where
  "ledger_step (LRecord at a n meta) l = record_published at a n meta l"
| "ledger_step (LConfirm a n) l = confirm_through a n l"
| "ledger_step (LDrop a n) l = snd (drop_committed a n l)"
| "ledger_step (LTakeNamed a n named) l = snd (take_named a n named l)"
| "ledger_step (LGapRewinds a n) l = snd (take_gap_rewinds a n l)"
| "ledger_step (LSweep timeout now limit) l = snd (ledger_sweep_expired timeout now limit l)"

text \<open>The clock never goes back, and a ref is not recorded twice at one instant.\<close>

fun ledger_admissible :: "'t ledger_event \<Rightarrow> 't UnconfirmedLedger \<Rightarrow> bool" where
  "ledger_admissible (LRecord at a n meta) l \<longleftrightarrow>
     (\<forall>e\<in>set (ul_expiry l). fst e \<le> at) \<and> (at, a, n) \<notin> set (ul_expiry l)"
| "ledger_admissible _ l \<longleftrightarrow> True"

interpretation ledger: invariant_machine ledger_step ledger_admissible ledger_inv
proof
  fix l :: "'a UnconfirmedLedger" and e
  assume "ledger_inv l" and "ledger_admissible e l"
  then show "ledger_inv (ledger_step e l)"
    by (cases e)
      (simp_all add: record_published_inv confirm_through_def fold_ledger_remove(2)
        drop_committed_def take_named_def ledger_remove_inv take_gap_rewinds_def
        take_descending_def take_each_effect(3) ledger_sweep(2))
qed

text \<open>
  C18. After any sequence of ledger operations under a clock that never goes back, the
  confirm-timeout sweep returns only refs whose timeout has passed, each once and at most
  \<open>limit\<close> of them, removes exactly those, and, when it returns fewer than \<open>limit\<close>, leaves no
  ref behind whose timeout has passed, although the queue holds stale entries.
\<close>
theorem ledger_sweep_sound_complete:
  assumes "admissible_run ledger_step ledger_admissible es ledger_new"
    and "ledger_sweep_expired timeout now limit (fold ledger_step es ledger_new) = (out, l')"
  shows "ledger_sweep_result timeout now limit (fold ledger_step es ledger_new) out l'"
  using ledger_sweep(1) [OF ledger.run_inv [OF ledger_inv_new assms(1)], of timeout now limit]
    assms(2) by simp

theorem ledger_sweep_sound_complete_witness:
  "ledger_sweep_result 5 10 2
     (fold ledger_step [LRecord 1 7 0 ''a'', LRecord 2 7 1 ''b'', LConfirm 7 0, LRecord 8 7 2 ''c'']
        ledger_new)
     [((7, 1), ''b'')]
     (snd (ledger_sweep_expired 5 10 2
       (fold ledger_step [LRecord 1 7 0 ''a'', LRecord 2 7 1 ''b'', LConfirm 7 0, LRecord 8 7 2 ''c'']
          ledger_new)))"
  by (rule ledger_sweep_sound_complete) code_simp+

text \<open>
  A contiguity gap takes every retained ref of the sender at the expected nonce or later,
  in strictly descending nonce order, so that the last rewind carries the lowest nonce. It
  takes no other ref.
\<close>
theorem take_gap_rewinds_descending:
  assumes "ledger_inv l" and "take_gap_rewinds a expected l = (out, l')"
  shows "sorted_wrt (\<lambda>x y. snd y < snd x) (keys out)
    \<and> (\<forall>b n m. ((b, n), m) \<in> set out \<longleftrightarrow>
         b = a \<and> expected \<le> n \<and> map_option fst (entry_of l (a, n)) = Some m)
    \<and> entry_of l' = (\<lambda>k. if fst k = a \<and> expected \<le> snd k then None else entry_of l k)"
proof -
  let ?ks = "keys_in a expected (- 1) l"
  have mem: "k \<in> set ?ks \<longleftrightarrow> fst k = a \<and> expected \<le> snd k \<and> entry_of l k \<noteq> None" for k
    by (cases k) (simp add: set_keys_in)
  have srt: "sorted_wrt (<) ?ks" by (rule keys_in_sorted [OF assms(1)])
  then have "distinct ?ks" by (simp add: strict_sorted_iff)
  then have out: "out = map (\<lambda>k. (k, fst (the (entry_of l k)))) (rev ?ks)"
    and l': "l' = snd (take_each (rev ?ks) l)"
    using assms(2) take_each_result [of "rev ?ks" l] mem
    by (auto simp: take_gap_rewinds_def take_descending_def prod_eq_iff)
  have keys: "keys out = rev ?ks" by (simp add: out comp_def)
  have "sorted_wrt (\<lambda>x y. snd y < snd x) (rev ?ks)"
    using srt unfolding sorted_wrt_rev
    by (rule sorted_wrt_mono_rel [rotated]) (auto simp: mem less_prod_def)
  moreover have "((b, n), m) \<in> set out \<longleftrightarrow>
      b = a \<and> expected \<le> n \<and> map_option fst (entry_of l (a, n)) = Some m" for b n m
    by (auto simp: out mem image_iff)
  moreover have "entry_of l' = (\<lambda>k. if fst k = a \<and> expected \<le> snd k then None else entry_of l k)"
    unfolding l' take_each_effect(1) by (auto simp: mem fun_eq_iff simp del: not_None_eq)
  ultimately show ?thesis unfolding keys by blast
qed

theorem take_gap_rewinds_descending_witness:
  "sorted_wrt (\<lambda>x y. snd y < snd x) (keys (fst (take_gap_rewinds 7 1 (fold ledger_step
     [LRecord 1 7 0 ''a'', LRecord 2 7 2 ''b'', LRecord 3 7 3 ''c'', LRecord 4 8 9 ''d'']
     ledger_new))))"
proof -
  have "ledger_inv (fold ledger_step
     [LRecord 1 7 0 ''a'', LRecord 2 7 2 ''b'', LRecord 3 7 3 ''c'', LRecord 4 8 9 ''d''] ledger_new)"
    by (rule ledger.run_inv [OF ledger_inv_new]) code_simp
  from take_gap_rewinds_descending [OF this prod.collapse [symmetric]] show ?thesis by blast
qed

text \<open>
  A receipt at a nonce removes from the ledger exactly the refs of that sender at or below
  the nonce.
\<close>
theorem confirm_through_exact:
  "entry_of (confirm_through a confirmed l) (b, n) =
     (if b = a \<and> n \<le> confirmed then None else entry_of l (b, n))"
  by (simp add: confirm_through_def fold_ledger_remove(1) set_keys_in del: not_None_eq)

end
