(* ===== verification/Vslot_Set.thy ===== *)
theory Vslot_Set
  imports Prelude
begin

unbundle bit_operations_syntax

text \<open>
  The set of virtual slots of \<open>crates/types/src/shard_map.rs\<close>: 256 bits in four words, and its
  text form, a list of ranges.

  Text is a list of ASCII characters. \<open>trim\<close> strips the ASCII white space, and \<open>parse_u8\<close> is
  \<open>u8::from_str\<close>: an optional plus sign and decimal digits whose value fits in a byte.
\<close>

section \<open>The bit set\<close>

record VslotSet =
  vs_words :: "u64 list"

definition VslotSet_EMPTY :: VslotSet where
  "VslotSet_EMPTY = \<lparr>vs_words = replicate 4 0\<rparr>"

definition vs_full :: VslotSet where
  "vs_full = \<lparr>vs_words = replicate 4 (- 1)\<rparr>"

definition vs_slot :: "u8 \<Rightarrow> nat \<times> u64" where
  "vs_slot vslot = (unat (drop_bit 6 vslot), push_bit (unat (vslot AND 63)) 1)"

definition vs_insert :: "u8 \<Rightarrow> VslotSet \<Rightarrow> VslotSet" where
  "vs_insert vslot s =
     (let (word, bit) = vs_slot vslot
      in s\<lparr>vs_words := (vs_words s)[word := vs_words s ! word OR bit]\<rparr>)"

definition vs_remove :: "u8 \<Rightarrow> VslotSet \<Rightarrow> VslotSet" where
  "vs_remove vslot s =
     (let (word, bit) = vs_slot vslot
      in s\<lparr>vs_words := (vs_words s)[word := vs_words s ! word AND NOT bit]\<rparr>)"

definition vs_contains :: "VslotSet \<Rightarrow> u8 \<Rightarrow> bool" where
  "vs_contains s vslot = (let (word, bit) = vs_slot vslot in vs_words s ! word AND bit \<noteq> 0)"

definition count_ones :: "u64 \<Rightarrow> nat" where
  "count_ones w = length (filter (bit w) [0..<64])"

definition vs_len :: "VslotSet \<Rightarrow> nat" where
  "vs_len s = sum_list (map count_ones (vs_words s))"

definition vs_is_empty :: "VslotSet \<Rightarrow> bool" where
  "vs_is_empty s = list_all (\<lambda>w. w = 0) (vs_words s)"

definition vs_union :: "VslotSet \<Rightarrow> VslotSet \<Rightarrow> VslotSet" where
  "vs_union s other = \<lparr>vs_words = map (\<lambda>i. vs_words s ! i OR vs_words other ! i) [0..<4]\<rparr>"

definition vs_difference :: "VslotSet \<Rightarrow> VslotSet \<Rightarrow> VslotSet" where
  "vs_difference s other =
     \<lparr>vs_words = map (\<lambda>i. vs_words s ! i AND NOT (vs_words other ! i)) [0..<4]\<rparr>"

definition vs_is_subset_of :: "VslotSet \<Rightarrow> VslotSet \<Rightarrow> bool" where
  "vs_is_subset_of s other =
     list_all (\<lambda>(a, b). a AND NOT b = 0) (zip (vs_words s) (vs_words other))"

text \<open>\<open>0..=u8::MAX\<close>, and a range of bytes.\<close>

definition u8_range :: "u8 \<Rightarrow> u8 \<Rightarrow> u8 list" where
  "u8_range lo hi = map of_nat [unat lo ..< Suc (unat hi)]"

definition vs_iter :: "VslotSet \<Rightarrow> u8 list" where
  "vs_iter s = filter (vs_contains s) (u8_range 0 255)"

section \<open>The text form\<close>

datatype VslotSetParseError = BadRange string

record VslotRange =
  range_lo :: u8
  range_hi :: u8

definition is_whitespace :: "char \<Rightarrow> bool" where
  "is_whitespace c \<longleftrightarrow> of_char c \<in> {9, 10, 11, 12, 13, 32 :: nat}"

definition trim :: "string \<Rightarrow> string" where
  "trim s = rev (dropWhile is_whitespace (rev (dropWhile is_whitespace s)))"

definition digit_of :: "char \<Rightarrow> u8 option" where
  "digit_of c = (let n = of_char c :: nat in
     if 48 \<le> n \<and> n \<le> 57 then Some (of_nat (n - 48)) else None)"

fun parse_digits :: "u8 \<Rightarrow> string \<Rightarrow> u8 option" where
  "parse_digits acc [] = Some acc"
| "parse_digits acc (c # cs) =
     (case digit_of c of
        None \<Rightarrow> None
      | Some d \<Rightarrow>
          (case checked_mul acc 10 of
             None \<Rightarrow> None
           | Some t \<Rightarrow>
               (case checked_add t d of None \<Rightarrow> None | Some acc' \<Rightarrow> parse_digits acc' cs)))"

definition parse_u8 :: "string \<Rightarrow> u8 option" where
  "parse_u8 s =
     (case s of
        [] \<Rightarrow> None
      | c # cs \<Rightarrow> if c = CHR ''+'' then (if cs = [] then None else parse_digits 0 cs)
                  else parse_digits 0 s)"

definition digit_char :: "nat \<Rightarrow> char" where
  "digit_char n = char_of (48 + n)"

definition show_u8 :: "u8 \<Rightarrow> string" where
  "show_u8 v =
     (let n = unat v in
      if n < 10 then [digit_char n]
      else if n < 100 then [digit_char (n div 10), digit_char (n mod 10)]
      else [digit_char (n div 100), digit_char (n div 10 mod 10), digit_char (n mod 10)])"

definition split_once :: "char \<Rightarrow> string \<Rightarrow> (string \<times> string) option" where
  "split_once c s =
     (if c \<in> set s then Some (takeWhile (\<lambda>x. x \<noteq> c) s, tl (dropWhile (\<lambda>x. x \<noteq> c) s)) else None)"

fun split_on :: "char \<Rightarrow> string \<Rightarrow> string list" where
  "split_on c [] = [[]]"
| "split_on c (x # xs) =
     (if x = c then [] # split_on c xs
      else (case split_on c xs of [] \<Rightarrow> [[x]] | p # ps \<Rightarrow> (x # p) # ps))"

definition range_parse :: "string \<Rightarrow> VslotSetParseError + VslotRange" where
  "range_parse part =
     (let (a, b) = (case split_once (CHR ''-'') part of None \<Rightarrow> (part, part) | Some ab \<Rightarrow> ab) in
      (case (parse_u8 (trim a), parse_u8 (trim b)) of
         (Some lo, Some hi) \<Rightarrow>
           if lo \<le> hi then Inr \<lparr>range_lo = lo, range_hi = hi\<rparr> else Inl (BadRange part)
       | _ \<Rightarrow> Inl (BadRange part)))"

definition range_write :: "VslotRange \<Rightarrow> string" where
  "range_write r =
     (if range_lo r = range_hi r then show_u8 (range_lo r)
      else show_u8 (range_lo r) @ ''-'' @ show_u8 (range_hi r))"

definition range_push :: "u8 \<Rightarrow> VslotRange \<Rightarrow> VslotRange \<times> VslotRange option" where
  "range_push v r =
     (if checked_add (range_hi r) 1 = Some v
      then (\<lparr>range_lo = range_lo r, range_hi = v\<rparr>, None)
      else (\<lparr>range_lo = v, range_hi = v\<rparr>, Some r))"

fun try_fold_ranges ::
  "VslotSet \<Rightarrow> (VslotSetParseError + VslotRange) list \<Rightarrow> VslotSetParseError + VslotSet" where
  "try_fold_ranges s [] = Inr s"
| "try_fold_ranges s (Inl e # _) = Inl e"
| "try_fold_ranges s (Inr r # rs) =
     try_fold_ranges (fold vs_insert (u8_range (range_lo r) (range_hi r)) s) rs"

definition vs_parse :: "string \<Rightarrow> VslotSetParseError + VslotSet" where
  "vs_parse text =
     try_fold_ranges VslotSet_EMPTY
       (map range_parse (filter (\<lambda>part. part \<noteq> []) (map trim (split_on (CHR '','') text))))"

definition extend_runs ::
  "VslotRange list \<Rightarrow> VslotRange option \<Rightarrow> u8 \<Rightarrow> VslotRange list \<times> VslotRange option" where
  "extend_runs out open_run v =
     (case open_run of
        None \<Rightarrow> (out, Some \<lparr>range_lo = v, range_hi = v\<rparr>)
      | Some r \<Rightarrow>
          (case range_push v r of (r', finished) \<Rightarrow>
             (out @ (case finished of None \<Rightarrow> [] | Some d \<Rightarrow> [d]), Some r')))"

definition vs_ranges :: "VslotSet \<Rightarrow> VslotRange list" where
  "vs_ranges s =
     (case fold (\<lambda>v (out, open_run). extend_runs out open_run v) (vs_iter s) ([], None) of
        (out, open_run) \<Rightarrow> out @ (case open_run of None \<Rightarrow> [] | Some r \<Rightarrow> [r]))"

definition write_range :: "nat \<Rightarrow> VslotRange \<Rightarrow> string" where
  "write_range i r = (if 0 < i then '','' else []) @ range_write r"

definition vs_display :: "VslotSet \<Rightarrow> string" where
  "vs_display s = concat (map (\<lambda>(i, r). write_range i r) (enumerate 0 (vs_ranges s)))"

section \<open>The bit set represents a set\<close>

definition vs_inv :: "VslotSet \<Rightarrow> bool" where
  "vs_inv s \<longleftrightarrow> length (vs_words s) = 4"

definition vs_set :: "VslotSet \<Rightarrow> u8 set" where
  "vs_set s = {v. vs_contains s v}"

lemma vslot_word_index: "unat (drop_bit 6 (v::u8)) = unat v div 64"
  by (simp add: drop_bit_eq_div unat_div)

lemma vslot_bit_index: "unat ((v::u8) AND 63) = unat v mod 64"
proof -
  have "v AND 63 = take_bit 6 v" by (simp add: take_bit_eq_mask mask_eq_exp_minus_1)
  then show ?thesis by (simp add: take_bit_eq_mod unat_mod)
qed

lemma unat_u8_bound [simp]: "unat (v::u8) < 256"
  using unsigned_less [of v] by simp

lemma vslot_word_bound [simp]: "unat (v::u8) div 64 < 4"
  by (simp add: div_less_iff_less_mult)

lemma vs_slot_eq: "vs_slot v = (unat v div 64, push_bit (unat v mod 64) 1)"
  by (simp only: vs_slot_def vslot_word_index vslot_bit_index)

lemma vs_contains_bit: "vs_contains s v \<longleftrightarrow> bit (vs_words s ! (unat v div 64)) (unat v mod 64)"
  by (simp add: vs_contains_def vs_slot_eq bit_iff_and_push_bit_not_eq_0)

lemma bit_slot_u64: "bit (2 ^ m :: u64) n \<longleftrightarrow> m = n \<and> n < 64"
  by (auto simp: bit_exp_iff)

lemma vs_inv_ops [simp]:
  "vs_inv VslotSet_EMPTY" "vs_inv vs_full"
  "vs_inv s \<Longrightarrow> vs_inv (vs_insert v s)" "vs_inv s \<Longrightarrow> vs_inv (vs_remove v s)"
  "vs_inv (vs_union s t)" "vs_inv (vs_difference s t)"
  by (simp_all add: vs_inv_def VslotSet_EMPTY_def vs_full_def vs_insert_def vs_remove_def
      vs_slot_eq vs_union_def vs_difference_def)

lemma u8_split: "(v::u8) = w \<longleftrightarrow> unat v div 64 = unat w div 64 \<and> unat v mod 64 = unat w mod 64"
  by (metis word_unat_eq_iff mod_mult_div_eq)

lemma vs_set_insert: "vs_inv s \<Longrightarrow> vs_set (vs_insert v s) = insert v (vs_set s)"
  by (auto simp: vs_set_def vs_contains_bit vs_insert_def vs_slot_eq vs_inv_def nth_list_update
      bit_or_iff bit_slot_u64 u8_split split: if_splits)

lemma vs_set_remove: "vs_inv s \<Longrightarrow> vs_set (vs_remove v s) = vs_set s - {v}"
  by (auto simp: vs_set_def vs_contains_bit vs_remove_def vs_slot_eq vs_inv_def nth_list_update
      bit_and_iff bit_not_iff bit_slot_u64 u8_split split: if_splits)

lemma vs_set_EMPTY: "vs_set VslotSet_EMPTY = {}"
  by (simp add: vs_set_def vs_contains_bit VslotSet_EMPTY_def)

lemma vs_set_full: "vs_set vs_full = UNIV"
  by (simp add: vs_set_def vs_contains_bit vs_full_def)

lemma vs_set_union: "vs_set (vs_union s t) = vs_set s \<union> vs_set t"
  by (auto simp: vs_set_def vs_contains_bit vs_union_def bit_or_iff)

lemma vs_set_difference: "vs_set (vs_difference s t) = vs_set s - vs_set t"
  by (auto simp: vs_set_def vs_contains_bit vs_difference_def bit_and_iff bit_not_iff)

text \<open>The slot of a bit of a word, and extensionality of the representation.\<close>

definition vslot_at :: "nat \<Rightarrow> nat \<Rightarrow> u8" where
  "vslot_at i j = of_nat (64 * i + j)"

lemma vslot_at:
  assumes "i < 4" and "j < 64"
  shows "unat (vslot_at i j) div 64 = i" and "unat (vslot_at i j) mod 64 = j"
proof -
  have "unat (vslot_at i j) = 64 * i + j"
    using assms unfolding vslot_at_def by (intro unat_of_nat_small) simp
  with assms show "unat (vslot_at i j) div 64 = i" and "unat (vslot_at i j) mod 64 = j" by simp_all
qed

lemma vslot_at_split: "vslot_at (unat v div 64) (unat v mod 64) = v"
proof -
  have "64 * (unat v div 64) + unat v mod 64 = unat v" by simp
  then show ?thesis unfolding vslot_at_def by (simp only: word_unat_eq_iff unat_of_nat_small) simp
qed

lemma vs_contains_vslot_at:
  "i < 4 \<Longrightarrow> j < 64 \<Longrightarrow> vs_contains s (vslot_at i j) \<longleftrightarrow> bit (vs_words s ! i) j"
  by (simp add: vs_contains_bit vslot_at)

lemma vs_ext:
  assumes "vs_inv s" and "vs_inv t" and "vs_set s = vs_set t"
  shows "s = t"
proof -
  have "vs_words s ! i = vs_words t ! i" if "i < 4" for i
  proof (rule bit_word_eqI)
    fix j
    assume "j < LENGTH(64)"
    then show "bit (vs_words s ! i) j \<longleftrightarrow> bit (vs_words t ! i) j"
      using assms(3) that vs_contains_vslot_at [of i j] by (auto simp: vs_set_def)
  qed
  with assms(1,2) have "vs_words s = vs_words t" by (intro nth_equalityI) (auto simp: vs_inv_def)
  then show ?thesis by simp
qed

lemma vs_is_empty_iff: "vs_inv s \<Longrightarrow> vs_is_empty s \<longleftrightarrow> vs_set s = {}"
proof
  assume inv: "vs_inv s" and "vs_is_empty s"
  then have "vs_words s = replicate 4 0"
    by (intro nth_equalityI) (auto simp: vs_inv_def vs_is_empty_def list_all_length)
  then show "vs_set s = {}" by (simp add: vs_set_def vs_contains_bit)
next
  assume "vs_inv s" and "vs_set s = {}"
  then have "s = VslotSet_EMPTY" by (intro vs_ext) (simp_all add: vs_set_EMPTY)
  then show "vs_is_empty s" by (simp add: vs_is_empty_def VslotSet_EMPTY_def list_all_length)
qed

lemma vs_is_subset_of_iff:
  assumes "vs_inv s" and "vs_inv t"
  shows "vs_is_subset_of s t \<longleftrightarrow> vs_set s \<subseteq> vs_set t"
proof -
  have "vs_is_subset_of s t \<longleftrightarrow> vs_is_empty (vs_difference s t)"
    using assms by (auto simp: vs_is_subset_of_def vs_is_empty_def vs_difference_def vs_inv_def
        list_all_length set_zip)
  then show ?thesis by (auto simp: vs_is_empty_iff vs_set_difference)
qed

lemma count_ones_card: "count_ones w = card {j. j < 64 \<and> bit w j}"
proof -
  have "count_ones w = card (set (filter (bit w) [0..<64]))"
    unfolding count_ones_def by (rule distinct_card [symmetric]) simp
  then show ?thesis by (simp add: conj_commute)
qed

lemma vs_len_card:
  assumes "vs_inv s"
  shows "vs_len s = card (vs_set s)"
proof -
  let ?B = "\<lambda>i. {j. j < 64 \<and> bit (vs_words s ! i) j}"
  have "bij_betw (\<lambda>(i, j). vslot_at i j) (SIGMA i:{..<4}. ?B i) (vs_set s)"
  proof (rule bij_betw_byWitness [where f' = "\<lambda>v. (unat v div 64, unat v mod 64)"])
    show "\<forall>v\<in>vs_set s. (case (unat v div 64, unat v mod 64) of (i, j) \<Rightarrow> vslot_at i j) = v"
      by (simp add: vslot_at_split)
    show "(\<lambda>(i, j). vslot_at i j) ` (SIGMA i:{..<4}. ?B i) \<subseteq> vs_set s"
      by (auto simp: vs_set_def vs_contains_vslot_at)
    show "(\<lambda>v. (unat v div 64, unat v mod 64)) ` vs_set s \<subseteq> (SIGMA i:{..<4}. ?B i)"
      by (auto simp: vs_set_def vs_contains_bit)
  qed (auto simp: vslot_at)
  then have "card (vs_set s) = (\<Sum>i<4. card (?B i))"
    by (simp add: bij_betw_same_card [symmetric])
  also have "\<dots> = vs_len s"
    using assms
    by (simp add: vs_len_def sum_list_sum_nth count_ones_card vs_inv_def atLeast0LessThan)
  finally show ?thesis ..
qed

lemma set_u8_range: "set (u8_range lo hi) = {lo..hi}"
proof -
  have "set (u8_range lo hi) = of_nat ` {unat lo..unat hi}"
    by (simp add: u8_range_def atLeastLessThanSuc_atLeastAtMost del: upt_Suc)
  also have "\<dots> = {lo..hi}"
  proof
    show "of_nat ` {unat lo..unat hi} \<subseteq> {lo..hi}"
    proof
      fix v :: u8
      assume "v \<in> of_nat ` {unat lo..unat hi}"
      then obtain n where n: "v = of_nat n" "unat lo \<le> n" "n \<le> unat hi" by auto
      moreover have "n < 256" using n(3) by (meson unat_u8_bound le_less_trans)
      ultimately show "v \<in> {lo..hi}" by (simp add: word_le_nat_alt unat_of_nat_small)
    qed
    show "{lo..hi} \<subseteq> of_nat ` {unat lo..unat hi}"
      by (force simp: word_le_nat_alt intro: image_eqI [where x = "unat _"])
  qed
  finally show ?thesis .
qed

lemma u8_all: "set (u8_range 0 255) = UNIV"
proof -
  have "unat (v::u8) \<le> 255" for v using unat_u8_bound [of v] by linarith
  then have "v \<le> (255::u8)" for v by (simp add: word_le_nat_alt)
  then show ?thesis by (auto simp: set_u8_range)
qed

lemma u8_range_sorted: "sorted_wrt (<) (u8_range lo hi)"
  unfolding u8_range_def sorted_wrt_map
proof (rule sorted_wrt_mono_rel [OF _ sorted_wrt_upt])
  fix m n
  assume "m \<in> set [unat lo..<Suc (unat hi)]" "n \<in> set [unat lo..<Suc (unat hi)]" "m < n"
  moreover have "n < 256" using calculation unat_u8_bound [of hi] by (auto simp del: unat_u8_bound)
  ultimately show "(of_nat m :: u8) < of_nat n" using order.strict_trans [of m n 256] by (simp add: word_less_nat_alt unat_of_nat_small)
qed

lemma vs_iter_spec: "set (vs_iter s) = vs_set s" "sorted_wrt (<) (vs_iter s)"
  by (auto simp: vs_iter_def vs_set_def u8_all sorted_wrt_filter u8_range_sorted)

lemma fold_vs_insert:
  "vs_inv s \<Longrightarrow> vs_inv (fold vs_insert l s)"
  "vs_inv s \<Longrightarrow> vs_set (fold vs_insert l s) = set l \<union> vs_set s"
  by (induction l arbitrary: s) (auto simp: vs_set_insert)

text \<open>
  C23. The 256-bit word representation implements a set of virtual slots: every operation of
  \<open>VslotSet\<close> is the set operation of the same name, the length is the cardinality, the
  iterator yields the members in ascending order, and two values are equal exactly when they
  hold the same slots.
\<close>
theorem vslot_set_refines_set:
  assumes "vs_inv s" and "vs_inv t"
  shows "vs_set VslotSet_EMPTY = {} \<and> vs_set vs_full = UNIV
    \<and> vs_set (vs_insert v s) = insert v (vs_set s)
    \<and> vs_set (vs_remove v s) = vs_set s - {v}
    \<and> vs_set (vs_union s t) = vs_set s \<union> vs_set t
    \<and> vs_set (vs_difference s t) = vs_set s - vs_set t
    \<and> (vs_is_subset_of s t \<longleftrightarrow> vs_set s \<subseteq> vs_set t)
    \<and> (vs_is_empty s \<longleftrightarrow> vs_set s = {})
    \<and> vs_len s = card (vs_set s)
    \<and> sorted_wrt (<) (vs_iter s) \<and> set (vs_iter s) = vs_set s
    \<and> (s = t \<longleftrightarrow> vs_set s = vs_set t)"
  using assms vs_ext [of s t]
  by (auto simp: vs_set_EMPTY vs_set_full vs_set_insert vs_set_remove vs_set_union
      vs_set_difference vs_is_subset_of_iff vs_is_empty_iff vs_len_card vs_iter_spec)

theorem vslot_set_refines_set_witness:
  "vs_len (vs_insert 200 (vs_insert 7 VslotSet_EMPTY)) =
     card (vs_set (vs_insert 200 (vs_insert 7 VslotSet_EMPTY)))
   \<and> vs_len (vs_insert 200 (vs_insert 7 VslotSet_EMPTY)) = 2"
proof
  show "vs_len (vs_insert 200 (vs_insert 7 VslotSet_EMPTY)) =
      card (vs_set (vs_insert 200 (vs_insert 7 VslotSet_EMPTY)))"
    using vslot_set_refines_set [of "vs_insert 200 (vs_insert 7 VslotSet_EMPTY)" VslotSet_EMPTY]
    by simp
  show "vs_len (vs_insert 200 (vs_insert 7 VslotSet_EMPTY)) = 2" by code_simp
qed

section \<open>The text form round trip\<close>

abbreviation range_set :: "VslotRange \<Rightarrow> u8 set" where
  "range_set r \<equiv> {range_lo r..range_hi r}"

lemma u8_atMost_Suc:
  assumes "checked_add (h::u8) 1 = Some v"
  shows "h \<le> v" and "x \<le> v \<longleftrightarrow> x \<le> h \<or> x = v"
proof -
  have v: "unat v = Suc (unat h)"
    using assms by (auto simp: checked_add_1 unat_Suc_word split: if_splits)
  then show "h \<le> v" by (simp add: word_le_nat_alt)
  have "x = v \<longleftrightarrow> unat x = unat v" by (rule word_unat_eq_iff)
  with v show "x \<le> v \<longleftrightarrow> x \<le> h \<or> x = v" unfolding word_le_nat_alt by linarith
qed

lemma range_push_set:
  assumes "range_lo r \<le> range_hi r" and "range_push v r = (r', finished)"
  shows "range_lo r' \<le> range_hi r'"
    and "range_set r' \<union> (case finished of None \<Rightarrow> {} | Some d \<Rightarrow> range_set d) =
      insert v (range_set r)"
    and "finished = Some d \<Longrightarrow> d = r"
proof -
  have "range_lo r' \<le> range_hi r' \<and>
      range_set r' \<union> (case finished of None \<Rightarrow> {} | Some d \<Rightarrow> range_set d) = insert v (range_set r)"
  proof (cases "checked_add (range_hi r) 1 = Some v")
    case True
    note u = u8_atMost_Suc [OF True]
    have le: "range_lo r \<le> v" using assms(1) u(1) by (rule order.trans)
    have eq: "{range_lo r..v} = insert v (range_set r)"
      unfolding set_eq_iff atLeastAtMost_iff insert_iff u(2) using le by blast
    have "r' = \<lparr>range_lo = range_lo r, range_hi = v\<rparr>" "finished = None"
      using assms(2) True by (simp_all add: range_push_def)
    then show ?thesis using eq le by simp
  qed (use assms in \<open>auto simp: range_push_def\<close>)
  then show "range_lo r' \<le> range_hi r'"
    and "range_set r' \<union> (case finished of None \<Rightarrow> {} | Some d \<Rightarrow> range_set d) =
      insert v (range_set r)" by blast+
  show "finished = Some d \<Longrightarrow> d = r" using assms(2) by (auto simp: range_push_def split: if_splits)
qed

definition runs_set :: "VslotRange list \<times> VslotRange option \<Rightarrow> u8 set" where
  "runs_set st = (\<Union>r\<in>set (fst st). range_set r) \<union>
     (case snd st of None \<Rightarrow> {} | Some r \<Rightarrow> range_set r)"

definition runs_ok :: "VslotRange list \<times> VslotRange option \<Rightarrow> bool" where
  "runs_ok st \<longleftrightarrow> (\<forall>r\<in>set (fst st). range_lo r \<le> range_hi r)
     \<and> (case snd st of None \<Rightarrow> True | Some r \<Rightarrow> range_lo r \<le> range_hi r)"

lemma extend_runs_step:
  assumes "runs_ok (out, run)"
  shows "runs_ok (extend_runs out run v)" and "runs_set (extend_runs out run v) = insert v (runs_set (out, run))"
proof -
  show "runs_ok (extend_runs out run v)"
    using assms range_push_set(1,3) [of "the run" v]
    by (cases "range_push v (the run)")
      (auto simp: runs_ok_def extend_runs_def split: option.splits)
  show "runs_set (extend_runs out run v) = insert v (runs_set (out, run))"
    using assms range_push_set(2) [of "the run" v]
    by (cases "range_push v (the run)")
      (fastforce simp: runs_ok_def runs_set_def extend_runs_def split: option.splits)
qed

lemma fold_extend_runs:
  assumes "runs_ok st"
  shows "runs_ok (fold (\<lambda>v (out, run). extend_runs out run v) l st)
    \<and> runs_set (fold (\<lambda>v (out, run). extend_runs out run v) l st) = set l \<union> runs_set st"
  using assms
proof (induction l arbitrary: st)
  case (Cons v l)
  obtain out run where st: "st = (out, run)" by fastforce
  show ?case
    using Cons.IH [of "extend_runs out run v"] extend_runs_step [of out run v] Cons.prems
    by (simp add: st)
qed simp

lemma vs_ranges_spec:
  "(\<Union>r\<in>set (vs_ranges s). range_set r) = vs_set s"
  "r \<in> set (vs_ranges s) \<Longrightarrow> range_lo r \<le> range_hi r"
proof -
  obtain out run where f:
    "fold (\<lambda>v (out, run). extend_runs out run v) (vs_iter s) ([], None) = (out, run)" by fastforce
  have "runs_ok (out, run) \<and> runs_set (out, run) = vs_set s"
    using fold_extend_runs [of "([], None)" "vs_iter s"]
    by (simp add: f runs_ok_def runs_set_def vs_iter_spec)
  moreover have "vs_ranges s = out @ (case run of None \<Rightarrow> [] | Some r \<Rightarrow> [r])"
    by (simp add: vs_ranges_def f)
  ultimately show "(\<Union>r\<in>set (vs_ranges s). range_set r) = vs_set s"
    and "r \<in> set (vs_ranges s) \<Longrightarrow> range_lo r \<le> range_hi r"
    by (auto simp: runs_ok_def runs_set_def split: option.splits)
qed

definition is_digit :: "char \<Rightarrow> bool" where
  "is_digit c \<longleftrightarrow> c \<in> set ''0123456789''"

lemma digit_table:
  "list_all (\<lambda>d. is_digit (digit_char d) \<and> digit_of (digit_char d) = Some (of_nat d)
     \<and> digit_char d \<noteq> CHR ''+'') [0..<10]"
  by code_simp

lemma digit_char:
  assumes "d < 10"
  shows "is_digit (digit_char d)" and "digit_of (digit_char d) = Some (of_nat d)"
    and "digit_char d \<noteq> CHR ''+''"
proof -
  have "d \<in> set [0..<10]" using assms unfolding set_upt by simp
  then show "is_digit (digit_char d)" and "digit_of (digit_char d) = Some (of_nat d)"
    and "digit_char d \<noteq> CHR ''+''"
    using digit_table unfolding list_all_iff by blast+
qed

lemma parse_digits_step:
  assumes "d < 10" and "k * 10 + d < 256"
  shows "parse_digits (of_nat k) (digit_char d # cs) = parse_digits (of_nat (k * 10 + d)) cs"
proof -
  have u: "unat (of_nat m :: u8) = m" if "m < 256" for m using that by (simp add: unat_of_nat_small)
  have mul: "checked_mul (of_nat k :: u8) 10 = Some (of_nat (k * 10))"
    using assms(2) u [of k] by (simp add: checked_mul_def)
  have add: "checked_add (of_nat (k * 10)) (of_nat d :: u8) = Some (of_nat (k * 10 + d))"
    unfolding checked_add_def using assms u [of "k * 10"] u [of d] by simp
  show ?thesis using mul add by (simp add: digit_char(2) [OF assms(1)])
qed

lemma parse_digits_first:
  assumes "d < 10"
  shows "parse_u8 (digit_char d # cs) = parse_digits (of_nat d) cs"
  using parse_digits_step [of d 0 cs] assms by (simp add: parse_u8_def digit_char(3))

lemma show_u8:
  "parse_u8 (show_u8 v) = Some v" "show_u8 v \<noteq> []" "\<forall>c\<in>set (show_u8 v). is_digit c"
proof -
  define n where "n = unat v"
  have n: "n < 256" by (simp add: n_def)
  have v: "of_nat n = v" by (simp add: n_def)
  let ?h = "n div 100" and ?t = "n div 10 mod 10" and ?o = "n mod 10"
  have d10: "?h < 10" "?t < 10" "?o < 10" using n by (simp_all add: div_less_iff_less_mult)
  have "?h = n div 10 div 10" using div_mult2_eq [of n 10 10] by simp
  then have ht: "?h * 10 + ?t = n div 10" by simp
  then have hto: "(?h * 10 + ?t) * 10 + ?o = n" by simp
  have to: "n < 100 \<Longrightarrow> n div 10 < 10" "n div 10 * 10 + ?o = n" by simp_all
  have lt10: "n div 10 * 10 + ?o < 256" using to(2) n by simp
  have tail: "parse_digits (of_nat (n div 10)) [digit_char ?o] = Some v"
    unfolding parse_digits_step [OF d10(3) lt10] to(2) by (simp add: v)
  consider "n < 10" | "10 \<le> n" "n < 100" | "100 \<le> n" by linarith
  then have "parse_u8 (show_u8 v) = Some v \<and> show_u8 v \<noteq> [] \<and> (\<forall>c\<in>set (show_u8 v). is_digit c)"
  proof cases
    case 1
    then have "show_u8 v = [digit_char n]" by (simp add: show_u8_def n_def [symmetric])
    with 1 v show ?thesis by (simp add: parse_digits_first digit_char(1))
  next
    case 2
    then have "show_u8 v = [digit_char (n div 10), digit_char ?o]"
      by (simp add: show_u8_def n_def [symmetric])
    then show ?thesis
      using tail to(1) [OF 2(2)] d10(3) by (simp add: parse_digits_first digit_char(1))
  next
    case 3
    then have "show_u8 v = [digit_char ?h, digit_char ?t, digit_char ?o]"
      by (simp add: show_u8_def n_def [symmetric])
    moreover have lt: "?h * 10 + ?t < 256" using hto n by linarith
    have "parse_digits (of_nat ?h) [digit_char ?t, digit_char ?o] = Some v"
      unfolding parse_digits_step [OF d10(2) lt] ht by (rule tail)
    ultimately show ?thesis
      using d10 by (simp add: parse_digits_first digit_char(1))
  qed
  then show "parse_u8 (show_u8 v) = Some v" "show_u8 v \<noteq> []" "\<forall>c\<in>set (show_u8 v). is_digit c"
    by blast+
qed

lemma is_digit_table:
  "list_all (\<lambda>c. \<not> is_whitespace c \<and> c \<noteq> CHR '','' \<and> c \<noteq> CHR ''-'') ''0123456789''"
  by code_simp

lemma is_digit_facts:
  assumes "is_digit c"
  shows "\<not> is_whitespace c" and "c \<noteq> CHR '',''" and "c \<noteq> CHR ''-''"
  using assms is_digit_table unfolding is_digit_def list_all_iff by blast+

lemma dropWhile_none: "\<forall>c\<in>set s. \<not> P c \<Longrightarrow> dropWhile P s = s"
  by (cases s) auto

lemma trim_id: "\<forall>c\<in>set s. \<not> is_whitespace c \<Longrightarrow> trim s = s"
  by (simp add: trim_def dropWhile_none)

lemma trim_show_u8: "trim (show_u8 v) = show_u8 v"
  using show_u8(3) is_digit_facts(1) by (intro trim_id) blast

lemma range_write_chars:
  "range_write r \<noteq> []" "\<forall>c\<in>set (range_write r). \<not> is_whitespace c \<and> c \<noteq> CHR '',''"
  using show_u8(2) show_u8(3) is_digit_facts is_digit_table
  by (auto simp: range_write_def is_whitespace_def) blast+

lemma split_once_show:
  "split_once (CHR ''-'') (show_u8 v) = None"
  "split_once (CHR ''-'') (show_u8 v @ ''-'' @ show_u8 w) = Some (show_u8 v, show_u8 w)"
proof -
  have no: "\<forall>c\<in>set (show_u8 u). c \<noteq> CHR ''-''" for u using show_u8(3) is_digit_facts(3) by blast
  then have "takeWhile (\<lambda>x. x \<noteq> CHR ''-'') (show_u8 v @ ''-'' @ show_u8 w) = show_u8 v"
    "dropWhile (\<lambda>x. x \<noteq> CHR ''-'') (show_u8 v @ ''-'' @ show_u8 w) = ''-'' @ show_u8 w"
    by (simp_all add: takeWhile_append2 dropWhile_append2)
  then show "split_once (CHR ''-'') (show_u8 v @ ''-'' @ show_u8 w) = Some (show_u8 v, show_u8 w)"
    by (simp add: split_once_def)
  show "split_once (CHR ''-'') (show_u8 v) = None" using no by (auto simp: split_once_def)
qed

lemma range_parse_write:
  "range_lo r \<le> range_hi r \<Longrightarrow> range_parse (range_write r) = Inr r"
  by (cases "range_lo r = range_hi r")
    (simp_all add: range_parse_def range_write_def split_once_show [simplified] trim_show_u8
      show_u8(1))

lemma split_on_plain: "c \<notin> set p \<Longrightarrow> split_on c p = [p]"
  by (induction p) auto

lemma split_on_append: "c \<notin> set p \<Longrightarrow> split_on c (p @ c # q) = p # split_on c q"
  by (induction p) auto

abbreviation comma_ranges :: "VslotRange list \<Rightarrow> string" where
  "comma_ranges rs \<equiv> concat (map (\<lambda>r. CHR '','' # range_write r) rs)"

lemma enumerate_ranges:
  "0 < i \<Longrightarrow> concat (map (\<lambda>(i, r). write_range i r) (enumerate i rs)) = comma_ranges rs"
  by (induction rs arbitrary: i) (simp_all add: write_range_def)

lemma split_on_ranges:
  "split_on (CHR '','') (range_write r @ comma_ranges rs) = map range_write (r # rs)"
proof (induction rs arbitrary: r)
  case Nil
  show ?case using range_write_chars(2) [of r] by (simp add: split_on_plain) (blast intro: split_on_plain)
next
  case (Cons q rs)
  have "CHR '','' \<notin> set (range_write r)" using range_write_chars(2) [of r] by blast
  then show ?case using Cons.IH [of q] by (simp add: split_on_append)
qed

lemma vs_display_split:
  "map trim (split_on (CHR '','') (vs_display s)) =
     (if vs_ranges s = [] then [[]] else map range_write (vs_ranges s))"
proof (cases "vs_ranges s")
  case Nil
  then show ?thesis by (simp add: vs_display_def trim_def)
next
  case (Cons r rs)
  have "vs_display s = range_write r @ comma_ranges rs"
    using Cons enumerate_ranges [of 1 rs] by (simp add: vs_display_def write_range_def)
  moreover have "trim (range_write q) = range_write q" for q
    using range_write_chars(2) [of q] by (intro trim_id) blast
  ultimately show ?thesis
    using Cons by (simp only: split_on_ranges map_map comp_def) simp
qed

lemma try_fold_ranges_ok:
  assumes "vs_inv s"
  shows "\<exists>t. try_fold_ranges s (map Inr rs) = Inr t \<and> vs_inv t
    \<and> vs_set t = (\<Union>r\<in>set rs. range_set r) \<union> vs_set s"
  using assms
proof (induction rs arbitrary: s)
  case (Cons r rs)
  let ?s = "fold vs_insert (u8_range (range_lo r) (range_hi r)) s"
  from Cons.IH [of ?s] Cons.prems show ?case by (auto simp: fold_vs_insert set_u8_range)
qed simp

text \<open>
  C21. The text form is faithful: parsing the displayed text of any set of virtual slots gives
  back that set.
\<close>
theorem vslot_set_text_round_trip:
  assumes "vs_inv s"
  shows "vs_parse (vs_display s) = Inr s"
proof -
  have "filter (\<lambda>part. part \<noteq> []) (map trim (split_on (CHR '','') (vs_display s))) =
      map range_write (vs_ranges s)"
    using range_write_chars(1) by (auto simp: vs_display_split filter_id_conv)
  then have "vs_parse (vs_display s) = try_fold_ranges VslotSet_EMPTY (map Inr (vs_ranges s))"
    unfolding vs_parse_def
    by (simp only: map_map comp_def) (metis (mono_tags, lifting) map_cong range_parse_write vs_ranges_spec(2))
  moreover obtain t where t: "try_fold_ranges VslotSet_EMPTY (map Inr (vs_ranges s)) = Inr t"
    "vs_inv t" "vs_set t = vs_set s"
    using try_fold_ranges_ok [of VslotSet_EMPTY "vs_ranges s"]
    by (auto simp: vs_ranges_spec(1) vs_set_EMPTY)
  ultimately show ?thesis using vs_ext [OF t(2) assms t(3)] by simp
qed

theorem vslot_set_text_round_trip_witness:
  "vs_parse (vs_display (fold vs_insert [3, 4, 5, 9, 255] VslotSet_EMPTY)) =
     Inr (fold vs_insert [3, 4, 5, 9, 255] VslotSet_EMPTY)"
  by (rule vslot_set_text_round_trip) (simp add: fold_vs_insert)

text \<open>
  The parser accepts only bytes in ascending ranges: a descending range, a number above
  255, a lone sign and text between numbers are errors that name the bad part.
\<close>
theorem vs_parse_rejects:
  "vs_parse ''0-7, 9-8'' = Inl (BadRange ''9-8'') \<and> vs_parse ''256'' = Inl (BadRange ''256'')
   \<and> vs_parse ''1,-2'' = Inl (BadRange ''-2'') \<and> vs_parse ''1 2'' = Inl (BadRange ''1 2'')
   \<and> vs_parse ''+'' = Inl (BadRange ''+'') \<and> vs_parse '' , '' = Inr VslotSet_EMPTY"
  by code_simp

end
