(* ===== verification/Shard_Map.thy ===== *)
theory Shard_Map
  imports Vslot_Set
begin

text \<open>
  \<open>crates/types/src/shard_map.rs\<close> and \<open>shard_map/rebalance.rs\<close>: the fixed level from a sender
  to a virtual slot, the versioned table from virtual slot to lane, and its rebalancing.

  The hash is the parameter \<open>keccak256\<close>, a function from bytes to 256 bits. A table is a list
  of 256 lanes. \<open>max_by_key\<close> keeps the last of several equal maxima, as the iterator does.
\<close>

section \<open>Constants and the fixed level\<close>

abbreviation (input) VSLOT_COUNT :: nat where "VSLOT_COUNT \<equiv> 256"
abbreviation (input) LANE_CAP :: u32 where "LANE_CAP \<equiv> 256"
abbreviation (input) LANE_COUNT :: nat where "LANE_COUNT \<equiv> 8"

datatype ShardMapError =
    TableLength nat
  | VersionExhausted
  | LaneAbovePlane u8
  | LaneCount u32
  | NotADivisor u32
  | AboveLanePlane u32

definition validate_shard_count :: "u32 \<Rightarrow> ShardMapError + u8" where
  "validate_shard_count m =
     (if m = 0 then Inl (LaneCount m)
      else if \<not> (unat m < 256 \<and> (of_nat (unat m) :: u8) \<le> of_nat LANE_COUNT)
           then Inl (AboveLanePlane m)
      else if 256 mod m \<noteq> 0 then Inl (NotADivisor m)
      else Inr (of_nat (unat m)))"

definition address_bytes :: "address \<Rightarrow> u8 list" where
  "address_bytes a = map (\<lambda>i. ucast (drop_bit (8 * (19 - i)) a)) [0..<20]"

definition sender_hash_prefix :: "(u8 list \<Rightarrow> b256) \<Rightarrow> address \<Rightarrow> u64" where
  "sender_hash_prefix keccak256 sender = ucast (drop_bit 192 (keccak256 (address_bytes sender)))"

definition vslot_for :: "(u8 list \<Rightarrow> b256) \<Rightarrow> address \<Rightarrow> u8" where
  "vslot_for keccak256 sender = ucast (sender_hash_prefix keccak256 sender)"

definition partition_for :: "(u8 list \<Rightarrow> b256) \<Rightarrow> address \<Rightarrow> u32 \<Rightarrow> u32" where
  "partition_for keccak256 sender m =
     (if 256 mod m = 0 then ucast (vslot_for keccak256 sender) mod m
      else ucast (sender_hash_prefix keccak256 sender mod ucast m))"

section \<open>The table\<close>

record ShardMap =
  sm_version :: u32
  sm_table :: "u8 list"

definition from_table :: "u32 \<Rightarrow> u8 list \<Rightarrow> ShardMap" where
  "from_table version table = \<lparr>sm_version = version, sm_table = table\<rparr>"

definition identity_map :: "u32 \<Rightarrow> ShardMapError + ShardMap" where
  "identity_map lanes =
     (if lanes = 0 \<or> LANE_CAP < lanes then Inl (LaneCount lanes)
      else if 256 mod lanes \<noteq> 0 then Inl (NotADivisor lanes)
      else Inr (from_table 0 (map (\<lambda>vslot. of_nat (vslot mod unat lanes)) [0..<VSLOT_COUNT])))"

definition sm_validate :: "ShardMap \<Rightarrow> ShardMapError + unit" where
  "sm_validate m =
     (case List.find (\<lambda>l. of_nat LANE_COUNT \<le> l) (sm_table m) of
        Some l \<Rightarrow> Inl (LaneAbovePlane l)
      | None \<Rightarrow> Inr ())"

definition active_lanes :: "ShardMap \<Rightarrow> u8" where
  "active_lanes m =
     (case sm_table m of
        [] \<Rightarrow> 0
      | l # ls \<Rightarrow> saturating_add (fold max ls l) 1)"

definition lane_of_vslot :: "ShardMap \<Rightarrow> u8 \<Rightarrow> u8" where
  "lane_of_vslot m vslot = sm_table m ! unat vslot"

definition lane_for :: "(u8 list \<Rightarrow> b256) \<Rightarrow> ShardMap \<Rightarrow> address \<Rightarrow> u8" where
  "lane_for keccak256 m sender = lane_of_vslot m (vslot_for keccak256 sender)"

definition vslots_of_lane :: "ShardMap \<Rightarrow> u8 \<Rightarrow> u8 list" where
  "vslots_of_lane m lane =
     map fst (filter (\<lambda>(_, l). l = lane) (zip (u8_range 0 255) (sm_table m)))"

definition vslot_set :: "ShardMap \<Rightarrow> u8 \<Rightarrow> VslotSet" where
  "vslot_set m lane = fold vs_insert (vslots_of_lane m lane) VslotSet_EMPTY"

definition sm_deserialize :: "u32 \<Rightarrow> u8 list \<Rightarrow> ShardMapError + ShardMap" where
  "sm_deserialize version table =
     (if length table \<noteq> VSLOT_COUNT then Inl (TableLength (length table))
      else (case sm_validate (from_table version table) of
              Inl e \<Rightarrow> Inl e
            | Inr _ \<Rightarrow> Inr (from_table version table)))"

section \<open>Rebalancing\<close>

record Balance =
  bal_table :: "u8 list"
  bal_load :: "nat list"
  bal_want :: "nat list"

definition balance_new :: "u8 list \<Rightarrow> nat \<Rightarrow> Balance" where
  "balance_new table count =
     \<lparr>bal_table = table,
      bal_load = fold (\<lambda>lane load. load[unat lane := load ! unat lane + 1]) table
                   (replicate LANE_COUNT 0),
      bal_want = map (\<lambda>lane. if lane < count
                             then VSLOT_COUNT div count + (if lane < VSLOT_COUNT mod count then 1 else 0)
                             else 0) [0..<LANE_COUNT]\<rparr>"

definition max_by_key :: "('a \<Rightarrow> nat) \<Rightarrow> 'a \<Rightarrow> 'a list \<Rightarrow> 'a" where
  "max_by_key key x xs = fold (\<lambda>y best. if key best \<le> key y then y else best) xs x"

definition move_dest :: "Balance \<Rightarrow> nat" where
  "move_dest b = max_by_key (\<lambda>lane. bal_want b ! lane - bal_load b ! lane)
     (LANE_COUNT - 1) (rev [0..<LANE_COUNT - 1])"

definition move_slot :: "nat \<Rightarrow> Balance \<Rightarrow> Balance" where
  "move_slot slot b =
     (let lane = unat (bal_table b ! slot) in
      if bal_load b ! lane \<le> bal_want b ! lane then b
      else
        let dest = move_dest b;
            load1 = (bal_load b)[lane := bal_load b ! lane - 1]
        in b\<lparr>bal_table := (bal_table b)[slot := of_nat dest],
             bal_load := load1[dest := load1 ! dest + 1]\<rparr>)"

definition rebalance :: "ShardMap \<Rightarrow> u32 \<Rightarrow> ShardMapError + ShardMap" where
  "rebalance m target =
     (if \<not> (unat target < 256 \<and> target \<noteq> 0 \<and> unat target \<le> LANE_COUNT)
      then Inl (AboveLanePlane target)
      else (case sm_validate m of
              Inl e \<Rightarrow> Inl e
            | Inr _ \<Rightarrow>
                (case checked_add (sm_version m) 1 of
                   None \<Rightarrow> Inl VersionExhausted
                 | Some version \<Rightarrow>
                     let balance = balance_new (sm_table m) (unat target);
                         balance' = (if unat target \<noteq> unat (active_lanes m)
                                     then fold move_slot [0..<VSLOT_COUNT] balance else balance)
                     in Inr (from_table version (bal_table balance')))))"

section \<open>The two levels agree with the legacy rule\<close>

definition sm_inv :: "ShardMap \<Rightarrow> bool" where
  "sm_inv m \<longleftrightarrow> length (sm_table m) = VSLOT_COUNT"

lemma unat_vslot_for: "unat (vslot_for k a) = unat (sender_hash_prefix k a) mod 256"
  by (simp add: vslot_for_def unsigned_ucast_eq take_bit_eq_mod)

lemma unat_u32_bound: "unat (m::u32) < 4294967296"
  using unsigned_less [of m] by simp

lemma divides_256: "256 mod (m::u32) = 0 \<longleftrightarrow> 256 mod unat m = 0"
proof -
  have "unat (256 mod m) = 256 mod unat m" by (simp add: unat_mod)
  then show ?thesis by (metis unsigned_0 word_unat_eq_iff)
qed

lemma partition_for_mod:
  assumes "m \<noteq> 0"
  shows "unat (partition_for k a m) = unat (sender_hash_prefix k a) mod unat m"
proof (cases "256 mod m = 0")
  case True
  then have "unat m dvd 256" by (simp add: divides_256 mod_eq_0_iff_dvd)
  moreover have "unat (ucast (vslot_for k a) :: u32) = unat (sender_hash_prefix k a) mod 256"
    by (simp add: unat_vslot_for unsigned_ucast_eq take_bit_nat_eq_self)
  ultimately show ?thesis
    using True by (simp add: partition_for_def unat_mod mod_mod_cancel)
next
  case False
  have "0 < unat m" using assms by (simp add: unat_gt_0)
  then have lt: "unat (sender_hash_prefix k a) mod unat m < 4294967296"
    using unat_u32_bound [of m] mod_less_divisor order.strict_trans by blast
  have "unat (ucast m :: u64) = unat m"
    using unat_u32_bound [of m] by (simp add: unsigned_ucast_eq take_bit_nat_eq_self)
  with False lt show ?thesis
    by (simp add: partition_for_def unsigned_ucast_eq unat_mod take_bit_nat_eq_self)
qed

lemma identity_map_accepts:
  "(\<exists>m. identity_map lanes = Inr m) \<longleftrightarrow> lanes \<noteq> 0 \<and> lanes \<le> 256 \<and> unat lanes dvd 256"
  by (auto simp: identity_map_def divides_256 mod_eq_0_iff_dvd not_less [symmetric])

lemma identity_map_lane:
  assumes "identity_map lanes = Inr m"
  shows "unat (lane_for k m a) = unat (sender_hash_prefix k a) mod unat lanes" and "lanes \<noteq> 0"
proof -
  have l: "lanes \<noteq> 0" "unat lanes dvd 256"
    and tab: "sm_table m = map (\<lambda>v. of_nat (v mod unat lanes)) [0..<256]"
    using assms
    by (auto simp: identity_map_def from_table_def divides_256 mod_eq_0_iff_dvd split: if_splits)
  have "unat (vslot_for k a) mod unat lanes < 256"
    using unat_u8_bound [of "vslot_for k a"] mod_less_eq_dividend le_less_trans by blast
  then have "unat (lane_for k m a) = unat (vslot_for k a) mod unat lanes"
    by (simp add: lane_for_def lane_of_vslot_def tab nth_map unat_of_nat_small)
  also have "\<dots> = unat (sender_hash_prefix k a) mod unat lanes"
    using l(2) by (simp add: unat_vslot_for mod_mod_cancel)
  finally show "unat (lane_for k m a) = unat (sender_hash_prefix k a) mod unat lanes" .
  show "lanes \<noteq> 0" by (rule l(1))
qed

text \<open>
  The identity map is the legacy rule. For every lane count that it accepts, and they are
  exactly the divisors of 256, the lane of a sender under map v0 and under the legacy rule are
  both the hash prefix of the sender modulo the lane count.
\<close>
theorem identity_matches_legacy_rule:
  "((\<exists>m. identity_map lanes = Inr m) \<longleftrightarrow> lanes \<noteq> 0 \<and> lanes \<le> 256 \<and> unat lanes dvd 256)
   \<and> (\<forall>m. identity_map lanes = Inr m \<longrightarrow>
        unat (lane_for k m a) = unat (sender_hash_prefix k a) mod unat lanes
        \<and> unat (partition_for k a lanes) = unat (lane_for k m a))"
  using identity_map_accepts [of lanes] identity_map_lane(1) [of lanes _ k a]
    identity_map_lane(2) [of lanes]
    partition_for_mod [of lanes k a] by auto

theorem identity_matches_legacy_rule_witness:
  "\<exists>m. identity_map 4 = Inr m
    \<and> unat (partition_for (\<lambda>_. push_bit 192 7) 1 4) = unat (lane_for (\<lambda>_. push_bit 192 7) m 1)"
proof -
  have "(4::u32) \<noteq> 0 \<and> (4::u32) \<le> 256 \<and> unat (4::u32) dvd 256" by simp
  then show ?thesis
    using identity_matches_legacy_rule [of 4 "\<lambda>_. push_bit 192 7" 1] by metis
qed

section \<open>The lanes partition the slots\<close>

lemma set_vslots_of_lane:
  assumes "sm_inv m"
  shows "set (vslots_of_lane m lane) = {v. lane_of_vslot m v = lane}"
proof -
  have len: "length (u8_range 0 255) = 256" by (simp add: u8_range_def)
  have nth: "u8_range 0 255 ! i = of_nat i" if "i < 256" for i
    using that by (simp add: u8_range_def nth_map del: upt_Suc)
  have "v \<in> set (vslots_of_lane m lane) \<longleftrightarrow>
      (\<exists>i<256. v = of_nat i \<and> sm_table m ! i = lane)" for v
    using assms nth by (auto simp: vslots_of_lane_def set_zip len sm_inv_def image_iff)
      (metis nth)
  moreover have "(\<exists>i<256. v = of_nat i \<and> sm_table m ! i = lane) \<longleftrightarrow> lane_of_vslot m v = lane" for v :: u8
  proof
    assume "\<exists>i<256. v = of_nat i \<and> sm_table m ! i = lane"
    then show "lane_of_vslot m v = lane" by (auto simp: lane_of_vslot_def unat_of_nat_small)
  next
    assume "lane_of_vslot m v = lane"
    then show "\<exists>i<256. v = of_nat i \<and> sm_table m ! i = lane"
      by (intro exI [of _ "unat v"]) (simp add: lane_of_vslot_def)
  qed
  ultimately show ?thesis by auto
qed

text \<open>
  The slot set of a lane holds exactly the slots that the table maps to that lane, so every
  sender is in the set of its own lane and of no other lane.
\<close>
theorem vslot_sets_partition:
  assumes "sm_inv m"
  shows "vs_contains (vslot_set m lane) (vslot_for k a) \<longleftrightarrow> lane_for k m a = lane"
proof -
  have "vs_set (vslot_set m lane) = {v. lane_of_vslot m v = lane}"
    by (simp add: vslot_set_def fold_vs_insert set_vslots_of_lane [OF assms] vs_set_EMPTY)
  then show ?thesis by (auto simp: vs_set_def lane_for_def)
qed

theorem vslot_sets_partition_witness:
  "vs_contains (vslot_set (from_table 0 (replicate 256 3)) 3) (vslot_for (\<lambda>_. 0) 1) \<longleftrightarrow>
     lane_for (\<lambda>_. 0) (from_table 0 (replicate 256 3)) 1 = 3"
  by (rule vslot_sets_partition) (simp add: sm_inv_def from_table_def)

section \<open>Rebalancing reaches the wanted loads\<close>

abbreviation lane_count :: "u8 list \<Rightarrow> nat \<Rightarrow> nat" where
  "lane_count table lane \<equiv> count_list (map unat table) lane"

definition bal_inv :: "Balance \<Rightarrow> bool" where
  "bal_inv b \<longleftrightarrow> length (bal_table b) = 256 \<and> length (bal_load b) = 8 \<and> length (bal_want b) = 8
     \<and> (\<forall>l\<in>set (bal_table b). unat l < 8)
     \<and> (\<forall>lane<8. bal_load b ! lane = lane_count (bal_table b) lane)
     \<and> sum_list (bal_want b) = 256"

lemma lane_count_sum:
  "\<forall>l\<in>set table. unat l < 8 \<Longrightarrow> (\<Sum>lane<8. lane_count table lane) = length table"
proof (induction table)
  case (Cons x table)
  have "(\<Sum>lane<8. lane_count (x # table) lane) =
      (\<Sum>lane<8. lane_count table lane + (if lane = unat x then 1 else 0))"
    by (rule sum.cong) auto
  then show ?case using Cons by (simp add: sum.distrib)
qed simp

lemma lane_count_update:
  assumes "i < length table"
  shows "lane_count (table[i := v]) lane + (if unat (table ! i) = lane then 1 else 0) =
    lane_count table lane + (if unat v = lane then 1 else 0)"
  using assms
proof (induction table arbitrary: i)
  case (Cons x table)
  then show ?case by (cases i) auto
qed simp

lemma fold_load:
  "\<forall>l\<in>set table. unat l < length load \<Longrightarrow> lane < length load \<Longrightarrow>
    fold (\<lambda>lane load. load[unat lane := load ! unat lane + 1]) table load ! lane =
      load ! lane + lane_count table lane"
  "length (fold (\<lambda>(lane::u8) load. load[unat lane := load ! unat lane + 1]) table load) = length load"
  by (induction table arbitrary: load) (auto simp: nth_list_update)

lemma want_total:
  assumes "1 \<le> count" and "count \<le> 8"
  shows "sum_list (map (\<lambda>lane. if lane < count
      then 256 div count + (if lane < 256 mod count then 1 else 0) else 0) [0..<8]) = (256::nat)"
proof -
  have "count = 1 \<or> count = 2 \<or> count = 3 \<or> count = 4 \<or> count = 5 \<or> count = 6 \<or> count = 7 \<or> count = 8"
    using assms by presburger
  then show ?thesis by (elim disjE) (simp_all add: upt_rec)
qed

lemma balance_new_inv:
  assumes "length table = 256" and "\<forall>l\<in>set table. unat l < 8" and "1 \<le> count" and "count \<le> 8"
  shows "bal_inv (balance_new table count)"
  using assms fold_load [of table "replicate 8 0"] want_total [OF assms(3,4)]
  by (simp add: bal_inv_def balance_new_def)

lemma max_by_key_spec:
  "max_by_key key x xs \<in> set (x # xs) \<and> (\<forall>y\<in>set (x # xs). key y \<le> key (max_by_key key x xs))"
  by (induction xs arbitrary: x) (fastforce simp: max_by_key_def)+

lemma move_dest_spec:
  "move_dest b < 8"
  "lane < 8 \<Longrightarrow> bal_want b ! lane - bal_load b ! lane \<le>
    bal_want b ! move_dest b - bal_load b ! move_dest b"
proof -
  let ?key = "\<lambda>lane. bal_want b ! lane - bal_load b ! lane"
  have lanes: "set (7 # rev [0..<7]) = {..<8}" by auto
  have d: "move_dest b = max_by_key ?key 7 (rev [0..<7])" by (simp add: move_dest_def)
  have "move_dest b \<in> {..<8} \<and> (\<forall>y\<in>{..<8}. ?key y \<le> ?key (move_dest b))"
    unfolding d by (rule max_by_key_spec [of ?key 7 "rev [0..<7]", unfolded lanes])
  then have *: "move_dest b \<in> {..<8}" "\<forall>y\<in>{..<8}. ?key y \<le> ?key (move_dest b)" by blast+
  show "move_dest b < 8" using *(1) by simp
  show "lane < 8 \<Longrightarrow> ?key lane \<le> ?key (move_dest b)" using *(2) by simp
qed

lemma deficit_exists:
  assumes "bal_inv b" and "lane < 8" and "bal_want b ! lane < bal_load b ! lane"
  shows "bal_load b ! move_dest b < bal_want b ! move_dest b"
proof (rule ccontr)
  assume "\<not> ?thesis"
  then have le: "bal_want b ! l \<le> bal_load b ! l" if "l < 8" for l
    using move_dest_spec(2) [of l b] that by linarith
  have "sum_list (bal_want b) = (\<Sum>l<8. bal_want b ! l)" "(\<Sum>l<8. bal_load b ! l) = 256"
    using assms(1) lane_count_sum [of "bal_table b"]
    by (simp_all add: bal_inv_def sum_list_sum_nth atLeast0LessThan)
  moreover have "(\<Sum>l<8. bal_want b ! l) < (\<Sum>l<8. bal_load b ! l)"
    using le assms(2,3) by (intro sum_strict_mono_ex1) auto
  ultimately show False using assms(1) by (simp add: bal_inv_def)
qed

abbreviation overfull :: "Balance \<Rightarrow> nat \<Rightarrow> bool" where
  "overfull b lane \<equiv> bal_want b ! lane < bal_load b ! lane"

text \<open>A step that moves a slot takes it from an overfull lane to a lane with a deficit.\<close>

lemma move_slot_cases:
  assumes "bal_inv b" and "slot < 256"
  obtains (stay) "\<not> overfull b (unat (bal_table b ! slot))" and "move_slot slot b = b"
    | (move) dest where "overfull b (unat (bal_table b ! slot))" and "unat (bal_table b ! slot) < 8"
        and "dest < 8" and "dest \<noteq> unat (bal_table b ! slot)"
        and "bal_load b ! dest < bal_want b ! dest"
        and "bal_table (move_slot slot b) = (bal_table b)[slot := of_nat dest]"
        and "bal_want (move_slot slot b) = bal_want b"
        and "length (bal_load (move_slot slot b)) = 8"
        and "\<And>l. l < 8 \<Longrightarrow> bal_load (move_slot slot b) ! l =
              (if l = dest then bal_load b ! l + 1
               else if l = unat (bal_table b ! slot) then bal_load b ! l - 1 else bal_load b ! l)"
proof (cases "overfull b (unat (bal_table b ! slot))")
  case False
  then show ?thesis using stay by (simp add: move_slot_def Let_def not_less)
next
  case True
  let ?lane = "unat (bal_table b ! slot)"
  have lane: "?lane < 8" using assms by (simp add: bal_inv_def)
  have len: "length (bal_load b) = 8" using assms(1) by (simp add: bal_inv_def)
  note dest = move_dest_spec(1) [of b] deficit_exists [OF assms(1) lane True]
  have ne: "move_dest b \<noteq> ?lane" using dest(2) True by auto
  have mv: "move_slot slot b = b\<lparr>bal_table := (bal_table b)[slot := of_nat (move_dest b)],
      bal_load := (bal_load b)[?lane := bal_load b ! ?lane - 1,
        move_dest b := bal_load b ! move_dest b + 1]\<rparr>"
    using True ne by (simp add: move_slot_def Let_def)
  show ?thesis
    by (rule move [OF True lane dest(1) ne dest(2)])
      (use mv len ne dest(1) lane in \<open>simp_all add: nth_list_update\<close>)
qed

lemma move_slot_inv:
  assumes "bal_inv b" and "slot < 256"
  shows "bal_inv (move_slot slot b)"
  using assms
proof (cases rule: move_slot_cases)
  case (move dest)
  have u: "unat (of_nat dest :: u8) = dest" using move(3) by (simp add: unat_of_nat_small)
  have len: "slot < length (bal_table b)" using assms by (simp add: bal_inv_def)
  have pos: "bal_load b ! l \<noteq> 0" if "l = unat (bal_table b ! slot)" for l using move(1) that by simp
  have "bal_load (move_slot slot b) ! l = lane_count (bal_table (move_slot slot b)) l" if "l < 8" for l
    using lane_count_update [OF len, of "of_nat dest" l] move(4,6,9) that assms(1) u pos [of l]
    by (auto simp: bal_inv_def split: if_splits)
  moreover have "\<forall>l\<in>set (bal_table (move_slot slot b)). unat l < 8"
    using set_update_subset_insert [of "bal_table b" slot "of_nat dest"] move(3,6) u assms(1)
    by (auto simp: bal_inv_def)
  ultimately show ?thesis using move(6-8) assms(1) by (simp add: bal_inv_def)
qed (use assms in simp)

lemma not_overfull_stable:
  assumes "bal_inv b" and "slot < 256" and "l < 8" and "\<not> overfull b l"
  shows "\<not> overfull (move_slot slot b) l"
  using assms(1,2)
proof (cases rule: move_slot_cases)
  case (move dest)
  then show ?thesis using assms(3,4) by auto
qed (use assms(4) in simp)

definition settled :: "nat \<Rightarrow> Balance \<Rightarrow> bool" where
  "settled i b \<longleftrightarrow> bal_inv b \<and> (\<forall>j<i. \<not> overfull b (unat (bal_table b ! j)))"

lemma move_slot_settled:
  assumes "settled i b" and "i < 256"
  shows "settled (Suc i) (move_slot i b)"
proof -
  have inv: "bal_inv b" using assms(1) by (simp add: settled_def)
  have lane: "unat (bal_table b ! j) < 8" if "j < 256" for j using inv that by (simp add: bal_inv_def)
  have len: "length (bal_table b) = 256" using inv by (simp add: bal_inv_def)
  have "\<not> overfull (move_slot i b) (unat (bal_table (move_slot i b) ! j))" if "j < Suc i" for j
  proof (cases "j = i")
    case True
    show ?thesis
      using inv assms(2)
    proof (cases rule: move_slot_cases)
      case (move dest)
      then show ?thesis using True len assms(2) by (simp add: unat_of_nat_small)
    qed (use True in simp)
  next
    case False
    then have "\<not> overfull b (unat (bal_table b ! j))" using assms(1) that by (simp add: settled_def)
    then have "\<not> overfull (move_slot i b) (unat (bal_table b ! j))"
      using not_overfull_stable [OF inv assms(2) lane] that assms(2) by simp
    moreover have "bal_table (move_slot i b) ! j = bal_table b ! j"
      using inv assms(2) by (cases rule: move_slot_cases) (use False in simp_all)
    ultimately show ?thesis by simp
  qed
  then show ?thesis using move_slot_inv [OF inv assms(2)] by (simp add: settled_def)
qed

lemma fold_move_slot_settled:
  "bal_inv b \<Longrightarrow> n \<le> 256 \<Longrightarrow> settled n (fold move_slot [0..<n] b)"
proof (induction n)
  case 0
  then show ?case by (simp add: settled_def)
next
  case (Suc n)
  then show ?case by (simp add: move_slot_settled)
qed

lemma bal_inv_sums:
  assumes "bal_inv b"
  shows "(\<Sum>l<8. bal_load b ! l) = 256" and "(\<Sum>l<8. bal_want b ! l) = 256"
proof -
  show "(\<Sum>l<8. bal_load b ! l) = 256"
    using assms lane_count_sum [of "bal_table b"] by (simp add: bal_inv_def)
  have "sum_list (bal_want b) = (\<Sum>l<length (bal_want b). bal_want b ! l)"
    by (simp add: sum_list_sum_nth atLeast0LessThan)
  then show "(\<Sum>l<8. bal_want b ! l) = 256" using assms unfolding bal_inv_def by metis
qed

lemma settled_balanced:
  assumes "settled 256 b" and "lane < 8"
  shows "bal_load b ! lane = bal_want b ! lane"
proof -
  have inv: "bal_inv b" using assms(1) by (simp add: settled_def)
  have le: "bal_load b ! l \<le> bal_want b ! l" if "l < 8" for l
  proof (cases "bal_load b ! l = 0")
    case False
    then have "l \<in> set (map unat (bal_table b))"
      using inv that by (metis bal_inv_def count_notin)
    then obtain j where "j < 256" "unat (bal_table b ! j) = l"
      using inv by (auto simp: bal_inv_def in_set_conv_nth)
    then show ?thesis using assms(1) by (auto simp: settled_def not_less)
  qed simp
  show ?thesis
    using sum_mono_inv [of "\<lambda>l. bal_load b ! l" "{..<8}" "\<lambda>l. bal_want b ! l" lane] le assms(2)
      bal_inv_sums [OF inv] by simp
qed

section \<open>Rebalancing moves as few slots as the wanted loads allow\<close>

definition moved :: "u8 list \<Rightarrow> u8 list \<Rightarrow> nat" where
  "moved t t' = card {j. j < 256 \<and> t ! j \<noteq> t' ! j}"

definition surplus :: "Balance \<Rightarrow> nat" where
  "surplus b = (\<Sum>l<8. bal_load b ! l - bal_want b ! l)"

lemma lane_count_card:
  "length t = 256 \<Longrightarrow> lane_count t l = card {j. j < 256 \<and> unat (t ! j) = l}"
  unfolding count_list_eq_length_filter length_filter_conv_card
  by (rule arg_cong [where f = card]) auto

lemma moved_update: "moved t (t'[slot := v]) \<le> Suc (moved t t')"
proof -
  have "{j. j < 256 \<and> t ! j \<noteq> t'[slot := v] ! j} \<subseteq> insert slot {j. j < 256 \<and> t ! j \<noteq> t' ! j}"
    by (auto simp: nth_list_update split: if_splits)
  then have "moved t (t'[slot := v]) \<le> card (insert slot {j. j < 256 \<and> t ! j \<noteq> t' ! j})"
    unfolding moved_def by (intro card_mono) auto
  also have "\<dots> \<le> Suc (moved t t')" by (simp add: moved_def card_insert_if)
  finally show ?thesis .
qed

lemma move_slot_surplus:
  assumes "bal_inv b" and "slot < 256"
  shows "moved t (bal_table (move_slot slot b)) + surplus (move_slot slot b) \<le>
    moved t (bal_table b) + surplus b"
  using assms
proof (cases rule: move_slot_cases)
  case (move dest)
  let ?lane = "unat (bal_table b ! slot)" and ?b = "move_slot slot b"
  have "bal_load ?b ! l - bal_want ?b ! l + (if l = ?lane then 1 else 0) = bal_load b ! l - bal_want b ! l"
    if "l < 8" for l
    using move(1,4,5,7) move(9) [OF that] by auto
  then have "(\<Sum>l<8. bal_load ?b ! l - bal_want ?b ! l + (if l = ?lane then 1 else 0)) = surplus b"
    unfolding surplus_def by (intro sum.cong) auto
  then have "surplus b = Suc (surplus ?b)"
    using move(2) by (simp add: surplus_def sum.distrib)
  then show ?thesis using moved_update [of t "bal_table b" slot "of_nat dest"] move(6) by simp
qed simp

lemma fold_move_slot_surplus:
  assumes "bal_inv b" and "n \<le> 256"
  shows "moved t (bal_table (fold move_slot [0..<n] b)) + surplus (fold move_slot [0..<n] b) \<le>
    moved t (bal_table b) + surplus b"
  using assms(2)
proof (induction n)
  case (Suc n)
  have "bal_inv (fold move_slot [0..<n] b)"
    using fold_move_slot_settled [OF assms(1), of n] Suc.prems by (simp add: settled_def)
  then show ?case
    using Suc move_slot_surplus [of "fold move_slot [0..<n] b" n t] by simp
qed simp

lemma surplus_lower_bound:
  assumes "length t = 256" and "length t' = 256" and "\<forall>l\<in>set t. unat l < 8"
  shows "(\<Sum>l<8. lane_count t l - lane_count t' l) \<le> moved t t'"
proof -
  let ?D = "\<lambda>l. {j. j < 256 \<and> t ! j \<noteq> t' ! j \<and> unat (t ! j) = l}"
  have "lane_count t l \<le> lane_count t' l + card (?D l)" for l
  proof -
    have "{j. j < 256 \<and> unat (t ! j) = l} \<subseteq> {j. j < 256 \<and> unat (t' ! j) = l} \<union> ?D l" by auto
    then have "lane_count t l \<le> card ({j. j < 256 \<and> unat (t' ! j) = l} \<union> ?D l)"
      unfolding lane_count_card [OF assms(1)] by (intro card_mono) auto
    also have "\<dots> \<le> lane_count t' l + card (?D l)"
      unfolding lane_count_card [OF assms(2)] by (rule card_Un_le)
    finally show ?thesis .
  qed
  then have "lane_count t l - lane_count t' l \<le> card (?D l)" for l
    by (simp add: le_diff_conv add.commute)
  then have "(\<Sum>l<8. lane_count t l - lane_count t' l) \<le> (\<Sum>l<8. card (?D l))"
    by (intro sum_mono)
  also have "\<dots> = card (\<Union>l\<in>{..<8}. ?D l)"
    by (rule card_UN_disjoint [symmetric]) auto
  also have "(\<Union>l\<in>{..<8}. ?D l) = {j. j < 256 \<and> t ! j \<noteq> t' ! j}"
    using assms(1,3) by auto
  finally show ?thesis by (simp add: moved_def)
qed

lemma sm_validate_ok: "sm_validate m = Inr u \<longleftrightarrow> (\<forall>l\<in>set (sm_table m). unat l < 8)"
  by (auto simp: sm_validate_def find_None_iff find_Some_iff word_le_nat_alt not_le
      split: option.splits) (metis in_set_conv_nth not_le)

definition wanted_load :: "nat \<Rightarrow> nat \<Rightarrow> nat" where
  "wanted_load count lane =
     (if lane < count then 256 div count + (if lane < 256 mod count then 1 else 0) else 0)"

lemma rebalance_Inr:
  assumes "sm_inv m" and "rebalance m target = Inr m'"
  obtains b where "bal_inv b" and "bal_table b = sm_table m"
    and "\<And>lane. lane < 8 \<Longrightarrow> bal_want b ! lane = wanted_load (unat target) lane"
    and "unat (sm_version m') = unat (sm_version m) + 1"
    and "1 \<le> unat target" and "unat target \<le> 8"
    and "sm_table m' = bal_table (if unat target \<noteq> unat (active_lanes m)
           then fold move_slot [0..<256] b else b)"
proof -
  have t: "target \<noteq> 0" "unat target \<le> 8" "sm_validate m = Inr ()"
    using assms(2) by (auto simp: rebalance_def split: if_splits sum.splits)
  then have t1: "1 \<le> unat target" by (simp add: Suc_le_eq unat_gt_0)
  obtain v where v: "checked_add (sm_version m) 1 = Some v"
    using assms(2) t by (auto simp: rebalance_def split: if_splits option.splits)
  let ?b = "balance_new (sm_table m) (unat target)"
  have "m' = from_table v (bal_table (if unat target \<noteq> unat (active_lanes m)
      then fold move_slot [0..<256] ?b else ?b))"
    using assms(2) t v by (simp add: rebalance_def Let_def split: if_splits)
  moreover have "unat v = unat (sm_version m) + 1"
    using v by (auto simp: checked_add_1 unat_Suc_word split: if_splits)
  moreover have "bal_inv ?b"
    using assms(1) t(2,3) t1 by (intro balance_new_inv) (simp_all add: sm_inv_def sm_validate_ok)
  moreover have "bal_want ?b ! lane = wanted_load (unat target) lane" if "lane < 8" for lane
    using that by (simp add: balance_new_def wanted_load_def)
  ultimately show thesis
    using that [of ?b] t1 t(2) by (simp add: from_table_def balance_new_def)
qed

lemma bal_want_fold: "bal_want (fold move_slot l b) = bal_want b"
  by (induction l arbitrary: b) (simp_all add: move_slot_def Let_def)

lemma rebalance_settles:
  assumes "sm_inv m" and "rebalance m target = Inr m'" and "unat target \<noteq> unat (active_lanes m)"
  shows "sm_inv m'" and "lane < 8 \<Longrightarrow> lane_count (sm_table m') lane = wanted_load (unat target) lane"
    and "moved (sm_table m) (sm_table m')
      \<le> (\<Sum>l<8. lane_count (sm_table m) l - wanted_load (unat target) l)"
    and "\<forall>l\<in>set (sm_table m). unat l < 8"
proof -
  obtain b where b: "bal_inv b" "bal_table b = sm_table m"
    and want: "\<And>lane. lane < 8 \<Longrightarrow> bal_want b ! lane = wanted_load (unat target) lane"
    and tab: "sm_table m' = bal_table (fold move_slot [0..<256] b)"
    by (rule rebalance_Inr [OF assms(1,2)]) (use assms(3) in simp)
  let ?b = "fold move_slot [0..<256] b"
  have set: "settled 256 ?b" by (rule fold_move_slot_settled [OF b(1)]) simp
  then have inv: "bal_inv ?b" by (simp add: settled_def)
  then show "sm_inv m'" by (simp add: sm_inv_def tab bal_inv_def)
  show "lane_count (sm_table m') lane = wanted_load (unat target) lane" if "lane < 8"
    using settled_balanced [OF set that] want [OF that] inv that
    by (simp add: tab bal_inv_def bal_want_fold)
  have "surplus b = (\<Sum>l<8. lane_count (sm_table m) l - wanted_load (unat target) l)"
    unfolding surplus_def using b want by (intro sum.cong) (auto simp: bal_inv_def)
  then show "moved (sm_table m) (sm_table m')
      \<le> (\<Sum>l<8. lane_count (sm_table m) l - wanted_load (unat target) l)"
    using fold_move_slot_surplus [OF b(1), of 256 "sm_table m"] b(2) by (simp add: tab moved_def)
  show "\<forall>l\<in>set (sm_table m). unat l < 8" using b by (simp add: bal_inv_def)
qed

text \<open>
  C15. A rebalance to a target that differs from the active lane count gives every lane exactly
  its wanted load: 256 slots over the target lanes, the remainder on the lowest lanes, nothing
  elsewhere. The version goes up by one, and no table with these loads differs from the old
  table in fewer slots.
\<close>
theorem rebalance_reaches_target:
  assumes "sm_inv m" and "rebalance m target = Inr m'" and "unat target \<noteq> unat (active_lanes m)"
  shows "sm_inv m' \<and> unat (sm_version m') = unat (sm_version m) + 1
    \<and> (\<forall>lane<8. lane_count (sm_table m') lane = wanted_load (unat target) lane)
    \<and> (\<forall>t. length t = 256 \<longrightarrow>
         (\<forall>lane<8. lane_count t lane = wanted_load (unat target) lane) \<longrightarrow>
         moved (sm_table m) (sm_table m') \<le> moved (sm_table m) t)"
proof -
  note settles = rebalance_settles [OF assms]
  have "moved (sm_table m) (sm_table m') \<le> moved (sm_table m) t"
    if t: "length t = 256" "\<forall>lane<8. lane_count t lane = wanted_load (unat target) lane" for t
  proof -
    have "(\<Sum>l<8. lane_count (sm_table m) l - wanted_load (unat target) l)
        = (\<Sum>l<8. lane_count (sm_table m) l - lane_count t l)"
      using t(2) by (intro sum.cong) auto
    also have "\<dots> \<le> moved (sm_table m) t"
      using t(1) assms(1) settles(4) by (intro surplus_lower_bound) (auto simp: sm_inv_def)
    finally show ?thesis using settles(3) by linarith
  qed
  moreover have "unat (sm_version m') = unat (sm_version m) + 1"
    by (rule rebalance_Inr [OF assms(1,2)])
  ultimately show ?thesis using settles(1,2) by blast
qed

lemma fold_max_0: "fold max (replicate n 0) (0::u8) = 0"
  by (induction n) simp_all

theorem rebalance_reaches_target_witness:
  "\<exists>m'. rebalance (from_table 0 (replicate 256 0)) 3 = Inr m'
    \<and> (\<forall>lane<8. lane_count (sm_table m') lane = wanted_load 3 lane)"
proof -
  let ?m = "from_table 0 (replicate 256 0)"
  have val: "sm_validate ?m = Inr ()" by (simp add: sm_validate_ok from_table_def)
  have "sm_version ?m = 0" by (simp add: from_table_def)
  then have "checked_add (sm_version ?m) 1 = Some 1" by (simp add: checked_add_1)
  then obtain m' where m': "rebalance ?m 3 = Inr m'"
    using that by (simp add: rebalance_def val Let_def)
  have "replicate 256 (0::u8) = 0 # replicate 255 0"
    using replicate_Suc [of 255 "0::u8"] by simp
  then have "active_lanes ?m = 1"
    by (simp add: active_lanes_def from_table_def saturating_add_1 fold_max_0 del: fold_replicate)
  then show ?thesis
    using rebalance_reaches_target [of ?m 3 m'] m' by (simp add: sm_inv_def from_table_def)
qed

definition skewed_table :: "u8 list" where
  "skewed_table = replicate 85 0 @ replicate 86 1 @ replicate 84 2 @ [3]"

text \<open>
  The comment on the rebalance promises the fewest slot moves; the remainder always goes to
  the lowest lanes, so a table whose remainder already sits on another lane moves more slots
  than an equally balanced table needs. Here lane 3 gives up its only slot to lane 2 for loads
  85, 86, 85 with one move, and the rebalance to three lanes takes at least two.
\<close>
theorem rebalance_not_fewest_moves:
  "\<exists>m'. rebalance (from_table 0 skewed_table) 3 = Inr m'
    \<and> map (lane_count (skewed_table[255 := 2])) [0..<8] = [85, 86, 85, 0, 0, 0, 0, 0]
    \<and> moved skewed_table (skewed_table[255 := 2]) = 1
    \<and> 2 \<le> moved skewed_table (sm_table m')"
proof -
  let ?m = "from_table 0 skewed_table"
  have len: "length skewed_table = 256" by (simp add: skewed_table_def)
  have set: "\<forall>l\<in>set skewed_table. unat l < 8" by (auto simp: skewed_table_def)
  have inv: "sm_inv ?m" using len by (simp add: sm_inv_def from_table_def)
  have val: "sm_validate ?m = Inr ()" using set by (simp add: sm_validate_ok from_table_def)
  have "sm_version ?m = 0" by (simp add: from_table_def)
  then have "checked_add (sm_version ?m) 1 = Some 1" by (simp add: checked_add_1)
  then obtain m' where m': "rebalance ?m 3 = Inr m'"
    using that by (simp add: rebalance_def val Let_def)
  have act: "active_lanes ?m = 4" by code_simp
  have loads: "map (lane_count skewed_table) [0..<8] = [85, 86, 84, 1, 0, 0, 0, 0]" by code_simp
  note settles = rebalance_settles [OF inv m']
  have "(\<Sum>l<8. lane_count skewed_table l - lane_count (sm_table m') l)
      \<le> moved skewed_table (sm_table m')"
    using settles(1) act len set by (intro surplus_lower_bound) (auto simp: sm_inv_def)
  moreover have "(\<Sum>l<8. lane_count skewed_table l - lane_count (sm_table m') l)
      = (\<Sum>l<8. [85, 86, 84, 1, 0, 0, 0, 0] ! l - wanted_load 3 l)"
    unfolding loads [symmetric] using settles(2) act by (intro sum.cong) simp_all
  moreover have "(\<Sum>l<8. [85, 86, 84, 1, 0, 0, 0, 0] ! l - wanted_load 3 l) = 2" by code_simp
  moreover have "map (lane_count (skewed_table[255 := 2])) [0..<8] = [85, 86, 85, 0, 0, 0, 0, 0]"
    by code_simp
  moreover have "moved skewed_table (skewed_table[255 := 2]) = 1"
  proof -
    have "skewed_table ! 255 = 3" by (simp add: skewed_table_def nth_append)
    then have "{j. j < 256 \<and> skewed_table ! j \<noteq> skewed_table[255 := 2] ! j} = {255}"
      using len by (auto simp: nth_list_update)
    then show ?thesis by (simp add: moved_def)
  qed
  ultimately show ?thesis using m' by auto
qed

end
