(* ===== verification/Positions.thy ===== *)
theory Positions
  imports Prelude
begin

text \<open>
  \<open>crates/types/src/position.rs\<close>, \<open>envelope.rs\<close>, \<open>txref.rs\<close>: positions on the ordering
  stream, the reference and the envelope that carry them, and the two packings of a 64-bit
  number into fields (a logical index into a position, an ingress id and a sequence number
  into a correlation id). An \<open>i32\<close> is a 32-bit word read as signed by its derived order.
\<close>

unbundle bit_operations_syntax

section \<open>Positions\<close>

datatype BPosition = BPosition (term_id: i32) (term_offset: i32)

text \<open>The derived order: lexicographic in the declaration order, each field as a signed integer.\<close>

instantiation BPosition :: linorder
begin

definition less_eq_BPosition :: "BPosition \<Rightarrow> BPosition \<Rightarrow> bool" where
  "less_eq_BPosition p q \<longleftrightarrow>
     (sint (term_id p), sint (term_offset p)) \<le> (sint (term_id q), sint (term_offset q))"

definition less_BPosition :: "BPosition \<Rightarrow> BPosition \<Rightarrow> bool" where
  "less_BPosition p q \<longleftrightarrow>
     (sint (term_id p), sint (term_offset p)) < (sint (term_id q), sint (term_offset q))"

instance
  by standard
    (auto simp: less_eq_BPosition_def less_BPosition_def
      intro!: BPosition.expand intro: signed_word_eqI)

end

definition BPosition_ZERO :: BPosition where
  "BPosition_ZERO = BPosition 0 0"

definition from_index :: "u64 \<Rightarrow> BPosition" where
  "from_index idx = BPosition (ucast (drop_bit 32 idx)) (ucast (idx AND 0xFFFFFFFF))"

definition as_index :: "BPosition \<Rightarrow> u64" where
  "as_index p = push_bit 32 (ucast (term_id p)) OR ucast (term_offset p)"

datatype TxDataLoc = TxDataLoc (loc_session_id: i32) (loc_position: BPosition)

section \<open>References and envelopes\<close>

record TxRef =
  ref_tx_hash :: b256
  ref_shard_id :: u8
  ref_position :: BPosition
  ref_session_id :: i32

record TxEnvelope =
  env_correlation_id :: u64
  env_raw_tx :: "u8 list"
  env_sender :: address
  env_tx_hash :: b256
  env_max_inclusion_block :: u64

definition SEQ_MASK :: u64 where
  "SEQ_MASK = 0x0000FFFFFFFFFFFF"

definition pack_correlation_id :: "u16 \<Rightarrow> u64 \<Rightarrow> u64" where
  "pack_correlation_id ingress_id seq = push_bit 48 (ucast ingress_id) OR (seq AND SEQ_MASK)"

definition ingress_id_of :: "u64 \<Rightarrow> u16" where
  "ingress_id_of cid = ucast (drop_bit 48 cid)"

section \<open>Round trips\<close>

lemma mask_32: "(0xFFFFFFFF :: u64) = mask 32"
  by (simp add: mask_eq_exp_minus_1)

lemma mask_48: "SEQ_MASK = mask 48"
  by (simp add: SEQ_MASK_def mask_eq_exp_minus_1)

lemma as_index_from_index [simp]: "as_index (from_index idx) = idx"
  by (rule bit_eqI)
    (auto simp: as_index_def from_index_def mask_32 bit_simps not_le not_less dest: bit_imp_le_length)

lemma from_index_as_index [simp]: "from_index (as_index p) = p"
proof (cases p)
  case (BPosition t off)
  have "ucast (drop_bit 32 (as_index p)) = t"
    by (rule bit_eqI) (auto simp: BPosition as_index_def bit_simps dest: bit_imp_le_length)
  moreover have "ucast (as_index p AND 0xFFFFFFFF) = off"
    by (rule bit_eqI) (auto simp: BPosition as_index_def mask_32 bit_simps dest: bit_imp_le_length)
  ultimately show ?thesis by (simp add: BPosition from_index_def)
qed

lemma from_index_inject: "from_index i = from_index j \<longleftrightarrow> i = j"
  by (metis as_index_from_index)

text \<open>
  The logical index and the position are two spellings of one number: encoding and decoding
  are inverse in both directions, and index zero is the zero position.
\<close>
theorem index_round_trip:
  "as_index (from_index idx) = idx \<and> from_index (as_index p) = p \<and> from_index 0 = BPosition_ZERO"
  by (simp add: from_index_def [of 0] BPosition_ZERO_def)

section \<open>The order of encoded indices\<close>

lemma take_bit_below:
  fixes w :: u64
  assumes "w < 2 ^ n" and "n < 64"
  shows "take_bit n w = w"
proof -
  have "(2::nat) ^ n < 2 ^ 64" using assms(2) by (intro power_strict_increasing) simp_all
  then have "unat (2 ^ n :: u64) = 2 ^ n" using unat_of_nat_small [of "2 ^ n", where 'a = 64] by simp
  then have "unat w < 2 ^ n" using assms(1) by (simp add: word_less_nat_alt)
  then show ?thesis by (simp only: word_unat_eq_iff unsigned_take_bit_eq take_bit_nat_eq_self)
qed

lemma from_index_small:
  assumes "idx < 2 ^ 31"
  shows "sint (term_id (from_index idx)) = 0" and "sint (term_offset (from_index idx)) = uint idx"
proof -
  have u: "uint idx < 2 ^ 31" using assms by (simp add: word_less_def)
  have "\<not> bit idx (32 + n)" for n
    using arg_cong [OF take_bit_below [of idx 31], of "\<lambda>w. bit w (32 + n)"] assms by (simp add: bit_simps)
  then have "drop_bit 32 idx = 0" by (intro bit_eqI) (simp add: bit_drop_bit_eq)
  then show "sint (term_id (from_index idx)) = 0" by (simp add: from_index_def)
  have low: "ucast (idx AND 0xFFFFFFFF) = (ucast idx :: i32)"
    by (rule bit_eqI) (auto simp: mask_32 bit_simps)
  have "uint (ucast idx :: i32) = uint idx"
    using u by (simp add: unsigned_ucast_eq take_bit_int_eq_self)
  then show "sint (term_offset (from_index idx)) = uint idx"
    using signed_take_bit_int_eq_self [OF _ u] order.trans [of "- (2 ^ 31)" 0 "uint idx"]
    by (simp add: from_index_def low sint_uint)
qed

text \<open>
  Below two to the power 31 the order of positions is the order of the indices they encode,
  so a comparison of positions is a comparison of indices.
\<close>
theorem position_order_small:
  assumes "i < 2 ^ 31" and "j < 2 ^ 31"
  shows "from_index i < from_index j \<longleftrightarrow> i < j"
  using from_index_small [OF assms(1)] from_index_small [OF assms(2)]
  by (simp add: less_BPosition_def word_less_def)

theorem position_order_small_witness:
  "(3::u64) < 2 ^ 31 \<and> (5::u64) < 2 ^ 31 \<and> from_index 3 < from_index 5"
  using position_order_small [of 3 5] by simp

lemma from_index_wraps:
  assumes "i < 2 ^ 31" and "2 ^ 31 \<le> j" and "j < 2 ^ 32"
  shows "from_index j < from_index i"
proof -
  have j: "uint j < 2 ^ 32" "2 ^ 31 \<le> uint j" using assms by (simp_all add: word_less_def word_le_def)
  have "\<not> bit j (32 + n)" for n
    using arg_cong [OF take_bit_below [of j 32], of "\<lambda>w. bit w (32 + n)"] assms by (simp add: bit_simps)
  then have hi: "term_id (from_index j) = 0"
    by (intro bit_eqI) (simp add: from_index_def bit_simps)
  have "uint (term_offset (from_index j)) = uint j"
    using j by (simp add: from_index_def unsigned_ucast_eq take_bit_int_eq_self mask_32
        unsigned_take_bit_eq flip: take_bit_eq_mask)
  moreover have "uint j div 2 ^ 31 = 1" using j by simp
  then have "bit (uint j) 31" by (simp add: bit_iff_odd)
  ultimately have "sint (term_offset (from_index j)) < 0"
    by (simp add: sint_uint signed_take_bit_negative_iff)
  moreover have "sint (term_id (from_index i)) = 0" "0 \<le> sint (term_offset (from_index i))"
    using from_index_small [OF assms(1)] by simp_all
  ultimately show ?thesis using hi by (simp add: less_BPosition_def)
qed

section \<open>Correlation ids\<close>

text \<open>
  A correlation id names its ingress and its sequence number: the ingress id is read back
  exactly, the low 48 bits are the sequence number, and two ids of sequence numbers below 2 to
  the power 48 are equal only when both parts are.
\<close>
theorem correlation_id_unique:
  assumes "seq < 2 ^ 48" and "seq' < 2 ^ 48"
  shows "ingress_id_of (pack_correlation_id ing seq) = ing
    \<and> pack_correlation_id ing seq AND SEQ_MASK = seq
    \<and> (pack_correlation_id ing seq = pack_correlation_id ing' seq' \<longrightarrow> ing = ing' \<and> seq = seq')"
proof -
  have i: "ingress_id_of (pack_correlation_id ing seq) = ing" for ing seq
    by (rule bit_eqI)
      (auto simp: ingress_id_of_def pack_correlation_id_def mask_48 bit_simps dest: bit_imp_le_length)
  have s: "pack_correlation_id ing seq AND SEQ_MASK = seq" if "seq < 2 ^ 48" for ing and seq :: u64
  proof -
    have "take_bit 48 seq = seq" using that by (simp add: take_bit_below)
    moreover have "pack_correlation_id ing seq AND SEQ_MASK = take_bit 48 seq"
      by (rule bit_eqI) (auto simp: pack_correlation_id_def mask_48 bit_simps)
    ultimately show ?thesis by simp
  qed
  show ?thesis using i s assms by metis
qed

theorem correlation_id_unique_witness:
  "ingress_id_of (pack_correlation_id 7 9) = 7 \<and> pack_correlation_id 7 9 AND SEQ_MASK = 9"
  using correlation_id_unique [of 9 9 7 7] by simp

end
