(* ===== verification/Receipt.thy ===== *)
theory Receipt
  imports Positions
begin

text \<open>
  \<open>crates/types/src/receipt.rs\<close>: the receipt of one transaction, the classification of a skip,
  the batch frame and how per-transaction rows are merged into it, and the rollback record.
\<close>

section \<open>Data\<close>

record AccountRow =
  row_address :: address
  row_nonce :: u64
  row_balance :: u256

record WireLog =
  log_address :: address
  log_topics :: "b256 list"
  log_data :: "u8 list"

datatype SkipReason =
    Undecodable
  | NonceTooLow
  | NonceTooHigh
  | SkipInsufficientFunds
  | GasLimit
  | Fee
  | InitCodeSize
  | SenderHasCode
  | OtherTransaction
  | Header

record Receipt =
  rc_tx_idx :: BPosition
  rc_tx_type :: u8
  rc_tx_hash :: b256
  rc_status :: bool
  rc_gas_used :: u64
  rc_logs :: "WireLog list"
  rc_write_set_hash :: b256
  rc_nonce :: u64
  rc_from :: address
  rc_to :: "address option"
  rc_contract_address :: "address option"
  rc_effective_gas_price :: u128
  rc_priority_fee_per_gas :: u128
  rc_priority_fee_paid :: u128
  rc_block_number :: u64
  rc_transaction_index :: u64
  rc_cumulative_gas_used :: u64
  rc_skip_reason :: "SkipReason option"

record ReceiptRows =
  rr_receipt :: Receipt
  rr_accounts :: "AccountRow list"

record ReceiptBatch =
  rb_receipts :: "Receipt list"
  rb_accounts :: "AccountRow list"

record ReceiptRollback =
  rollback_to_block :: u64
  rollback_id :: b256

definition EMPTY_WRITE_SET_HASH :: b256 where
  "EMPTY_WRITE_SET_HASH = 0x2b97a4b75a93aa1ac8581fac0f7d4ab42406569409a737bdf9de584903b372c5"

definition TX_TYPE_LEGACY :: u8 where
  "TX_TYPE_LEGACY = 0x00"

definition TX_TYPE_DEPOSIT :: u8 where
  "TX_TYPE_DEPOSIT = 0x7E"

definition tx_type_of :: "u8 list \<Rightarrow> u8" where
  "tx_type_of raw =
     (case raw of b # _ \<Rightarrow> if b \<le> 0x7f then b else TX_TYPE_LEGACY | [] \<Rightarrow> TX_TYPE_LEGACY)"

definition Receipt_default :: Receipt where
  "Receipt_default = \<lparr>
     rc_tx_idx = BPosition 0 0,
     rc_tx_type = TX_TYPE_LEGACY,
     rc_tx_hash = 0,
     rc_status = False,
     rc_gas_used = 0,
     rc_logs = [],
     rc_write_set_hash = EMPTY_WRITE_SET_HASH,
     rc_nonce = 0,
     rc_from = 0,
     rc_to = None,
     rc_contract_address = None,
     rc_effective_gas_price = 0,
     rc_priority_fee_per_gas = 0,
     rc_priority_fee_paid = 0,
     rc_block_number = 0,
     rc_transaction_index = 0,
     rc_cumulative_gas_used = 0,
     rc_skip_reason = None\<rparr>"

section \<open>Classification\<close>

definition can_use_nonce :: "SkipReason \<Rightarrow> bool" where
  "can_use_nonce r \<longleftrightarrow> r \<notin> {Undecodable, NonceTooLow, NonceTooHigh, Header}"

definition is_invalid_skip :: "Receipt \<Rightarrow> bool" where
  "is_invalid_skip r \<longleftrightarrow> \<not> rc_status r \<and> rc_gas_used r = 0"

definition is_deposit :: "Receipt \<Rightarrow> bool" where
  "is_deposit r \<longleftrightarrow> rc_tx_type r = TX_TYPE_DEPOSIT"

definition burns_nonce :: "Receipt \<Rightarrow> bool" where
  "burns_nonce r \<longleftrightarrow>
     is_invalid_skip r \<and> \<not> is_deposit r
     \<and> (case rc_skip_reason r of None \<Rightarrow> False | Some s \<Rightarrow> can_use_nonce s)
     \<and> rc_write_set_hash r \<noteq> EMPTY_WRITE_SET_HASH"

definition uses_nonce :: "Receipt \<Rightarrow> bool" where
  "uses_nonce r \<longleftrightarrow> (\<not> is_invalid_skip r \<and> \<not> is_deposit r) \<or> burns_nonce r"

section \<open>Batches\<close>

definition bare :: "Receipt \<Rightarrow> ReceiptRows" where
  "bare r = \<lparr>rr_receipt = r, rr_accounts = []\<rparr>"

text \<open>Collecting pairs into a \<open>BTreeMap\<close>: a later pair replaces an earlier one with its key.\<close>

definition rb_merge :: "ReceiptRows list \<Rightarrow> ReceiptBatch" where
  "rb_merge items =
     (let merged = fold (\<lambda>row. bt_insert (row_address row) row) (concat (map rr_accounts items)) []
      in \<lparr>rb_receipts = map rr_receipt items, rb_accounts = map snd merged\<rparr>)"

definition end_tx_idx :: "ReceiptBatch \<Rightarrow> BPosition option" where
  "end_tx_idx b = (if rb_receipts b = [] then None else Some (rc_tx_idx (last (rb_receipts b))))"

section \<open>Properties\<close>

definition row_of :: "address \<Rightarrow> AccountRow list \<Rightarrow> AccountRow option" where
  "row_of a rows = find (\<lambda>row. row_address row = a) rows"

lemma fold_bt_insert_rows:
  assumes "bt_inv m" and "\<forall>e\<in>set m. fst e = row_address (snd e)"
  shows "bt_inv (fold (\<lambda>row. bt_insert (row_address row) row) rows m)
    \<and> (\<forall>e\<in>set (fold (\<lambda>row. bt_insert (row_address row) row) rows m). fst e = row_address (snd e))
    \<and> map_of (fold (\<lambda>row. bt_insert (row_address row) row) rows m)
      = (\<lambda>a. case row_of a (rev rows) of None \<Rightarrow> map_of m a | Some row \<Rightarrow> Some row)"
  using assms
proof (induction rows arbitrary: m)
  case Nil
  then show ?case by (simp add: row_of_def)
next
  case (Cons row rows)
  let ?m = "bt_insert (row_address row) row m"
  have "\<forall>e\<in>set ?m. fst e = row_address (snd e)"
    using Cons.prems(2) by (induction m) auto
  moreover have "bt_inv ?m" using Cons.prems(1) by simp
  moreover have "row_of a (rev rows @ [row]) = (case row_of a (rev rows) of
      None \<Rightarrow> if row_address row = a then Some row else None | Some r \<Rightarrow> Some r)" for a
    unfolding row_of_def by (induction rows rule: rev_induct) (auto split: option.splits)
  ultimately show ?case
    using Cons.IH [of ?m] by (auto simp: fun_eq_iff split: option.splits)
qed

lemma row_of_values:
  assumes "bt_inv m" and "\<forall>e\<in>set m. fst e = row_address (snd e)"
  shows "row_of a (map snd m) = map_of m a"
  using assms(2) by (induction m) (auto simp: row_of_def)

text \<open>
  A batch frame carries the receipts in their order and one row per written account, sorted
  by address: the last row that any of the merged transactions wrote for that account.
\<close>
theorem merge_last_row_wins:
  "rb_receipts (rb_merge items) = map rr_receipt items
   \<and> sorted_wrt (<) (map row_address (rb_accounts (rb_merge items)))
   \<and> row_of a (rb_accounts (rb_merge items)) = row_of a (rev (concat (map rr_accounts items)))"
proof -
  let ?rows = "concat (map rr_accounts items)"
  let ?m = "fold (\<lambda>row. bt_insert (row_address row) row) ?rows []"
  have spec: "bt_inv ?m" "\<forall>e\<in>set ?m. fst e = row_address (snd e)"
    "map_of ?m = (\<lambda>a. case row_of a (rev ?rows) of None \<Rightarrow> map_of [] a | Some row \<Rightarrow> Some row)"
    using fold_bt_insert_rows [of "[]" ?rows] by simp_all
  have "map row_address (map snd ?m) = keys ?m" using spec(2) by simp
  then have "sorted_wrt (<) (map row_address (map snd ?m))" using spec(1) by (simp only: bt_inv_def)
  moreover have "row_of a (map snd ?m) = row_of a (rev ?rows)"
    using row_of_values [OF spec(1,2)] spec(3) by (simp split: option.splits)
  ultimately show ?thesis by (simp add: rb_merge_def)
qed

lemma uses_nonce_iff:
  "uses_nonce r \<longleftrightarrow> \<not> is_deposit r \<and>
     (rc_status r \<or> rc_gas_used r \<noteq> 0
      \<or> (rc_write_set_hash r \<noteq> EMPTY_WRITE_SET_HASH
         \<and> rc_skip_reason r \<notin> {None, Some Undecodable, Some NonceTooLow, Some NonceTooHigh, Some Header}))"
  by (auto simp: uses_nonce_def burns_nonce_def is_invalid_skip_def can_use_nonce_def
      split: option.splits)

end
