(* ===== verification/Egress_Receipts.thy ===== *)
theory Egress_Receipts
  imports Receipt
begin

text \<open>
  \<open>crates/egress/src/receipts.rs\<close>: the merge of the receipt streams of all executors into one,
  with an index of the newest receipts by hash. A method that returns a value and changes the
  state returns both.
\<close>

section \<open>Data\<close>

datatype ReceiptFrame = Batch ReceiptBatch | Rollback ReceiptRollback

record Receipts =
  eg_capacity :: nat
  eg_last :: "BPosition option"
  eg_order :: "(b256 \<times> u64 \<times> BPosition) list"
  eg_by_hash :: "(b256, Receipt) hash_map"
  eg_rolled_back :: "b256 option"

section \<open>Operations\<close>

definition eg_new :: "nat \<Rightarrow> Receipts" where
  "eg_new capacity = \<lparr>eg_capacity = capacity, eg_last = None, eg_order = [], eg_by_hash = [],
     eg_rolled_back = None\<rparr>"

definition eg_receipt :: "Receipts \<Rightarrow> b256 \<Rightarrow> Receipt option" where
  "eg_receipt s h = map_of (eg_by_hash s) h"

definition eg_block :: "Receipts \<Rightarrow> u64" where
  "eg_block s = (if eg_order s = [] then 0 else fst (snd (last (eg_order s))))"

definition eg_index :: "Receipt \<Rightarrow> Receipts \<Rightarrow> Receipts" where
  "eg_index r s =
     (let s = s\<lparr>eg_order := eg_order s @ [(rc_tx_hash r, rc_block_number r, rc_tx_idx r)],
                eg_by_hash := hm_insert (rc_tx_hash r) r (eg_by_hash s)\<rparr>
      in if eg_capacity s < length (eg_order s)
         then case eg_order s of
             [] \<Rightarrow> s
           | (old, _, _) # rest \<Rightarrow>
               s\<lparr>eg_order := rest, eg_by_hash := map_remove old (eg_by_hash s)\<rparr>
         else s)"

definition eg_batch :: "ReceiptBatch \<Rightarrow> Receipts \<Rightarrow> ReceiptBatch option \<times> Receipts" where
  "eg_batch batch s =
     (let kept = filter (\<lambda>r. case eg_last s of None \<Rightarrow> True | Some l \<Rightarrow> l < rc_tx_idx r)
                   (rb_receipts batch)
      in if kept = [] then (None, s)
         else (Some (batch\<lparr>rb_receipts := kept\<rparr>),
               fold eg_index kept (s\<lparr>eg_last := Some (rc_tx_idx (last kept))\<rparr>)))"

definition rposition :: "('a \<Rightarrow> bool) \<Rightarrow> 'a list \<Rightarrow> nat option" where
  "rposition P xs = find (\<lambda>i. P (xs ! i)) (rev [0..<length xs])"

definition eg_rollback :: "ReceiptRollback \<Rightarrow> Receipts \<Rightarrow> ReceiptRollback option \<times> Receipts" where
  "eg_rollback rb s =
     (if eg_rolled_back s = Some (rollback_id rb) then (None, s)
      else
        let keep = (case rposition (\<lambda>(_, block, _). block \<le> rollback_to_block rb) (eg_order s) of
                      None \<Rightarrow> 0 | Some at \<Rightarrow> at + 1);
            order = take keep (eg_order s)
        in (Some rb, s\<lparr>
              eg_rolled_back := Some (rollback_id rb),
              eg_order := order,
              eg_by_hash := fold (\<lambda>e. map_remove (fst e)) (drop keep (eg_order s)) (eg_by_hash s),
              eg_last := (if order = [] then None else Some (snd (snd (last order))))\<rparr>))"

definition eg_take :: "ReceiptFrame \<Rightarrow> Receipts \<Rightarrow> ReceiptFrame option \<times> Receipts" where
  "eg_take frame s =
     (case frame of
        Batch b \<Rightarrow> map_prod (map_option Batch) id (eg_batch b s)
      | Rollback r \<Rightarrow> map_prod (map_option Rollback) id (eg_rollback r s))"

section \<open>The index\<close>

text \<open>
  The index is bounded by its capacity, and every receipt it holds has its queue entry, so it is
  dropped with that entry.
\<close>

definition eg_inv :: "Receipts \<Rightarrow> bool" where
  "eg_inv s \<longleftrightarrow> 0 < eg_capacity s \<and> length (eg_order s) \<le> eg_capacity s \<and> hm_inv (eg_by_hash s)
     \<and> (\<forall>h r. map_of (eg_by_hash s) h = Some r \<longrightarrow>
          (h, rc_block_number r, rc_tx_idx r) \<in> set (eg_order s))"

lemma eg_inv_new: "0 < capacity \<Longrightarrow> eg_inv (eg_new capacity)"
  by (simp add: eg_inv_def eg_new_def)

lemma eg_inv_last [simp]: "eg_inv (s\<lparr>eg_last := l\<rparr>) = eg_inv s"
  by (simp add: eg_inv_def)

lemma eg_index_inv:
  assumes "eg_inv s"
  shows "eg_inv (eg_index r s)"
proof (cases "eg_order s")
  case Nil
  then show ?thesis using assms by (auto simp: eg_inv_def eg_index_def)
next
  case (Cons e rest)
  then show ?thesis
    using assms by (cases e) (auto simp: eg_inv_def eg_index_def Let_def split: if_splits)
qed

lemma fold_eg_index_inv: "eg_inv s \<Longrightarrow> eg_inv (fold eg_index rs s)"
  by (induction rs arbitrary: s) (simp_all add: eg_index_inv)

lemma eg_batch_inv: "eg_inv s \<Longrightarrow> eg_inv (snd (eg_batch b s))"
  by (simp add: eg_batch_def Let_def fold_eg_index_inv)

lemma fold_map_remove:
  "hm_inv m \<Longrightarrow> hm_inv (fold (\<lambda>e. map_remove (fst e)) xs m)
     \<and> map_of (fold (\<lambda>e. map_remove (fst e)) xs m)
       = (\<lambda>h. if h \<in> fst ` set xs then None else map_of m h)"
  using hash.invar_fold_rem [of m "map fst xs"] hash.lookup_fold_rem [of m "map fst xs"]
  by (simp add: fold_map comp_def)

lemma eg_rollback_inv:
  assumes "eg_inv s"
  shows "eg_inv (snd (eg_rollback rb s))"
proof -
  have split: "set (eg_order s) = set (take k (eg_order s)) \<union> set (drop k (eg_order s))" for k
    by (metis append_take_drop_id set_append)
  show ?thesis
    using assms fold_map_remove [of "eg_by_hash s"] split
    by (fastforce simp: eg_rollback_def eg_inv_def Let_def image_iff split: if_splits)
qed

lemma eg_take_inv: "eg_inv s \<Longrightarrow> eg_inv (snd (eg_take f s))"
  by (cases f) (simp_all add: eg_take_def eg_batch_inv eg_rollback_inv)

lemma eg_index_keeps [simp]:
  "eg_capacity (eg_index r s) = eg_capacity s" "eg_last (eg_index r s) = eg_last s"
  by (auto simp: eg_index_def Let_def split: list.splits)

lemma fold_eg_index_keeps [simp]:
  "eg_capacity (fold eg_index rs s) = eg_capacity s" "eg_last (fold eg_index rs s) = eg_last s"
  by (induction rs arbitrary: s) simp_all

lemma eg_take_capacity: "eg_capacity (snd (eg_take f s)) = eg_capacity s"
  by (cases f) (simp_all add: eg_take_def eg_batch_def eg_rollback_def Let_def)

text \<open>
  No frame breaks the index: it never holds more receipts than its capacity, and every
  receipt that a lookup returns is one of the queued newest receipts.
\<close>
theorem egress_index_bounded:
  assumes "0 < capacity"
  shows "let s = fold (\<lambda>f s. snd (eg_take f s)) frames (eg_new capacity) in
    length (eg_by_hash s) \<le> capacity \<and> length (eg_order s) \<le> capacity
    \<and> (eg_receipt s h = Some r \<longrightarrow> (h, rc_block_number r, rc_tx_idx r) \<in> set (eg_order s))"
proof -
  have inv: "eg_inv (fold (\<lambda>f s. snd (eg_take f s)) frames s)
      \<and> eg_capacity (fold (\<lambda>f s. snd (eg_take f s)) frames s) = eg_capacity s" if "eg_inv s" for s
    using that by (induction frames arbitrary: s) (simp_all add: eg_take_inv eg_take_capacity)
  let ?s = "fold (\<lambda>f s. snd (eg_take f s)) frames (eg_new capacity)"
  have s: "eg_inv ?s" "eg_capacity ?s = capacity"
    using inv [OF eg_inv_new [OF assms]] by (simp_all add: eg_new_def)
  have "set (keys (eg_by_hash ?s)) \<subseteq> fst ` set (eg_order ?s)"
    using s(1) unfolding set_keys_dom by (force simp: eg_inv_def image_iff)
  then have "card (set (keys (eg_by_hash ?s))) \<le> card (set (eg_order ?s))"
    by (meson List.finite_set card_image_le card_mono finite_imageI le_trans)
  moreover have "card (set (keys (eg_by_hash ?s))) = length (eg_by_hash ?s)"
    using s(1) by (simp add: eg_inv_def hm_inv_def distinct_card [of "keys _", simplified])
  ultimately show ?thesis
    using s card_length [of "eg_order ?s"] by (auto simp: eg_inv_def eg_receipt_def Let_def)
qed

theorem egress_index_bounded_witness:
  "let s = fold (\<lambda>f s. snd (eg_take f s))
       [Batch \<lparr>rb_receipts = [Receipt_default\<lparr>rc_tx_hash := 1\<rparr>,
          Receipt_default\<lparr>rc_tx_hash := 2\<rparr>], rb_accounts = []\<rparr>] (eg_new 1) in
    length (eg_by_hash s) \<le> 1 \<and> length (eg_order s) \<le> 1"
  using egress_index_bounded
    [of 1 "[Batch \<lparr>rb_receipts = [Receipt_default\<lparr>rc_tx_hash := 1\<rparr>,
          Receipt_default\<lparr>rc_tx_hash := 2\<rparr>], rb_accounts = []\<rparr>]"]
  by (simp add: Let_def)

section \<open>The merged stream\<close>

text \<open>
  Every executor publishes slices of the one canonical list \<open>canon\<close>, cut as it likes. An event
  is a slice with its rows; it leaves no gap when it starts at or before the first receipt that
  the merge has not taken.
\<close>

definition cut :: "'a list \<Rightarrow> nat \<Rightarrow> nat \<Rightarrow> 'a list" where
  "cut xs i j = map (\<lambda>k. xs ! k) [i..<j]"

definition taken :: "Receipt list \<Rightarrow> Receipts \<Rightarrow> nat" where
  "taken canon s = (case eg_last s of None \<Rightarrow> 0
     | Some l \<Rightarrow> length (filter (\<lambda>r. rc_tx_idx r \<le> l) canon))"

definition slice_step :: "Receipt list \<Rightarrow> nat \<times> nat \<times> AccountRow list \<Rightarrow> Receipts \<Rightarrow> Receipts" where
  "slice_step canon = (\<lambda>(i, j, rows) s.
     snd (eg_batch \<lparr>rb_receipts = cut canon i j, rb_accounts = rows\<rparr> s))"

definition slice_out :: "Receipt list \<Rightarrow> nat \<times> nat \<times> AccountRow list \<Rightarrow> Receipts \<Rightarrow> Receipt list" where
  "slice_out canon = (\<lambda>(i, j, rows) s.
     case fst (eg_batch \<lparr>rb_receipts = cut canon i j, rb_accounts = rows\<rparr> s) of
       None \<Rightarrow> [] | Some b \<Rightarrow> rb_receipts b)"

definition no_gap :: "Receipt list \<Rightarrow> nat \<times> nat \<times> AccountRow list \<Rightarrow> Receipts \<Rightarrow> bool" where
  "no_gap canon = (\<lambda>(i, j, rows) s. i \<le> taken canon s \<and> j \<le> length canon)"

definition follows :: "Receipt list \<Rightarrow> Receipts \<Rightarrow> bool" where
  "follows canon s \<longleftrightarrow> sorted_wrt (<) (map rc_tx_idx canon)
     \<and> (case eg_last s of None \<Rightarrow> True | Some l \<Rightarrow> l \<in> rc_tx_idx ` set canon)"

lemma taken_cong: "eg_last s = eg_last s' \<Longrightarrow> taken canon s = taken canon s'"
  by (simp add: taken_def)

lemma sorted_nth_less_iff:
  fixes xs :: "'b::linorder list"
  assumes "sorted_wrt (<) xs" and "i < length xs" and "j < length xs"
  shows "xs ! i < xs ! j \<longleftrightarrow> i < j"
  using sorted_wrt_nth_less [OF assms(1), of i j] sorted_wrt_nth_less [OF assms(1), of j i] assms(2,3)
  by (metis linorder_neqE_nat order_less_asym order_less_irrefl)

lemma sorted_prefix:
  assumes "sorted_wrt (<) (map f xs)" and "k < length xs"
  shows "length (filter (\<lambda>x. f x \<le> (f (xs ! k) :: 'b::linorder)) xs) = Suc k"
proof -
  have mono: "f (xs ! i) \<le> f (xs ! k) \<longleftrightarrow> i \<le> k" if "i < length xs" for i
    using sorted_nth_less_iff [OF assms(1), of k i] assms(2) that by (simp flip: not_less)
  then have "{i. i < length xs \<and> f (xs ! i) \<le> f (xs ! k)} = {..k}"
    using assms(2) by auto
  then show ?thesis by (simp add: length_filter_conv_card)
qed

lemma follows_taken:
  assumes "follows canon s" and "k < length canon"
  shows "(case eg_last s of None \<Rightarrow> True | Some l \<Rightarrow> l < rc_tx_idx (canon ! k)) \<longleftrightarrow> taken canon s \<le> k"
    and "taken canon s \<le> length canon"
proof -
  have *: "(case eg_last s of None \<Rightarrow> True | Some l \<Rightarrow> l < rc_tx_idx (canon ! k)) \<longleftrightarrow> taken canon s \<le> k"
    if lst: "eg_last s = Some l" for l
  proof -
    obtain n where n: "n < length canon" "l = rc_tx_idx (canon ! n)"
      using assms(1) lst by (auto simp: follows_def in_set_conv_nth)
    have srt: "sorted_wrt (<) (map rc_tx_idx canon)" using assms(1) by (simp add: follows_def)
    have "taken canon s = Suc n" using sorted_prefix [OF srt n(1)] lst n by (simp add: taken_def)
    moreover have "rc_tx_idx (canon ! n) < rc_tx_idx (canon ! k) \<longleftrightarrow> n < k"
      using sorted_nth_less_iff [OF srt, of n k] n assms(2) by simp
    ultimately show ?thesis using lst n by (simp add: Suc_le_eq)
  qed
  then show "(case eg_last s of None \<Rightarrow> True | Some l \<Rightarrow> l < rc_tx_idx (canon ! k)) \<longleftrightarrow> taken canon s \<le> k"
    by (cases "eg_last s") (simp_all add: taken_def)
  show "taken canon s \<le> length canon" by (simp add: taken_def split: option.splits)
qed

lemma upt_filter_le: "i \<le> n \<Longrightarrow> filter (\<lambda>k. n \<le> k) [i..<j] = [n..<j]"
  by (induction j) (auto simp: le_Suc_eq)

lemma slice_kept:
  assumes "follows canon s" and "no_gap canon (i, j, rows) s"
  shows "filter (\<lambda>r. case eg_last s of None \<Rightarrow> True | Some l \<Rightarrow> l < rc_tx_idx r) (cut canon i j)
    = cut canon (taken canon s) j"
proof -
  have "filter (\<lambda>k. case eg_last s of None \<Rightarrow> True | Some l \<Rightarrow> l < rc_tx_idx (canon ! k)) [i..<j]
      = filter (\<lambda>k. taken canon s \<le> k) [i..<j]"
    using assms follows_taken(1) by (intro filter_cong) (auto simp: no_gap_def)
  then show ?thesis
    using assms(2) by (simp add: cut_def filter_map comp_def no_gap_def upt_filter_le)
qed

lemma slice_effect:
  assumes "follows canon s" and "no_gap canon (i, j, rows) s"
  shows "follows canon (slice_step canon (i, j, rows) s)"
    and "taken canon (slice_step canon (i, j, rows) s) = max (taken canon s) j"
    and "slice_out canon (i, j, rows) s = cut canon (taken canon s) j"
proof -
  note kept = slice_kept [OF assms]
  have nil: "cut canon (taken canon s) j = [] \<longleftrightarrow> j \<le> taken canon s" by (auto simp: cut_def)
  show "slice_out canon (i, j, rows) s = cut canon (taken canon s) j"
    by (simp add: slice_out_def eg_batch_def Let_def kept)
  have last: "eg_last (slice_step canon (i, j, rows) s) =
      (if j \<le> taken canon s then eg_last s else Some (rc_tx_idx (canon ! (j - 1))))"
    by (simp add: slice_step_def eg_batch_def Let_def kept nil) (simp add: cut_def last_map)
  have srt: "sorted_wrt (<) (map rc_tx_idx canon)" and j: "j \<le> length canon"
    using assms by (simp_all add: follows_def no_gap_def)
  then show "follows canon (slice_step canon (i, j, rows) s)"
    using assms(1) last by (auto simp: follows_def)
  show "taken canon (slice_step canon (i, j, rows) s) = max (taken canon s) j"
  proof (cases "j \<le> taken canon s")
    case True
    then have "taken canon (slice_step canon (i, j, rows) s) = taken canon s"
      using last by (intro taken_cong) simp
    then show ?thesis using True by simp
  next
    case False
    then have "j - 1 < length canon" using j by simp
    then show ?thesis using sorted_prefix [OF srt, of "j - 1"] last False by (simp add: taken_def max_def)
  qed
qed

lemma slice_run:
  assumes "follows canon s" and "no_gap canon e s"
  shows "taken canon s \<le> taken canon (slice_step canon e s)
    \<and> slice_out canon e s = map (\<lambda>k. canon ! k) [taken canon s ..< taken canon (slice_step canon e s)]"
  using assms slice_effect [of canon s] by (cases e) (auto simp: cut_def max_def)

interpretation merging: invariant_machine "slice_step canon" "no_gap canon" "follows canon" for canon
  by unfold_locales (auto simp: slice_effect)


definition numbered :: "nat \<Rightarrow> Receipt" where
  "numbered k = Receipt_default\<lparr>rc_tx_idx := from_index (of_nat k), rc_tx_hash := of_nat k\<rparr>"


section \<open>Rollbacks\<close>

lemma rposition_snoc:
  "rposition P (xs @ [x]) = (if P x then Some (length xs) else rposition P xs)"
proof -
  have "find (\<lambda>i. P ((xs @ [x]) ! i)) (rev [0..<length xs]) = find (\<lambda>i. P (xs ! i)) (rev [0..<length xs])"
    by (intro find_cong) (auto simp: nth_append)
  then show ?thesis by (simp add: rposition_def)
qed

lemma keep_filter:
  assumes "sorted (map f xs)"
  shows "(case rposition (\<lambda>x. f x \<le> b) xs of None \<Rightarrow> 0 | Some at \<Rightarrow> at + 1)
    = length (filter (\<lambda>x. f x \<le> b) xs)
    \<and> take (length (filter (\<lambda>x. f x \<le> b) xs)) xs = filter (\<lambda>x. f x \<le> b) xs
    \<and> drop (length (filter (\<lambda>x. f x \<le> b) xs)) xs = filter (\<lambda>x. \<not> f x \<le> b) xs"
  using assms
proof (induction xs rule: rev_induct)
  case Nil
  then show ?case by (simp add: rposition_def)
next
  case (snoc x xs)
  then have IH: "(case rposition (\<lambda>x. f x \<le> b) xs of None \<Rightarrow> 0 | Some at \<Rightarrow> at + 1)
      = length (filter (\<lambda>x. f x \<le> b) xs)"
    "take (length (filter (\<lambda>x. f x \<le> b) xs)) xs = filter (\<lambda>x. f x \<le> b) xs"
    "drop (length (filter (\<lambda>x. f x \<le> b) xs)) xs = filter (\<lambda>x. \<not> f x \<le> b) xs"
    by (simp_all add: sorted_append)
  show ?case
  proof (cases "f x \<le> b")
    case True
    have "\<forall>y\<in>set xs. f y \<le> b"
      using snoc.prems True by (auto simp: sorted_append intro: order.trans)
    then have "filter (\<lambda>x. f x \<le> b) xs = xs" "filter (\<lambda>x. \<not> f x \<le> b) xs = []"
      by (simp_all add: filter_empty_conv)
    then show ?thesis using True by (simp add: rposition_snoc)
  next
    case False
    then show ?thesis using IH by (simp add: rposition_snoc)
  qed
qed

lemma eg_rollback_new:
  assumes "eg_rolled_back s \<noteq> Some (rollback_id rb)"
    and "sorted (map (\<lambda>e. fst (snd e)) (eg_order s))"
  shows "eg_rollback rb s = (Some rb, s\<lparr>
     eg_rolled_back := Some (rollback_id rb),
     eg_order := filter (\<lambda>e. fst (snd e) \<le> rollback_to_block rb) (eg_order s),
     eg_by_hash := fold (\<lambda>e. map_remove (fst e))
       (filter (\<lambda>e. \<not> fst (snd e) \<le> rollback_to_block rb) (eg_order s)) (eg_by_hash s),
     eg_last := (if filter (\<lambda>e. fst (snd e) \<le> rollback_to_block rb) (eg_order s) = [] then None
       else Some (snd (snd (last (filter (\<lambda>e. fst (snd e) \<le> rollback_to_block rb) (eg_order s))))))\<rparr>)"
  using assms(1) keep_filter [OF assms(2), of "rollback_to_block rb"]
  by (simp add: eg_rollback_def case_prod_unfold Let_def)

text \<open>
  A rollback with a new id is passed on and voids what it names: when the queued blocks
  ascend, the queue keeps exactly the entries at or below its block, a lookup returns no receipt
  above it, and the merge resumes after the last entry kept. A second copy of the same rollback
  changes nothing.
\<close>
theorem rollback_voids_above:
  assumes "eg_inv s" and "sorted (map (\<lambda>e. fst (snd e)) (eg_order s))"
    and "eg_rolled_back s \<noteq> Some (rollback_id rb)"
    and "eg_rollback rb s = (out, s')"
  shows "out = Some rb
    \<and> eg_order s' = filter (\<lambda>e. fst (snd e) \<le> rollback_to_block rb) (eg_order s)
    \<and> (eg_receipt s' h = Some r \<longrightarrow> rc_block_number r \<le> rollback_to_block rb)
    \<and> eg_last s' = (if eg_order s' = [] then None else Some (snd (snd (last (eg_order s')))))
    \<and> eg_rollback rb s' = (None, s')"
proof -
  have new: "out = Some rb" "s' = snd (eg_rollback rb s)"
    and order: "eg_order s' = filter (\<lambda>e. fst (snd e) \<le> rollback_to_block rb) (eg_order s)"
    and last: "eg_last s' = (if eg_order s' = [] then None else Some (snd (snd (last (eg_order s')))))"
    and id: "eg_rolled_back s' = Some (rollback_id rb)"
    using assms(4) eg_rollback_new [OF assms(3,2)] by auto
  have "eg_inv s'" using eg_rollback_inv [OF assms(1)] new by simp
  then have "rc_block_number r \<le> rollback_to_block rb" if "eg_receipt s' h = Some r"
    using that order by (fastforce simp: eg_inv_def eg_receipt_def)
  then show ?thesis using new order last id by (simp add: eg_rollback_def)
qed

theorem rollback_voids_above_witness:
  "fst (eg_rollback \<lparr>rollback_to_block = 1, rollback_id = 9\<rparr> (fold eg_index
     [numbered 0\<lparr>rc_block_number := 1\<rparr>, numbered 1\<lparr>rc_block_number := 2\<rparr>] (eg_new 4)))
   = Some \<lparr>rollback_to_block = 1, rollback_id = 9\<rparr>"
proof -
  let ?s = "fold eg_index
     [numbered 0\<lparr>rc_block_number := 1\<rparr>, numbered 1\<lparr>rc_block_number := 2\<rparr>] (eg_new 4)"
  let ?rb = "\<lparr>rollback_to_block = 1, rollback_id = 9\<rparr>"
  have "eg_inv ?s" by (intro fold_eg_index_inv eg_inv_new) simp
  moreover have "sorted (map (\<lambda>e. fst (snd e)) (eg_order ?s))" by code_simp
  moreover have "eg_rolled_back ?s \<noteq> Some (rollback_id ?rb)" by code_simp
  ultimately show ?thesis
    using rollback_voids_above [of ?s ?rb "fst (eg_rollback ?rb ?s)" "snd (eg_rollback ?rb ?s)"]
    by (metis prod.collapse)
qed

text \<open>
  Only the last rollback id is remembered. A late copy of an earlier rollback that comes
  after another one is passed on a second time.
\<close>
theorem rollback_copy_passes_again:
  assumes "rollback_id a \<noteq> rollback_id b"
  shows "fst (eg_rollback a (snd (eg_rollback b (snd (eg_rollback a s))))) = Some a"
proof -
  have "eg_rolled_back (snd (eg_rollback rb s)) = Some (rollback_id rb)" for rb s
    by (simp add: eg_rollback_def Let_def)
  then show ?thesis using assms by (simp add: eg_rollback_def [of a] Let_def)
qed

theorem rollback_copy_passes_again_witness:
  "fst (eg_rollback \<lparr>rollback_to_block = 1, rollback_id = 8\<rparr>
     (snd (eg_rollback \<lparr>rollback_to_block = 0, rollback_id = 9\<rparr>
       (snd (eg_rollback \<lparr>rollback_to_block = 1, rollback_id = 8\<rparr> (eg_new 4))))))
   = Some \<lparr>rollback_to_block = 1, rollback_id = 8\<rparr>"
  by (rule rollback_copy_passes_again) simp

section \<open>The sign bit of positions\<close>

text \<open>
  Positions compare as signed words. Once the merge took a receipt whose index is below 2 to
  the power 31, it drops every receipt with an index from 2 to the power 31 up to 2 to the power
  32, so it passes nothing on across that range.
\<close>
theorem merge_stalls_at_sign_bit:
  assumes "eg_last s = Some (from_index i)" and "i < 2 ^ 31"
    and "\<forall>r\<in>set (rb_receipts b). \<exists>j. rc_tx_idx r = from_index j \<and> 2 ^ 31 \<le> j \<and> j < 2 ^ 32"
  shows "eg_batch b s = (None, s)"
proof -
  have "\<not> from_index i < rc_tx_idx r" if "r \<in> set (rb_receipts b)" for r
    using assms(3) that from_index_wraps [OF assms(2)] by fastforce
  then have "filter (\<lambda>r. case eg_last s of None \<Rightarrow> True | Some l \<Rightarrow> l < rc_tx_idx r) (rb_receipts b) = []"
    using assms(1) by (simp add: filter_empty_conv)
  then show ?thesis by (simp add: eg_batch_def)
qed

theorem merge_stalls_at_sign_bit_witness:
  "let s = (eg_new 4)\<lparr>eg_last := Some (from_index (2 ^ 31 - 1))\<rparr> in
   eg_batch \<lparr>rb_receipts = [Receipt_default\<lparr>rc_tx_idx := from_index (2 ^ 31)\<rparr>], rb_accounts = []\<rparr> s
   = (None, s)"
  unfolding Let_def by (rule merge_stalls_at_sign_bit) (auto intro!: exI [of _ "2 ^ 31"])

end
