(* ===== verification/Live_Accounts.thy ===== *)
theory Live_Accounts
  imports Receipt
begin

text \<open>
  \<open>crates/cache/src/live.rs\<close> and \<open>rollbacks.rs\<close>: the recently written accounts with their
  eviction queue, and the memory of applied rollbacks. One writer applies rows, so the shared
  map, the head and the queue of the writer are one state; the instant that \<open>apply\<close> and \<open>get\<close>
  read is an argument. The counter of evictions is a metric and is left out.
\<close>

section \<open>Data\<close>

record AccountView =
  av_nonce :: u64
  av_balance :: u256
  av_tx_idx :: u64

record Entry =
  en_view :: AccountView
  en_seen_at :: instant

record LiveAccounts =
  la_map :: "(address, Entry) hash_map"
  la_head :: u64
  la_ttl :: duration
  la_order :: "(instant \<times> address) list"
  la_capacity :: nat

section \<open>Operations\<close>

definition la_new :: "nat \<Rightarrow> duration \<Rightarrow> LiveAccounts" where
  "la_new capacity ttl =
     \<lparr>la_map = [], la_head = 0, la_ttl = ttl, la_order = [], la_capacity = capacity\<rparr>"

definition la_get :: "instant \<Rightarrow> LiveAccounts \<Rightarrow> address \<Rightarrow> AccountView option" where
  "la_get now s a =
     (case map_of (la_map s) a of
        None \<Rightarrow> None
      | Some e \<Rightarrow> if now - en_seen_at e \<le> la_ttl s then Some (en_view e) else None)"

definition la_apply_one :: "u64 \<Rightarrow> instant \<Rightarrow> AccountRow \<Rightarrow> LiveAccounts \<Rightarrow> bool \<times> LiveAccounts" where
  "la_apply_one idx now row s =
     (let fresh = \<lparr>en_view = \<lparr>av_nonce = row_nonce row, av_balance = row_balance row, av_tx_idx = 0\<rparr>,
                   en_seen_at = now\<rparr>;
          e = (case map_of (la_map s) (row_address row) of None \<Rightarrow> fresh | Some e \<Rightarrow> e);
          s = s\<lparr>la_map := hm_insert (row_address row) e (la_map s)\<rparr>
      in if idx \<le> av_tx_idx (en_view e) \<and> av_tx_idx (en_view e) \<noteq> 0 then (False, s)
         else (True, s\<lparr>
           la_map := hm_insert (row_address row)
             \<lparr>en_view = \<lparr>av_nonce = row_nonce row, av_balance = row_balance row, av_tx_idx = idx\<rparr>,
              en_seen_at = now\<rparr> (la_map s),
           la_order := la_order s @ [(now, row_address row)]\<rparr>))"

fun la_apply_rows :: "u64 \<Rightarrow> instant \<Rightarrow> AccountRow list \<Rightarrow> LiveAccounts \<Rightarrow> nat \<times> LiveAccounts" where
  "la_apply_rows idx now [] s = (0, s)"
| "la_apply_rows idx now (row # rows) s =
     (let (applied, s) = la_apply_one idx now row s;
          (n, s) = la_apply_rows idx now rows s
      in (if applied then Suc n else n, s))"

definition la_evict_front :: "instant \<Rightarrow> address \<Rightarrow> LiveAccounts \<Rightarrow> LiveAccounts" where
  "la_evict_front at a s =
     (let s = s\<lparr>la_order := tl (la_order s)\<rparr>
      in case map_of (la_map s) a of
           None \<Rightarrow> s
         | Some e \<Rightarrow> if en_seen_at e = at then s\<lparr>la_map := map_remove a (la_map s)\<rparr> else s)"

text \<open>\<open>capacity.saturating_mul(4)\<close>: a queue never has more entries than \<open>usize::MAX\<close>.\<close>

function la_evict :: "instant \<Rightarrow> LiveAccounts \<Rightarrow> LiveAccounts" where
  "la_evict now s =
     (case la_order s of
        [] \<Rightarrow> s
      | (at, a) # _ \<Rightarrow>
          if now - at > la_ttl s \<or> length (la_map s) > la_capacity s
             \<or> length (la_order s) > la_capacity s * 4
          then la_evict now (la_evict_front at a s) else s)"
  by pat_completeness auto
termination
  by (relation "measure (\<lambda>(now, s). length (la_order s))")
    (auto simp: la_evict_front_def Let_def split: option.splits)

declare la_evict.simps [simp del]

definition la_apply :: "BPosition \<Rightarrow> AccountRow list \<Rightarrow> instant \<Rightarrow> LiveAccounts \<Rightarrow> nat \<times> LiveAccounts" where
  "la_apply end_pos rows now s =
     (let idx = as_index end_pos;
          (applied, s) = la_apply_rows idx now rows s;
          s = s\<lparr>la_head := max (la_head s) idx\<rparr>
      in (applied, la_evict now s))"

definition la_clear :: "LiveAccounts \<Rightarrow> LiveAccounts" where
  "la_clear s = s\<lparr>la_map := [], la_order := [], la_head := 0\<rparr>"

section \<open>The applied rollbacks\<close>

type_synonym AppliedRollbacks = "ReceiptRollback list"

abbreviation (input) ROLLBACKS_CAP :: nat where "ROLLBACKS_CAP \<equiv> 64"

definition ar_contains :: "b256 \<Rightarrow> AppliedRollbacks \<Rightarrow> bool" where
  "ar_contains i rs \<longleftrightarrow> (\<exists>r\<in>set rs. rollback_id r = i)"

definition first_time :: "ReceiptRollback \<Rightarrow> AppliedRollbacks \<Rightarrow> bool \<times> AppliedRollbacks" where
  "first_time rb rs =
     (if ar_contains (rollback_id rb) rs then (False, rs)
      else (True, (if length rs = ROLLBACKS_CAP then tl rs else rs) @ [rb]))"

definition newest :: "u64 \<Rightarrow> AppliedRollbacks \<Rightarrow> ReceiptRollback list" where
  "newest n rs = drop (length rs - unat n) rs"

section \<open>The queue covers the map\<close>

text \<open>
  Every resident entry has the queue entry of its last write, and the queue ascends in time. So
  a loop that pops the queue reaches every entry, oldest first.
\<close>

definition la_inv :: "instant \<Rightarrow> LiveAccounts \<Rightarrow> bool" where
  "la_inv now s \<longleftrightarrow> hm_inv (la_map s) \<and> 0 < la_capacity s
     \<and> sorted (map fst (la_order s)) \<and> (\<forall>q\<in>set (la_order s). fst q \<le> now)
     \<and> (\<forall>a e. map_of (la_map s) a = Some e \<longrightarrow> (en_seen_at e, a) \<in> set (la_order s))"

lemma la_inv_new: "0 < capacity \<Longrightarrow> la_inv now (la_new capacity ttl)"
  by (simp add: la_inv_def la_new_def)

lemma la_apply_one_inv:
  assumes "la_inv t s" and "t \<le> now"
  shows "la_inv now (snd (la_apply_one idx now row s))"
  using assms
  by (auto simp: la_inv_def la_apply_one_def Let_def sorted_append split: option.splits intro: order.trans)

lemma la_apply_rows_inv:
  assumes "la_inv now s"
  shows "la_inv now (snd (la_apply_rows idx now rows s))"
  using assms
proof (induction rows arbitrary: s)
  case (Cons row rows)
  then show ?case
    using la_apply_one_inv [of now s now idx row] by (simp add: case_prod_unfold Let_def)
qed simp

lemma la_apply_one_keeps [simp]:
  "la_capacity (snd (la_apply_one idx now row s)) = la_capacity s"
  "la_ttl (snd (la_apply_one idx now row s)) = la_ttl s"
  "la_head (snd (la_apply_one idx now row s)) = la_head s"
  by (simp_all add: la_apply_one_def Let_def)

lemma la_apply_rows_keeps [simp]:
  "la_capacity (snd (la_apply_rows idx now rows s)) = la_capacity s"
  "la_ttl (snd (la_apply_rows idx now rows s)) = la_ttl s"
  "la_head (snd (la_apply_rows idx now rows s)) = la_head s"
  by (induction rows arbitrary: s) (simp_all add: case_prod_unfold Let_def)

lemma la_evict_front_inv:
  assumes "la_inv now s" and "la_order s = (at, a) # q"
  shows "la_inv now (la_evict_front at a s)" and "la_order (la_evict_front at a s) = q"
    and "map_of (la_map (la_evict_front at a s)) \<subseteq>\<^sub>m map_of (la_map s)"
    and "la_capacity (la_evict_front at a s) = la_capacity s"
    and "la_ttl (la_evict_front at a s) = la_ttl s" and "la_head (la_evict_front at a s) = la_head s"
proof -
  show "la_inv now (la_evict_front at a s)"
    using assms by (cases "map_of (la_map s) a")
      (force simp: la_inv_def la_evict_front_def Let_def)+
  show "la_order (la_evict_front at a s) = q"
    and "map_of (la_map (la_evict_front at a s)) \<subseteq>\<^sub>m map_of (la_map s)"
    and "la_capacity (la_evict_front at a s) = la_capacity s"
    and "la_ttl (la_evict_front at a s) = la_ttl s" and "la_head (la_evict_front at a s) = la_head s"
    using assms by (auto simp: la_evict_front_def Let_def map_le_def split: option.splits if_splits)
qed

lemma la_inv_resident:
  assumes "la_inv now s" and "la_order s = []"
  shows "la_map s = []"
proof (rule ccontr)
  assume "la_map s \<noteq> []"
  then obtain a e m where "la_map s = (a, e) # m" by (metis list.exhaust surj_pair)
  then show False using assms by (auto simp: la_inv_def split: if_splits)
qed

definition la_within :: "instant \<Rightarrow> LiveAccounts \<Rightarrow> bool" where
  "la_within now s \<longleftrightarrow> length (la_map s) \<le> la_capacity s \<and> length (la_order s) \<le> la_capacity s * 4
     \<and> (\<forall>q\<in>set (la_order s). now - fst q \<le> la_ttl s)
     \<and> (\<forall>a e. map_of (la_map s) a = Some e \<longrightarrow> now - en_seen_at e \<le> la_ttl s)"

lemma la_evict_spec:
  assumes "la_inv now s"
  shows "la_inv now (la_evict now s) \<and> la_within now (la_evict now s)
    \<and> map_of (la_map (la_evict now s)) \<subseteq>\<^sub>m map_of (la_map s)
    \<and> la_capacity (la_evict now s) = la_capacity s \<and> la_ttl (la_evict now s) = la_ttl s
    \<and> la_head (la_evict now s) = la_head s"
  using assms
proof (induction now s rule: la_evict.induct)
  case (1 now s)
  show ?case
  proof (cases "la_order s")
    case Nil
    then show ?thesis
      using 1(2) la_inv_resident [OF 1(2)] by (simp add: la_evict.simps [of now s] la_within_def)
  next
    case (Cons q qs)
    obtain at a where q: "q = (at, a)" by fastforce
    note front = la_evict_front_inv [OF 1(2), of at a qs]
    show ?thesis
    proof (cases "now - at > la_ttl s \<or> length (la_map s) > la_capacity s
        \<or> length (la_order s) > la_capacity s * 4")
      case True
      have step: "la_evict now s = la_evict now (la_evict_front at a s)"
        using True Cons q by (simp add: la_evict.simps [of now s])
      show ?thesis
        using 1(1) [OF Cons q [symmetric] True] front Cons q unfolding step
        by (auto intro: map_le_trans)
    next
      case False
      have stop: "la_evict now s = s" using False Cons q by (simp add: la_evict.simps [of now s])
      have "at \<le> fst r" if "r \<in> set (la_order s)" for r
        using 1(2) Cons q that by (auto simp: la_inv_def)
      then have "\<forall>r\<in>set (la_order s). now - fst r \<le> la_ttl s"
        using False by (meson diff_le_mono2 not_le order.trans)
      then have "la_within now s"
        using False 1(2) by (auto simp: la_within_def la_inv_def dest!: bspec)
      then show ?thesis using stop 1(2) by simp
    qed
  qed
qed

lemma la_apply_effect:
  fixes end_pos rows
  assumes "la_inv t s" and "t \<le> now"
  defines "s' \<equiv> snd (la_apply end_pos rows now s)"
  shows "la_inv now s' \<and> la_within now s'
    \<and> map_of (la_map s') \<subseteq>\<^sub>m map_of (la_map (snd (la_apply_rows (as_index end_pos) now rows s)))
    \<and> la_capacity s' = la_capacity s \<and> la_ttl s' = la_ttl s
    \<and> la_head s' = max (la_head s) (as_index end_pos)"
proof -
  let ?r = "snd (la_apply_rows (as_index end_pos) now rows s)"
  let ?h = "?r\<lparr>la_head := max (la_head s) (as_index end_pos)\<rparr>"
  have "la_inv now s" using assms(1,2) by (auto simp: la_inv_def intro: order.trans)
  then have "la_inv now ?r" by (rule la_apply_rows_inv)
  then have "la_inv now ?h" by (simp add: la_inv_def)
  moreover have "s' = la_evict now ?h"
    by (simp add: s'_def la_apply_def case_prod_unfold Let_def)
  ultimately show ?thesis using la_evict_spec [of now ?h] by simp
qed

text \<open>
  Applying a batch leaves the layer bounded: at most the capacity of accounts, a queue of at
  most four times that, and no resident account older than the time to live. The eviction loop
  ends for every state, because every resident account has a queue entry.
\<close>
theorem live_accounts_bounded:
  assumes "la_inv t s" and "t \<le> now" and "la_apply end_pos rows now s = (applied, s')"
  shows "la_inv now s' \<and> length (la_map s') \<le> la_capacity s \<and> length (la_order s') \<le> la_capacity s * 4
    \<and> (\<forall>a e. map_of (la_map s') a = Some e \<longrightarrow> now - en_seen_at e \<le> la_ttl s)"
  using la_apply_effect [OF assms(1,2), of end_pos rows] assms(3) by (auto simp: la_within_def)

definition alice_row :: AccountRow where
  "alice_row = \<lparr>row_address = 1, row_nonce = 4, row_balance = 100\<rparr>"

theorem live_accounts_bounded_witness:
  "length (la_map (snd (la_apply (from_index 3) [alice_row, alice_row\<lparr>row_address := 2\<rparr>] 7 (la_new 1 5)))) \<le> 1"
proof -
  let ?rows = "[alice_row, alice_row\<lparr>row_address := 2\<rparr>]"
  have "la_inv 0 (la_new 1 5)" by (rule la_inv_new) simp
  moreover have "la_capacity (la_new 1 5) = 1" by (simp add: la_new_def)
  ultimately show ?thesis
    using live_accounts_bounded [of 0 "la_new 1 5" 7 "from_index 3" ?rows
        "fst (la_apply (from_index 3) ?rows 7 (la_new 1 5))"
        "snd (la_apply (from_index 3) ?rows 7 (la_new 1 5))"] by simp
qed

section \<open>The monotone rule\<close>

definition row_update :: "u64 \<Rightarrow> AccountRow list \<Rightarrow> address \<Rightarrow> Entry \<Rightarrow> Entry \<Rightarrow> bool" where
  "row_update idx rows a e e' \<longleftrightarrow> e' = e
     \<or> av_tx_idx (en_view e) < idx \<and> av_tx_idx (en_view e') = idx
       \<and> (\<exists>row\<in>set rows. row_address row = a \<and> av_nonce (en_view e') = row_nonce row
            \<and> av_balance (en_view e') = row_balance row)"

lemma la_apply_one_entry:
  assumes "idx \<noteq> 0" and "map_of (la_map s) a = Some e"
  shows "\<exists>e'. map_of (la_map (snd (la_apply_one idx now row s))) a = Some e'
    \<and> row_update idx [row] a e e'"
  using assms
  by (auto simp: la_apply_one_def row_update_def Let_def not_le word_neq_0_conv split: option.splits)

lemma la_apply_rows_entry:
  assumes "idx \<noteq> 0" and "map_of (la_map s) a = Some e"
  shows "\<exists>e'. map_of (la_map (snd (la_apply_rows idx now rows s))) a = Some e'
    \<and> row_update idx rows a e e'"
  using assms(2)
proof (induction rows arbitrary: s e)
  case Nil
  then show ?case by (simp add: row_update_def)
next
  case (Cons row rows)
  obtain e1 where e1: "map_of (la_map (snd (la_apply_one idx now row s))) a = Some e1"
    "row_update idx [row] a e e1"
    using la_apply_one_entry [OF assms(1) Cons.prems] by blast
  obtain e2 where "map_of (la_map (snd (la_apply_rows idx now rows (snd (la_apply_one idx now row s))))) a
      = Some e2" "row_update idx rows a e1 e2"
    using Cons.IH [OF e1(1)] by blast
  then show ?case using e1(2) by (auto simp: case_prod_unfold Let_def row_update_def)
qed

text \<open>
  C20. The layer never goes back. Over a batch that ends at a nonzero index, an account that
  stays resident keeps its view or takes the row of this batch at a higher position, and the
  head only rises.
\<close>
theorem live_accounts_monotone:
  assumes "la_inv t s" and "t \<le> now" and "la_apply end_pos rows now s = (applied, s')"
    and "as_index end_pos \<noteq> 0"
    and "map_of (la_map s) a = Some e" and "map_of (la_map s') a = Some e'"
  shows "la_head s \<le> la_head s' \<and> as_index end_pos \<le> la_head s'
    \<and> (en_view e' = en_view e \<or>
       av_tx_idx (en_view e) < as_index end_pos \<and> av_tx_idx (en_view e') = as_index end_pos
       \<and> (\<exists>row\<in>set rows. row_address row = a \<and> av_nonce (en_view e') = row_nonce row
            \<and> av_balance (en_view e') = row_balance row))"
proof -
  note eff = la_apply_effect [OF assms(1,2), of end_pos rows]
  obtain e1 where "map_of (la_map (snd (la_apply_rows (as_index end_pos) now rows s))) a = Some e1"
    and up: "row_update (as_index end_pos) rows a e e1"
    using la_apply_rows_entry [OF assms(4,5)] by blast
  then have "e' = e1" using eff assms(3,6) by (auto simp: map_le_def dom_def)
  then show ?thesis using up eff assms(3) by (auto simp: row_update_def)
qed

theorem live_accounts_monotone_witness:
  "let s = snd (la_apply (from_index 3) [alice_row] 7 (la_new 2 5));
       s' = snd (la_apply (from_index 2) [alice_row\<lparr>row_nonce := 9\<rparr>] 8 s)
   in la_head s \<le> la_head s'
    \<and> map_option en_view (map_of (la_map s') 1) = map_option en_view (map_of (la_map s) 1)"
proof -
  let ?s = "snd (la_apply (from_index 3) [alice_row] 7 (la_new 2 5))"
  let ?s' = "snd (la_apply (from_index 2) [alice_row\<lparr>row_nonce := 9\<rparr>] 8 ?s)"
  let ?e = "\<lparr>en_view = \<lparr>av_nonce = 4, av_balance = 100, av_tx_idx = 3\<rparr>, en_seen_at = 7\<rparr>"
  have "la_inv 0 (la_new 2 5)" by (rule la_inv_new) simp
  then have inv: "la_inv 7 ?s" using la_apply_effect [of 0 "la_new 2 5" 7] by simp
  have e: "map_of (la_map ?s) 1 = Some ?e" by code_simp
  have e': "map_of (la_map ?s') 1 = Some ?e" by code_simp
  have "la_head ?s \<le> la_head ?s'"
    using live_accounts_monotone [OF inv, of 8 "from_index 2" "[alice_row\<lparr>row_nonce := 9\<rparr>]"
        "fst (la_apply (from_index 2) [alice_row\<lparr>row_nonce := 9\<rparr>] 8 ?s)" ?s' 1 ?e ?e] e e' by simp
  then show ?thesis using e e' by simp
qed

section \<open>Rollbacks are applied once\<close>

lemma first_time_keeps:
  assumes "length rs \<le> ROLLBACKS_CAP" and "rs = xs @ rb # ys" and "length ys < ROLLBACKS_CAP - 1"
  shows "length (snd (first_time r rs)) \<le> ROLLBACKS_CAP
    \<and> (\<exists>xs' ys'. snd (first_time r rs) = xs' @ rb # ys' \<and> length ys' \<le> Suc (length ys))"
proof (cases "ar_contains (rollback_id r) rs")
  case True
  then show ?thesis using assms le_SucI by (fastforce simp: first_time_def)
next
  case False
  have "snd (first_time r rs) = (if length rs = ROLLBACKS_CAP then tl xs else xs) @ rb # (ys @ [r])"
    using False assms by (cases xs) (auto simp: first_time_def)
  moreover have "length (snd (first_time r rs)) \<le> ROLLBACKS_CAP"
    using False assms(1) by (auto simp: first_time_def)
  ultimately show ?thesis by fastforce
qed

lemma fold_first_time:
  assumes "length rs \<le> ROLLBACKS_CAP" and "rs = xs @ rb # ys"
    and "length ys + length others < ROLLBACKS_CAP"
  shows "ar_contains (rollback_id rb) (fold (\<lambda>r rs. snd (first_time r rs)) others rs)"
  using assms
proof (induction others arbitrary: rs xs ys)
  case Nil
  then show ?case by (auto simp: ar_contains_def)
next
  case (Cons r others)
  then obtain xs' ys' where "length (snd (first_time r rs)) \<le> ROLLBACKS_CAP"
    "snd (first_time r rs) = xs' @ rb # ys'" "length ys' \<le> Suc (length ys)"
    using first_time_keeps [of rs xs rb ys r] by auto
  then show ?case using Cons.IH [of "snd (first_time r rs)" xs' ys'] Cons.prems(3) by simp
qed

text \<open>
  A consumer acts on a rollback once: after the first copy, up to 63 other events may come
  before a further copy, and that copy is still recognised.
\<close>
theorem rollback_applied_once:
  assumes "length rs \<le> ROLLBACKS_CAP" and "\<not> ar_contains (rollback_id rb) rs"
    and "length others < ROLLBACKS_CAP" and "rollback_id copy = rollback_id rb"
  shows "fst (first_time rb rs)
    \<and> \<not> fst (first_time copy (fold (\<lambda>r rs. snd (first_time r rs)) others (snd (first_time rb rs))))"
proof -
  have "length (snd (first_time rb rs)) \<le> ROLLBACKS_CAP"
    using assms(1,2) by (auto simp: first_time_def)
  moreover have "snd (first_time rb rs) = (if length rs = ROLLBACKS_CAP then tl rs else rs) @ rb # []"
    using assms(2) by (simp add: first_time_def)
  ultimately have "ar_contains (rollback_id rb)
      (fold (\<lambda>r rs. snd (first_time r rs)) others (snd (first_time rb rs)))"
    using fold_first_time [of _ _ rb "[]" others] assms(3) by simp
  then show ?thesis using assms(2,4) by (simp add: first_time_def [of copy] first_time_def [of rb])
qed

theorem rollback_applied_once_witness:
  "\<not> fst (first_time \<lparr>rollback_to_block = 1, rollback_id = 8\<rparr>
     (fold (\<lambda>r rs. snd (first_time r rs)) [\<lparr>rollback_to_block = 0, rollback_id = 9\<rparr>]
       (snd (first_time \<lparr>rollback_to_block = 1, rollback_id = 8\<rparr> []))))"
  using rollback_applied_once [of "[]" "\<lparr>rollback_to_block = 1, rollback_id = 8\<rparr>"
      "[\<lparr>rollback_to_block = 0, rollback_id = 9\<rparr>]" "\<lparr>rollback_to_block = 1, rollback_id = 8\<rparr>"]
  by (simp add: ar_contains_def)

end
