(* ===== verification/Fees.thy ===== *)
theory Fees
  imports Live_Accounts
begin

text \<open>
  \<open>crates/types/src/fees.rs\<close>, \<open>crates/types/src/tx_error.rs\<close> and
  \<open>crates/sequencer/src/fees.rs\<close>: the base fee schedule, the fee fields of a transaction, the
  reasons for a rejection, and the admission gate of the sequencer. A \<open>U256\<close> product or sum
  wraps at its width, as the operators of the integer type do, and its division by zero panics,
  which is \<^const>\<open>None\<close>. The gate reads the account layer at an instant.
\<close>

section \<open>The schedule\<close>

definition BASE_FEE_MAX_CHANGE_DENOMINATOR :: u64 where
  "BASE_FEE_MAX_CHANGE_DENOMINATOR = 8"

definition ELASTICITY_MULTIPLIER :: u64 where
  "ELASTICITY_MULTIPLIER = 2"

definition BLOCK_GAS_LIMIT :: u64 where
  "BLOCK_GAS_LIMIT = 30000000"

record BaseFeeSchedule =
  sch_gas_target :: u64
  sch_denominator :: u64

definition CHAIN :: BaseFeeSchedule where
  "CHAIN = \<lparr>sch_gas_target = BLOCK_GAS_LIMIT div ELASTICITY_MULTIPLIER,
     sch_denominator = BASE_FEE_MAX_CHANGE_DENOMINATOR\<rparr>"

definition u256_div :: "u256 \<Rightarrow> u256 \<Rightarrow> u256 option" where
  "u256_div a b = (if b = 0 then None else Some (a div b))"

definition saturating_to_u128 :: "u256 \<Rightarrow> u128" where
  "saturating_to_u128 x = (if x < 2 ^ 128 then ucast x else - 1)"

definition next_base_fee :: "BaseFeeSchedule \<Rightarrow> u128 \<Rightarrow> u64 \<Rightarrow> u128 option" where
  "next_base_fee sch base_fee used =
     (let base = ucast base_fee :: u256;
          target = ucast (sch_gas_target sch) :: u256;
          den = ucast (sch_denominator sch) :: u256
      in if used = sch_gas_target sch then Some base_fee
         else if sch_gas_target sch < used then
           let over = ucast (used - sch_gas_target sch) :: u256
           in case u256_div (base * over) target of
                None \<Rightarrow> None
              | Some q \<Rightarrow> (case u256_div q den of
                  None \<Rightarrow> None
                | Some d \<Rightarrow> Some (saturating_to_u128 (base + max d 1)))
         else
           let under = ucast (sch_gas_target sch - used) :: u256
           in case u256_div (base * under) target of
                None \<Rightarrow> None
              | Some q \<Rightarrow> (case u256_div q den of
                  None \<Rightarrow> None
                | Some d \<Rightarrow> Some (saturating_to_u128 (base - d))))"

record FeeSchedule =
  fs_base_fee_initial :: u128
  fs_beneficiary :: address

record BlockFees =
  bf_base_fee :: u128
  bf_beneficiary :: address

definition BlockFees_NONE :: BlockFees where
  "BlockFees_NONE = \<lparr>bf_base_fee = 0, bf_beneficiary = 0\<rparr>"

definition bf_genesis :: "FeeSchedule option \<Rightarrow> BlockFees" where
  "bf_genesis schedule =
     (case schedule of
        None \<Rightarrow> BlockFees_NONE
      | Some s \<Rightarrow> \<lparr>bf_base_fee = fs_base_fee_initial s, bf_beneficiary = fs_beneficiary s\<rparr>)"

definition bf_scheduled :: "BlockFees \<Rightarrow> bool" where
  "bf_scheduled b \<longleftrightarrow> bf_base_fee b > 0"

definition bf_next :: "BlockFees \<Rightarrow> u64 \<Rightarrow> BlockFees option" where
  "bf_next b used =
     (if \<not> bf_scheduled b then Some b
      else case next_base_fee CHAIN (bf_base_fee b) used of
             None \<Rightarrow> None
           | Some f \<Rightarrow> Some \<lparr>bf_base_fee = f, bf_beneficiary = bf_beneficiary b\<rparr>)"

section \<open>The fee fields of one transaction\<close>

record TxFees =
  tf_gas_limit :: u64
  tf_max_fee_per_gas :: u128
  tf_max_priority_fee_per_gas :: u128
  tf_legacy :: bool

definition tf_valid :: "TxFees \<Rightarrow> bool" where
  "tf_valid f \<longleftrightarrow> tf_max_priority_fee_per_gas f \<le> tf_max_fee_per_gas f"

definition effective_tip_rate :: "TxFees \<Rightarrow> u128 \<Rightarrow> u128 option" where
  "effective_tip_rate f base_fee =
     (case checked_sub (tf_max_fee_per_gas f) base_fee of
        None \<Rightarrow> None
      | Some room \<Rightarrow> Some (min (tf_max_priority_fee_per_gas f) room))"

definition tf_bid :: "TxFees \<Rightarrow> u128 \<Rightarrow> u128 option" where
  "tf_bid f base_fee =
     (let rate = (if tf_legacy f then saturating_sub (tf_max_fee_per_gas f) base_fee
                  else tf_max_priority_fee_per_gas f)
      in checked_mul rate (ucast (tf_gas_limit f)))"

definition tip_amount :: "TxFees \<Rightarrow> u128 \<Rightarrow> u256 option" where
  "tip_amount f base_fee =
     (case effective_tip_rate f base_fee of
        None \<Rightarrow> None
      | Some rate \<Rightarrow> Some (ucast rate * ucast (tf_gas_limit f)))"

definition worst_case_cost :: "TxFees \<Rightarrow> u256 \<Rightarrow> u256" where
  "worst_case_cost f val = ucast (tf_max_fee_per_gas f) * ucast (tf_gas_limit f) + val"

section \<open>Rejections\<close>

datatype TxErrorReason =
    DuplicatedTx u64
  | Evicted u64
  | Expired u64
  | PastDeadline u64 u64
  | FeeInvalid u128 u128
  | FeeTooLow u128 u128
  | InsufficientFunds u128 u128
  | DaLag u64 u64 u64
  | RecordLag u64 u64 u64
  | SealerNonceAhead u64 u64
  | NonceInFlight u64
  | AlreadyKnown u64

record TxError =
  te_sender :: address
  te_nonce :: u64
  te_reason :: TxErrorReason

definition te_expected_nonce :: "TxErrorReason \<Rightarrow> u64 option" where
  "te_expected_nonce r =
     (case r of
        DuplicatedTx n \<Rightarrow> Some n
      | Evicted n \<Rightarrow> Some n
      | Expired n \<Rightarrow> Some n
      | AlreadyKnown n \<Rightarrow> Some n
      | _ \<Rightarrow> None)"

section \<open>The admission gate\<close>

record BlockBoundary =
  bb_block_number :: u64
  bb_end_tx_idx :: BPosition
  bb_l2_timestamp :: u64
  bb_l1_origin :: u64
  bb_base_fee :: u128
  bb_gas_used :: u64

text \<open>The value that \<open>LatestBaseFee\<close> holds; zero before the first boundary.\<close>

definition on_boundary :: "BlockBoundary \<Rightarrow> u128 \<Rightarrow> u128 option" where
  "on_boundary b latest = next_base_fee CHAIN (bb_base_fee b) (bb_gas_used b)"

record FeeFields =
  ff_fees :: TxFees
  ff_value :: u256

record FeeGate =
  fg_enabled :: bool
  fg_base_fee :: u128
  fg_balances :: "LiveAccounts option"

definition fg_off :: FeeGate where
  "fg_off = \<lparr>fg_enabled = False, fg_base_fee = 0, fg_balances = None\<rparr>"

definition fg_on :: "u128 \<Rightarrow> LiveAccounts option \<Rightarrow> FeeGate" where
  "fg_on base balances = \<lparr>fg_enabled = True, fg_base_fee = base, fg_balances = balances\<rparr>"

definition check_balance :: "instant \<Rightarrow> FeeGate \<Rightarrow> address \<Rightarrow> u256 \<Rightarrow> TxErrorReason + unit" where
  "check_balance now g sender want =
     (case Option.bind (fg_balances g) (\<lambda>b. la_get now b sender) of
        None \<Rightarrow> Inr ()
      | Some view \<Rightarrow>
          if want \<le> av_balance view then Inr ()
          else Inl (InsufficientFunds (saturating_to_u128 (av_balance view)) (saturating_to_u128 want)))"

definition fg_admit :: "instant \<Rightarrow> FeeGate \<Rightarrow> address \<Rightarrow> FeeFields \<Rightarrow> TxErrorReason + u128" where
  "fg_admit now g sender ff =
     (if \<not> fg_enabled g then Inr 0
      else
        let fees = ff_fees ff;
            invalid = FeeInvalid (tf_max_fee_per_gas fees) (tf_max_priority_fee_per_gas fees)
        in if \<not> tf_valid fees then Inl invalid
           else
             let base_fee = fg_base_fee g
             in if tf_max_fee_per_gas fees < base_fee then Inl (FeeTooLow (tf_max_fee_per_gas fees) base_fee)
                else case check_balance now g sender (worst_case_cost fees (ff_value ff)) of
                    Inl e \<Rightarrow> Inl e
                  | Inr _ \<Rightarrow> (case tf_bid fees base_fee of None \<Rightarrow> Inl invalid | Some b \<Rightarrow> Inr b))"

section \<open>The schedule is EIP-1559\<close>

text \<open>The reference: the update rule over natural numbers, as the standard states it.\<close>

definition eip1559 :: "nat \<Rightarrow> nat \<Rightarrow> nat \<Rightarrow> nat \<Rightarrow> nat" where
  "eip1559 target den base used =
     (if used = target then base
      else if used > target then base + max (base * (used - target) div target div den) 1
      else base - base * (target - used) div target div den)"

lemma unat_mult_u256:
  fixes a :: u128 and b :: u64
  shows "unat (ucast a * ucast b :: u256) = unat a * unat b"
proof -
  have "unat a * unat b < 2 ^ 128 * 2 ^ 64"
    using unat_bound [of a] unat_bound [of b] by (intro mult_strict_mono) simp_all
  then have "unat (ucast a :: u256) * unat (ucast b :: u256) < 2 ^ LENGTH(256)"
    by (simp add: unat_ucast_u256)
  then show ?thesis by (simp only: unat_mult_lem unat_ucast_u256) (simp add: unat_ucast_u256)
qed

lemma unat_saturating_to_u128: "unat (saturating_to_u128 x) = min (unat x) (2 ^ 128 - 1)"
  by (auto simp: saturating_to_u128_def word_less_nat_alt unsigned_ucast_eq take_bit_nat_eq_self
      unsigned_minus_1_eq_mask mask_eq_exp_minus_1)

lemma unat_max: "unat (max a b) = max (unat a) (unat (b :: 'a::len word))"
  by (simp add: max_def word_le_nat_alt)

lemma next_base_fee_up:
  assumes "0 < sch_gas_target sch" and "0 < sch_denominator sch" and "sch_gas_target sch < used"
  shows "\<exists>r. next_base_fee sch base used = Some r \<and> unat r =
    min (eip1559 (unat (sch_gas_target sch)) (unat (sch_denominator sch)) (unat base) (unat used)) (2 ^ 128 - 1)"
proof -
  let ?t = "sch_gas_target sch" and ?d = "sch_denominator sch"
  let ?delta = "ucast base * ucast (used - ?t) div ucast ?t div ucast ?d :: u256"
  have nz: "(ucast ?t :: u256) \<noteq> 0" "(ucast ?d :: u256) \<noteq> 0"
    using assms by (auto simp: word_gt_0 simp flip: unat_eq_0 simp: unat_ucast_u256)
  have delta: "unat ?delta = unat base * (unat used - unat ?t) div unat ?t div unat ?d"
    using assms(3) by (simp add: unat_div_distrib unat_mult_u256 unat_ucast_u256 unat_diff_le)
  have "unat base * (unat used - unat ?t) div unat ?t div unat ?d \<le> unat base * unat used"
    by (meson diff_le_self div_le_dividend le_trans mult_le_mono2)
  also have "\<dots> < 2 ^ 128 * 2 ^ 64"
    using unat_bound [of base] unat_bound [of used] by (intro mult_strict_mono) simp_all
  finally have "unat (ucast base :: u256) + unat (max ?delta 1) < 2 ^ LENGTH(256)"
    using unat_bound [of base] by (simp add: unat_max delta unat_ucast_u256)
  then have "unat (ucast base + max ?delta 1) = unat base + max (unat ?delta) 1"
    using unat_add_no_wrap by (fastforce simp: unat_max unat_ucast_u256)
  moreover have "next_base_fee sch base used = Some (saturating_to_u128 (ucast base + max ?delta 1))"
    using assms(3) nz by (auto simp: next_base_fee_def u256_div_def Let_def)
  ultimately show ?thesis
    using assms(3) by (simp add: unat_saturating_to_u128 eip1559_def delta word_less_nat_alt)
qed

lemma next_base_fee_down:
  assumes "0 < sch_denominator sch" and "used < sch_gas_target sch"
  shows "\<exists>r. next_base_fee sch base used = Some r \<and> unat r =
    eip1559 (unat (sch_gas_target sch)) (unat (sch_denominator sch)) (unat base) (unat used)"
proof -
  let ?t = "sch_gas_target sch" and ?d = "sch_denominator sch"
  let ?delta = "ucast base * ucast (?t - used) div ucast ?t div ucast ?d :: u256"
  have "0 < unat ?t" using assms(2) by (simp add: word_less_nat_alt)
  then have nz: "(ucast ?t :: u256) \<noteq> 0" "(ucast ?d :: u256) \<noteq> 0"
    using assms(1) by (auto simp: word_gt_0 simp flip: unat_eq_0 simp: unat_ucast_u256)
  have delta: "unat ?delta = unat base * (unat ?t - unat used) div unat ?t div unat ?d"
    using assms(2) by (simp add: unat_div_distrib unat_mult_u256 unat_ucast_u256 unat_diff_le)
  have "unat base * (unat ?t - unat used) div unat ?t \<le> unat base * unat ?t div unat ?t"
    by (intro div_le_mono mult_le_mono2) simp
  also have "\<dots> \<le> unat base" by simp
  finally have "unat ?delta \<le> unat base" unfolding delta by (rule order.trans [OF div_le_dividend])
  then have "unat (ucast base - ?delta) = unat base - unat ?delta"
    by (simp add: unat_diff_le word_le_nat_alt unat_ucast_u256)
  moreover have "next_base_fee sch base used = Some (saturating_to_u128 (ucast base - ?delta))"
    using assms(2) nz by (auto simp: next_base_fee_def u256_div_def Let_def)
  ultimately show ?thesis
    using assms(2) unat_bound [of base]
    by (simp add: unat_saturating_to_u128 eip1559_def delta word_less_nat_alt)
qed

lemma next_base_fee_eip1559:
  assumes "0 < sch_gas_target sch" and "0 < sch_denominator sch"
  shows "\<exists>r. next_base_fee sch base used = Some r \<and> unat r =
    min (eip1559 (unat (sch_gas_target sch)) (unat (sch_denominator sch)) (unat base) (unat used)) (2 ^ 128 - 1)"
proof (cases used "sch_gas_target sch" rule: linorder_cases)
  case less
  then show ?thesis
    using next_base_fee_down [OF assms(2) less, of base] unat_bound [of base] by (auto simp: eip1559_def word_less_nat_alt)
next
  case equal
  then show ?thesis using unat_bound [of base] by (simp add: next_base_fee_def eip1559_def)
next
  case greater
  then show ?thesis using next_base_fee_up [OF assms] by blast
qed

text \<open>
  C16. The word arithmetic of the schedule computes the EIP-1559 rule over unbounded integers for
  every base fee and every gas amount: no intermediate product wraps, no subtraction goes below
  zero, and only a result above the \<open>u128\<close> range is cut to its maximum.
\<close>
theorem next_base_fee_is_eip1559:
  assumes "0 < sch_gas_target sch" and "0 < sch_denominator sch"
  shows "map_option unat (next_base_fee sch base used) = Some (min
    (eip1559 (unat (sch_gas_target sch)) (unat (sch_denominator sch)) (unat base) (unat used)) (2 ^ 128 - 1))"
  using next_base_fee_eip1559 [OF assms, of base used] by auto

theorem next_base_fee_is_eip1559_witness:
  "map_option unat (next_base_fee \<lparr>sch_gas_target = 10000000, sch_denominator = 8\<rparr> 1000000000 9000000)
   = Some (min (eip1559 10000000 8 1000000000 9000000) (2 ^ 128 - 1))"
  using next_base_fee_is_eip1559 [of "\<lparr>sch_gas_target = 10000000, sch_denominator = 8\<rparr>" 1000000000 9000000]
  by simp

section \<open>The bounds of the chain's schedule\<close>

lemma CHAIN_values: "unat (sch_gas_target CHAIN) = 15000000" "unat (sch_denominator CHAIN) = 8"
  by (simp_all add: CHAIN_def BLOCK_GAS_LIMIT_def ELASTICITY_MULTIPLIER_def
      BASE_FEE_MAX_CHANGE_DENOMINATOR_def)

lemma next_base_fee_CHAIN:
  "\<exists>r. next_base_fee CHAIN base used = Some r
     \<and> unat r = min (eip1559 15000000 8 (unat base) (unat used)) (2 ^ 128 - 1)"
  using next_base_fee_eip1559 [of CHAIN base used] CHAIN_values by (simp add: word_less_nat_alt)

lemma eip1559_down: "used < target \<Longrightarrow> base - base div 8 \<le> eip1559 target 8 base used"
proof -
  assume "used < target"
  have "base * (target - used) div target \<le> base * target div target"
    by (intro div_le_mono mult_le_mono2) simp
  also have "\<dots> \<le> base" by simp
  finally have "base * (target - used) div target div 8 \<le> base div 8" by (rule div_le_mono)
  then show ?thesis using \<open>used < target\<close> by (simp add: eip1559_def)
qed

lemma eip1559_up:
  assumes "target \<le> used" and "used \<le> 2 * target"
  shows "base \<le> eip1559 target 8 base used"
    and "eip1559 target 8 base used \<le> base + max (base div 8) 1"
proof -
  have "base * (used - target) div target \<le> base * target div target"
    using assms by (intro div_le_mono mult_le_mono2) simp
  also have "\<dots> \<le> base" by simp
  finally have "base * (used - target) div target div 8 \<le> base div 8" by (rule div_le_mono)
  then show "eip1559 target 8 base used \<le> base + max (base div 8) 1" by (auto simp: eip1559_def)
  show "base \<le> eip1559 target 8 base used" using assms by (simp add: eip1559_def)
qed

lemma eip1559_positive:
  assumes "0 < base"
  shows "0 < eip1559 target 8 base used"
proof (cases "used < target")
  case True
  have "0 < base - base div 8" using assms by simp
  also have "\<dots> \<le> eip1559 target 8 base used" by (rule eip1559_down [OF True])
  finally show ?thesis .
qed (use assms in \<open>simp add: eip1559_def\<close>)

text \<open>
  Block by block the base fee of the chain moves by at most one eighth and by at least one
  wei upwards: a block under the target lowers it by at most an eighth, and a block up to the
  gas limit raises it by at most the larger of an eighth and one wei.
\<close>
theorem base_fee_step_bounded:
  assumes "used \<le> BLOCK_GAS_LIMIT"
  shows "\<exists>r. next_base_fee CHAIN base used = Some r
    \<and> unat base - unat base div 8 \<le> unat r
    \<and> unat r \<le> unat base + max (unat base div 8) 1"
proof -
  obtain r where r: "next_base_fee CHAIN base used = Some r"
    "unat r = min (eip1559 15000000 8 (unat base) (unat used)) (2 ^ 128 - 1)"
    using next_base_fee_CHAIN by blast
  have u: "unat used \<le> 30000000" using assms by (simp add: BLOCK_GAS_LIMIT_def word_le_nat_alt)
  have "unat base - unat base div 8 \<le> eip1559 15000000 8 (unat base) (unat used)
      \<and> eip1559 15000000 8 (unat base) (unat used) \<le> unat base + max (unat base div 8) 1"
  proof (cases "unat used < 15000000")
    case True
    then show ?thesis using eip1559_down [OF True] by (simp add: eip1559_def trans_le_add1)
  next
    case False
    then show ?thesis
      using eip1559_up [of 15000000 "unat used" "unat base"] u by (auto intro: order.trans [of _ "unat base"])
  qed
  moreover have "unat base - unat base div 8 \<le> 2 ^ 128 - 1" using unat_bound [of base] by simp
  ultimately show ?thesis using r by (auto intro: min.coboundedI1)
qed

theorem base_fee_step_bounded_witness:
  "(30000000::u64) \<le> BLOCK_GAS_LIMIT \<and> (\<exists>r. next_base_fee CHAIN 800 30000000 = Some r \<and> unat r \<le> 900)"
proof -
  have "(30000000::u64) \<le> BLOCK_GAS_LIMIT" by (simp add: BLOCK_GAS_LIMIT_def)
  then show ?thesis using base_fee_step_bounded [of 30000000 800] by auto
qed

section \<open>A scheduled base fee is never zero\<close>

fun bf_run :: "BlockFees \<Rightarrow> u64 list \<Rightarrow> BlockFees option" where
  "bf_run b [] = Some b"
| "bf_run b (used # gas) = (case bf_next b used of None \<Rightarrow> None | Some b' \<Rightarrow> bf_run b' gas)"

lemma bf_next_scheduled:
  assumes "bf_scheduled b"
  shows "\<exists>b'. bf_next b used = Some b' \<and> bf_scheduled b' \<and> bf_beneficiary b' = bf_beneficiary b"
proof -
  obtain r where r: "next_base_fee CHAIN (bf_base_fee b) used = Some r"
    "unat r = min (eip1559 15000000 8 (unat (bf_base_fee b)) (unat used)) (2 ^ 128 - 1)"
    using next_base_fee_CHAIN by blast
  have "0 < unat (bf_base_fee b)" using assms by (simp add: bf_scheduled_def word_less_nat_alt)
  then have "0 < unat r" using eip1559_positive r(2) by simp
  then show ?thesis using r(1) assms by (simp add: bf_next_def bf_scheduled_def word_less_nat_alt)
qed

text \<open>
  C24. On a chain with a schedule every block has a positive base fee and the genesis
  beneficiary, whatever gas its blocks use, and the computation never divides by zero. On a chain
  without one every block has a zero base fee and burns its tips.
\<close>
theorem scheduled_base_fee_never_zero:
  "case schedule of
     Some s \<Rightarrow> fs_base_fee_initial s \<noteq> 0 \<longrightarrow>
       (\<exists>b. bf_run (bf_genesis schedule) gas = Some b \<and> 0 < bf_base_fee b \<and> bf_beneficiary b = fs_beneficiary s)
   | None \<Rightarrow> bf_run (bf_genesis schedule) gas = Some BlockFees_NONE"
proof -
  have run: "\<exists>b'. bf_run b gas = Some b' \<and> bf_scheduled b' \<and> bf_beneficiary b' = bf_beneficiary b"
    if "bf_scheduled b" for b
    using that
  proof (induction gas arbitrary: b)
    case (Cons used gas)
    then show ?case using bf_next_scheduled [OF Cons.prems, of used] by (fastforce split: option.splits)
  qed simp
  have none: "bf_run BlockFees_NONE gas = Some BlockFees_NONE"
    by (induction gas) (simp_all add: bf_next_def bf_scheduled_def BlockFees_NONE_def)
  show ?thesis
    using run [of "bf_genesis schedule"] none
    by (auto simp: bf_genesis_def bf_scheduled_def word_neq_0_conv split: option.splits)
qed

theorem scheduled_base_fee_never_zero_witness:
  "(7::u128) \<noteq> 0 \<and> (\<exists>b. bf_run (bf_genesis (Some \<lparr>fs_base_fee_initial = 7, fs_beneficiary = 1\<rparr>)) [0, 0, 40000000] = Some b
     \<and> 0 < bf_base_fee b)"
  using scheduled_base_fee_never_zero [of "Some \<lparr>fs_base_fee_initial = 7, fs_beneficiary = 1\<rparr>" "[0, 0, 40000000]"]
  by auto

text \<open>
  The sequencer's view and the chain disagree without a schedule. The boundary of a block with
  a zero base fee that used more than the target gives the view a base fee of one wei, while the
  next block of the chain still charges zero.
\<close>
theorem base_fee_view_leaves_zero:
  "on_boundary \<lparr>bb_block_number = 1, bb_end_tx_idx = BPosition 0 1, bb_l2_timestamp = 0, bb_l1_origin = 0,
       bb_base_fee = bf_base_fee BlockFees_NONE, bb_gas_used = 15000001\<rparr> 0 = Some 1
   \<and> bf_next BlockFees_NONE 15000001 = Some BlockFees_NONE"
  by code_simp

text \<open>A base fee of one wei doubles: the rise of one wei is above one eighth of it.\<close>

lemma base_fee_above_nine_eighths: "next_base_fee CHAIN 1 BLOCK_GAS_LIMIT = Some 2"
  by code_simp

section \<open>The worst case covers the charge\<close>

text \<open>
  What admission compares with the balance is enough: for a transaction whose tip rate is
  within its cap and whose cap covers the base fee, the base fee on any gas used, the full tip and
  the value together never exceed the worst case, as long as that sum fits the 256-bit type.
\<close>
theorem worst_case_cost_covers:
  assumes "base_fee \<le> tf_max_fee_per_gas f" and "unat used \<le> unat (tf_gas_limit f)"
    and "unat (tf_max_fee_per_gas f) * unat (tf_gas_limit f) + unat val < 2 ^ 256"
  shows "\<exists>tip. tip_amount f base_fee = Some tip
    \<and> unat base_fee * unat (used :: u64) + unat tip + unat val \<le> unat (worst_case_cost f val)"
proof -
  let ?cap = "unat (tf_max_fee_per_gas f)" and ?lim = "unat (tf_gas_limit f)"
  obtain rate where rate: "effective_tip_rate f base_fee = Some rate" "unat base_fee + unat rate \<le> ?cap"
  proof
    let ?room = "tf_max_fee_per_gas f - base_fee"
    show "effective_tip_rate f base_fee = Some (min (tf_max_priority_fee_per_gas f) ?room)"
      using assms(1) by (simp add: effective_tip_rate_def checked_sub_def)
    have "unat (min (tf_max_priority_fee_per_gas f) ?room) \<le> unat ?room"
      by (simp add: min_def word_le_nat_alt)
    then show "unat base_fee + unat (min (tf_max_priority_fee_per_gas f) ?room) \<le> ?cap"
      using assms(1) by (simp add: unat_diff_le word_le_nat_alt)
  qed
  have "unat base_fee * unat used + unat rate * ?lim \<le> (unat base_fee + unat rate) * ?lim"
    using assms(2) by (simp add: add_mult_distrib)
  also have "\<dots> \<le> ?cap * ?lim" using rate(2) by (rule mult_le_mono1)
  finally have le: "unat base_fee * unat used + unat rate * ?lim \<le> ?cap * ?lim" .
  have "unat (worst_case_cost f val) = ?cap * ?lim + unat val"
    using assms(3) unat_add_no_wrap [of "ucast (tf_max_fee_per_gas f) * ucast (tf_gas_limit f) :: u256" val]
    by (simp add: worst_case_cost_def unat_mult_u256)
  then show ?thesis using le rate(1) by (simp add: tip_amount_def unat_mult_u256)
qed

definition transfer_fees :: TxFees where
  "transfer_fees = \<lparr>tf_gas_limit = 21000, tf_max_fee_per_gas = 10, tf_max_priority_fee_per_gas = 2,
     tf_legacy = False\<rparr>"

theorem worst_case_cost_covers_witness:
  "\<exists>tip. tip_amount transfer_fees 9 = Some tip
     \<and> 9 * unat (21000 :: u64) + unat tip + unat (5 :: u256) \<le> unat (worst_case_cost transfer_fees 5)"
  using worst_case_cost_covers [of 9 transfer_fees 21000 5] by (simp add: transfer_fees_def)

section \<open>The gate\<close>

text \<open>
  The gate with the setting on admits a submission exactly when all the checks hold: the tip
  rate is within the cap, the cap covers the base fee it has seen, the balance that the account
  layer holds at this instant, if it holds one, covers the worst case, and the bid fits. What it
  then returns is the bid.
\<close>
theorem fee_gate_admits_exactly:
  assumes "fg_enabled g"
  shows "fg_admit now g sender ff = Inr b \<longleftrightarrow>
    tf_valid (ff_fees ff) \<and> fg_base_fee g \<le> tf_max_fee_per_gas (ff_fees ff)
    \<and> (\<forall>layer view. fg_balances g = Some layer \<and> la_get now layer sender = Some view \<longrightarrow>
         worst_case_cost (ff_fees ff) (ff_value ff) \<le> av_balance view)
    \<and> tf_bid (ff_fees ff) (fg_base_fee g) = Some b"
  using assms
  by (auto simp: fg_admit_def check_balance_def Let_def split: option.splits sum.splits if_splits
      Option.bind_splits)

theorem fee_gate_admits_exactly_witness:
  "fg_enabled (fg_on 9 None) \<and> fg_admit 0 (fg_on 9 None) 1 \<lparr>ff_fees = transfer_fees, ff_value = 5\<rparr> = Inr 42000"
proof -
  have "fg_enabled (fg_on 9 None)" by (simp add: fg_on_def)
  moreover have "tf_valid transfer_fees" "tf_bid transfer_fees 9 = Some 42000" by code_simp+
  ultimately show ?thesis
    using fee_gate_admits_exactly [of "fg_on 9 None" 0 1 "\<lparr>ff_fees = transfer_fees, ff_value = 5\<rparr>" 42000]
    by (simp add: fg_on_def transfer_fees_def)
qed

text \<open>
  The worst case wraps. A value close to the top of the 256-bit range wraps the sum, so the
  gate admits a transfer whose value alone is above the balance that the layer holds.
\<close>
theorem fee_gate_worst_case_wraps:
  "let layer = snd (la_apply (from_index 3) [alice_row] 7 (la_new 2 5));
       val = - 210000
   in map_option av_balance (la_get 7 layer 1) = Some 100 \<and> (100::u256) < val
    \<and> worst_case_cost transfer_fees val = 0
    \<and> fg_admit 7 (fg_on 9 (Some layer)) 1 \<lparr>ff_fees = transfer_fees, ff_value = val\<rparr> = Inr 42000"
  by code_simp

end
