(* ===== verification/Nonce_Ahead.thy ===== *)
theory Nonce_Ahead
  imports Prelude
begin

text \<open>
  \<open>crates/sequencer/src/nonce_ahead.rs\<close>: the watch over senders that the sealer's nonce guard
  rejects above the chain. \<open>settle.saturating_mul(10)\<close> is a product of ticks.
\<close>

section \<open>Definitions\<close>

abbreviation (input) WATCH_CAPACITY :: nat where "WATCH_CAPACITY \<equiv> 4096"

datatype Verdict = Stuck | InFlight

record NonceAheadWatch =
  naw_settle :: duration
  naw_since :: "(address, u64 \<times> instant) hash_map"

definition naw_new :: "duration \<Rightarrow> NonceAheadWatch" where
  "naw_new settle = \<lparr>naw_settle = settle, naw_since = []\<rparr>"

definition naw_start :: "address \<Rightarrow> u64 \<Rightarrow> instant \<Rightarrow> NonceAheadWatch \<Rightarrow> instant \<times> NonceAheadWatch" where
  "naw_start sender chain now w =
     (let w = (if WATCH_CAPACITY \<le> length (naw_since w)
               then w\<lparr>naw_since := filter (\<lambda>(_, _, first). now - first < naw_settle w * 10) (naw_since w)\<rparr>
               else w);
          w = (if length (naw_since w) < WATCH_CAPACITY \<or> contains_key (naw_since w) sender
               then w\<lparr>naw_since := hm_insert sender (chain, now) (naw_since w)\<rparr>
               else w)
      in (now, w))"

definition observe :: "address \<Rightarrow> u64 \<Rightarrow> instant \<Rightarrow> NonceAheadWatch \<Rightarrow> Verdict \<times> NonceAheadWatch" where
  "observe sender chain now w =
     (let (first, w) =
        (case map_of (naw_since w) sender of
           Some (at_chain, first) \<Rightarrow>
             if at_chain = chain then (first, w) else naw_start sender chain now w
         | None \<Rightarrow> naw_start sender chain now w)
      in (if naw_settle w \<le> now - first then Stuck else InFlight, w))"

definition naw_forget :: "address \<Rightarrow> NonceAheadWatch \<Rightarrow> NonceAheadWatch" where
  "naw_forget sender w = w\<lparr>naw_since := map_remove sender (naw_since w)\<rparr>"

section \<open>Runs\<close>

datatype WatchEvent = Observe address u64 instant | Forget address

fun watch_step :: "WatchEvent \<Rightarrow> NonceAheadWatch \<Rightarrow> NonceAheadWatch" where
  "watch_step (Observe a c t) w = snd (observe a c t w)"
| "watch_step (Forget a) w = naw_forget a w"

fun disturbs :: "address \<Rightarrow> u64 \<Rightarrow> WatchEvent \<Rightarrow> bool" where
  "disturbs a c (Observe a' c' _) \<longleftrightarrow> a' = a \<and> c' \<noteq> c"
| "disturbs a c (Forget a') \<longleftrightarrow> a' = a"

definition naw_inv :: "NonceAheadWatch \<Rightarrow> bool" where
  "naw_inv w \<longleftrightarrow> hm_inv (naw_since w) \<and> length (naw_since w) \<le> WATCH_CAPACITY"

lemma naw_start_simps [simp]:
  "fst (naw_start a c t w) = t" "naw_settle (snd (naw_start a c t w)) = naw_settle w"
  by (simp_all add: naw_start_def Let_def)

lemma observe_settle [simp]: "naw_settle (snd (observe a c t w)) = naw_settle w"
  by (auto simp: observe_def Let_def case_prod_unfold split: option.splits)

text \<open>The entries that \<open>naw_start\<close> looks at after its retain.\<close>

definition naw_room :: "instant \<Rightarrow> NonceAheadWatch \<Rightarrow> (address, u64 \<times> instant) hash_map" where
  "naw_room now w =
     (if WATCH_CAPACITY \<le> length (naw_since w)
      then filter (\<lambda>(_, _, first). now - first < naw_settle w * 10) (naw_since w) else naw_since w)"

lemma naw_since_start:
  "naw_since (snd (naw_start a c t w)) =
     (if length (naw_room t w) < WATCH_CAPACITY \<or> contains_key (naw_room t w) a
      then hm_insert a (c, t) (naw_room t w) else naw_room t w)"
  by (simp add: naw_start_def naw_room_def)

lemma naw_room_inv:
  assumes "naw_inv w"
  shows "hm_inv (naw_room t w)" and "length (naw_room t w) \<le> WATCH_CAPACITY"
proof -
  show "hm_inv (naw_room t w)" using assms by (simp add: naw_room_def naw_inv_def)
  have "length (naw_room t w) \<le> length (naw_since w)" by (simp add: naw_room_def)
  then show "length (naw_room t w) \<le> WATCH_CAPACITY" using assms by (simp add: naw_inv_def)
qed

lemma naw_start_inv:
  assumes "naw_inv w"
  shows "naw_inv (snd (naw_start a c t w))"
  using naw_room_inv [OF assms, of t] hash.len_ins [of "naw_room t w" a "(c, t)"]
  by (auto simp: naw_inv_def naw_since_start contains_key_def)

lemma map_of_filter_subset: "hm_inv m \<Longrightarrow> map_of (filter P m) a = Some v \<Longrightarrow> map_of m a = Some v"
  by (auto simp: hm_inv_def dest!: map_of_SomeD)

lemma naw_start_lookup:
  assumes "hm_inv (naw_since w)" and "map_of (naw_since (snd (naw_start a c t w))) a' = Some v"
  shows "(a' = a \<and> v = (c, t)) \<or> (a' \<noteq> a \<and> map_of (naw_since w) a' = Some v)"
proof -
  have "map_of (naw_room t w) a' = Some v \<Longrightarrow> map_of (naw_since w) a' = Some v"
    using map_of_filter_subset [OF assms(1)] by (simp add: naw_room_def split: if_splits)
  then show ?thesis
    using assms(2) by (cases v) (auto simp: naw_since_start contains_key_def split: if_splits)
qed

lemma watch_step_inv: "naw_inv w \<Longrightarrow> naw_inv (watch_step e w)"
  using naw_start_inv hash.len_rem [of "naw_since w"]
  by (cases e) (auto simp: observe_def naw_forget_def naw_inv_def Let_def case_prod_unfold
      split: option.splits)

interpretation watching: invariant_machine watch_step "\<lambda>_ _. True" naw_inv
  by unfold_locales (rule watch_step_inv)

lemma watch_run_inv: "naw_inv (fold watch_step es (naw_new settle))"
proof -
  have "admissible_run watch_step (\<lambda>_ _. True) es w" for w
    by (induction es arbitrary: w) simp_all
  then show ?thesis by (intro watching.run_inv) (simp_all add: naw_inv_def naw_new_def)
qed

lemma watch_run_settle: "naw_settle (fold watch_step es w) = naw_settle w"
proof (induction es arbitrary: w)
  case (Cons e es)
  then show ?case by (cases e) (simp_all add: naw_forget_def)
qed simp

lemma observe_lookup:
  assumes "hm_inv (naw_since w)" and "map_of (naw_since (snd (observe a c t w))) a' = Some v"
  shows "(a' = a \<and> v = (c, t)) \<or> (map_of (naw_since w) a' = Some v \<and> (a' = a \<longrightarrow> fst v = c))"
  using assms naw_start_lookup [of w a c t a' v]
  by (fastforce simp: observe_def Let_def case_prod_unfold split: option.splits if_splits)

text \<open>The entry of a sender is the first of the undisturbed observations at its chain nonce.\<close>

lemma watch_run_since:
  assumes "map_of (naw_since (fold watch_step es (naw_new settle))) a = Some (c, t)"
  shows "\<exists>xs ys. es = xs @ Observe a c t # ys \<and> (\<forall>e\<in>set ys. \<not> disturbs a c e)"
  using assms
proof (induction es rule: rev_induct)
  case Nil
  then show ?case by (simp add: naw_new_def)
next
  case (snoc e es)
  let ?w = "fold watch_step es (naw_new settle)"
  have hm: "hm_inv (naw_since ?w)" using watch_run_inv [of es settle] by (simp add: naw_inv_def)
  have keep: ?case if old: "map_of (naw_since ?w) a = Some (c, t)" and "\<not> disturbs a c e"
    using snoc.IH [OF old] that(2) by fastforce
  show ?case
  proof (cases e)
    case (Observe a' c' t')
    then have "map_of (naw_since (snd (observe a' c' t' ?w))) a = Some (c, t)" using snoc.prems by simp
    moreover have ?thesis if "a = a'" "c = c'" "t = t'"
      using that Observe by (intro exI [of _ es] exI [of _ "[]"]) simp
    ultimately show ?thesis using keep observe_lookup [OF hm] Observe by fastforce
  next
    case (Forget a')
    then have "a \<noteq> a'" "map_of (naw_since ?w) a = Some (c, t)"
      using snoc.prems by (auto simp: naw_forget_def split: if_splits)
    then show ?thesis using keep Forget by simp
  qed
qed

text \<open>
  A sender is called stuck only after the settle time at one chain nonce. The verdict needs an
  earlier reject of this sender at this chain nonce, at least the settle time ago, since which no
  reject of it named another chain nonce and no receipt raised its floor.
\<close>
theorem stuck_only_after_settle:
  assumes "0 < settle"
    and "fst (observe a c now (fold watch_step es (naw_new settle))) = Stuck"
  shows "\<exists>xs t ys. es = xs @ Observe a c t # ys \<and> settle \<le> now - t \<and> (\<forall>e\<in>set ys. \<not> disturbs a c e)"
proof -
  let ?w = "fold watch_step es (naw_new settle)"
  have settle: "naw_settle ?w = settle" by (simp add: watch_run_settle naw_new_def)
  then obtain t where "map_of (naw_since ?w) a = Some (c, t)" "settle \<le> now - t"
    using assms by (auto simp: observe_def Let_def case_prod_unfold split: option.splits if_splits)
  then show ?thesis using watch_run_since by blast
qed

theorem stuck_only_after_settle_witness:
  "\<exists>xs t ys. [Observe 1 0 2, Observe 2 5 3] = xs @ Observe 1 0 t # ys \<and> 4 \<le> (6::nat) - t
     \<and> (\<forall>e\<in>set ys. \<not> disturbs 1 0 e)"
proof (rule stuck_only_after_settle)
  show "0 < (4::nat)" by simp
  show "fst (observe 1 0 6 (fold watch_step [Observe 1 0 2, Observe 2 5 3] (naw_new 4))) = Stuck"
    by (simp add: observe_def naw_start_def naw_new_def)
qed

text \<open>
  The watch is bounded: no sequence of rejects and receipts makes it hold more senders than
  its capacity, and a sender it has no room for is never called stuck.
\<close>
theorem watch_bounded:
  assumes "0 < settle"
  shows "let w = fold watch_step es (naw_new settle) in
    length (naw_since w) \<le> WATCH_CAPACITY
    \<and> (map_of (naw_since w) a = None \<longrightarrow> fst (observe a c now w) = InFlight)"
proof -
  have "naw_settle (fold watch_step es (naw_new settle)) = settle"
    by (simp add: watch_run_settle naw_new_def)
  then show ?thesis
    using watch_run_inv [of es settle] assms
    by (simp add: Let_def naw_inv_def observe_def case_prod_unfold)
qed

theorem watch_bounded_witness:
  "fst (observe 3 0 9 (fold watch_step [Observe 1 0 2] (naw_new 4))) = InFlight"
proof -
  have "map_of (naw_since (fold watch_step [Observe 1 0 2] (naw_new 4))) 3 = None"
    by (simp add: observe_def naw_start_def naw_new_def)
  then show ?thesis using watch_bounded [of 4 "[Observe 1 0 2]" 3 0 9] by (simp add: Let_def)
qed

end
