(* ===== verification/Byte_Words.thy ===== *)
theory Byte_Words
  imports Prelude
begin

text \<open>
  Machine words as byte strings: \<open>to_be_bytes\<close>, \<open>from_be_bytes\<close> and \<open>from_be_slice\<close>, and their
  little-endian forms, with the round trips that the encoders of the repository rely on.
\<close>

unbundle bit_operations_syntax

definition be_bytes :: "nat \<Rightarrow> 'a::len word \<Rightarrow> u8 list" where
  "be_bytes n w = map (\<lambda>i. ucast (drop_bit (8 * (n - 1 - i)) w)) [0..<n]"

definition from_be :: "u8 list \<Rightarrow> 'a::len word" where
  "from_be bs = foldl (\<lambda>acc b. push_bit 8 acc OR ucast b) 0 bs"

definition le_bytes :: "nat \<Rightarrow> 'a::len word \<Rightarrow> u8 list" where
  "le_bytes n w = rev (be_bytes n w)"

definition from_le :: "u8 list \<Rightarrow> 'a::len word" where
  "from_le bs = from_be (rev bs)"

lemma length_be_bytes [simp]: "length (be_bytes n w) = n"
  by (simp add: be_bytes_def)

lemma length_le_bytes [simp]: "length (le_bytes n w) = n"
  by (simp add: le_bytes_def)

lemma from_be_Nil [simp]: "from_be [] = 0"
  by (simp add: from_be_def)

lemma from_be_snoc: "from_be (bs @ [b]) = push_bit 8 (from_be bs) OR ucast b"
  by (simp add: from_be_def)

lemma bit_from_be:
  "bit (from_be bs :: 'a::len word) m \<longleftrightarrow>
     m < LENGTH('a) \<and> m < 8 * length bs \<and> bit (bs ! (length bs - 1 - m div 8)) (m mod 8)"
proof (induction bs arbitrary: m rule: rev_induct)
  case (snoc b bs)
  have step: "bit (from_be (bs @ [b]) :: 'a word) m \<longleftrightarrow>
      m < LENGTH('a) \<and> (if m < 8 then bit b m else bit (from_be bs :: 'a word) (m - 8))"
    using bit_imp_le_length [of b m] by (auto simp: from_be_snoc bit_simps)
  show ?case
  proof (cases "m < 8")
    case True
    then have "m div 8 = 0" "m mod 8 = m" by simp_all
    then show ?thesis using True by (simp only: step) (simp add: nth_append)
  next
    case False
    define k where "k = (m - 8) div 8"
    have k: "m div 8 = Suc k" "(m - 8) mod 8 = m mod 8"
      using False by (simp_all add: k_def le_div_geq le_mod_geq)
    have "bit (from_be (bs @ [b]) :: 'a word) m \<longleftrightarrow>
        m < LENGTH('a) \<and> m - 8 < 8 * length bs \<and> bit (bs ! (length bs - 1 - k)) (m mod 8)"
      using False snoc.IH [of "m - 8"] by (simp only: step k k_def [symmetric]) auto
    moreover have "m - 8 < 8 * length bs \<longleftrightarrow> m < 8 * length (bs @ [b])" using False by auto
    moreover have "(bs @ [b]) ! (length (bs @ [b]) - 1 - m div 8) = bs ! (length bs - 1 - k)"
      if "m < 8 * length (bs @ [b])"
    proof -
      have "length bs - Suc k < length bs" using that False by auto
      then show ?thesis by (simp add: nth_append k)
    qed
    ultimately show ?thesis by metis
  qed
qed simp

lemma from_be_be_bytes:
  assumes "LENGTH('a::len) \<le> 8 * n"
  shows "from_be (be_bytes n (w :: 'a word)) = w"
proof (rule bit_eqI)
  fix m
  show "bit (from_be (be_bytes n w) :: 'a word) m \<longleftrightarrow> bit w m"
  proof (cases "m < LENGTH('a)")
    case True
    then have m: "m < 8 * n" "m div 8 < n" using assms by auto
    have "8 * (n - Suc (n - 1 - m div 8)) + m mod 8 = m" using m by simp
    then show ?thesis using True m by (simp add: bit_from_be be_bytes_def bit_simps)
  qed (auto simp: bit_from_be dest: bit_imp_le_length)
qed

lemma be_bytes_from_be:
  assumes "8 * length bs \<le> LENGTH('a::len)"
  shows "be_bytes (length bs) (from_be bs :: 'a word) = bs"
proof (rule nth_equalityI)
  fix i assume "i < length (be_bytes (length bs) (from_be bs :: 'a word))"
  then have i: "i < length bs" by simp
  show "be_bytes (length bs) (from_be bs :: 'a word) ! i = bs ! i"
  proof (rule bit_eqI)
    fix k
    show "bit (be_bytes (length bs) (from_be bs :: 'a word) ! i) k \<longleftrightarrow> bit (bs ! i) k"
    proof (cases "k < 8")
      case True
      let ?m = "8 * (length bs - 1 - i) + k"
      have "?m div 8 = length bs - 1 - i" "?m mod 8 = k" using True by simp_all
      moreover have "length bs - 1 - (length bs - 1 - i) = i" using i by simp
      moreover have "?m < 8 * length bs" using True i by simp
      ultimately show ?thesis using True i assms by (simp add: be_bytes_def bit_simps bit_from_be)
    qed (use i in \<open>auto simp: be_bytes_def bit_simps dest: bit_imp_le_length\<close>)
  qed
qed simp

lemma from_le_le_bytes: "LENGTH('a::len) \<le> 8 * n \<Longrightarrow> from_le (le_bytes n (w :: 'a word)) = w"
  by (simp add: from_le_def le_bytes_def from_be_be_bytes)

lemma le_bytes_from_le:
  "8 * length bs \<le> LENGTH('a::len) \<Longrightarrow> le_bytes (length bs) (from_le bs :: 'a word) = bs"
  using be_bytes_from_be [of "rev bs", where 'a = 'a] by (simp add: from_le_def le_bytes_def)

lemma be_bytes_inject:
  fixes v w :: "'a::len word"
  shows "LENGTH('a) \<le> 8 * n \<Longrightarrow> be_bytes n v = be_bytes n w \<longleftrightarrow> v = w"
  by (metis from_be_be_bytes)

end
