(* ===== verification/Epoch_Derivation.thy ===== *)
theory Epoch_Derivation
  imports Byte_Words "HOL-Library.Multiset"
begin

text \<open>
  \<open>crates/types/src/epoch.rs\<close>, \<open>deposit.rs\<close>, \<open>upgrades.rs\<close>, \<open>abi.rs\<close>: how the lockbox logs of
  one L1 block become the deposits of one epoch, and the calldata of an upgrade. The hash and the
  RLP encoding of a two-element list (of a hash and an index, and of a domain and a hash) are
  library code and parameters: \<open>keccak256\<close>, \<open>rlp_id\<close> and \<open>rlp_domain\<close>.
\<close>

section \<open>ABI words\<close>

definition word_u64 :: "u64 \<Rightarrow> u8 list" where
  "word_u64 v = replicate 24 0 @ be_bytes 8 v"

definition word_u128 :: "u128 \<Rightarrow> u8 list" where
  "word_u128 v = replicate 16 0 @ be_bytes 16 v"

definition word_u256 :: "u256 \<Rightarrow> u8 list" where
  "word_u256 v = be_bytes 32 v"

definition word_address :: "address \<Rightarrow> u8 list" where
  "word_address a = replicate 12 0 @ be_bytes 20 a"

section \<open>Deposits and logs\<close>

record Deposit =
  dep_source_hash :: b256
  dep_from :: address
  dep_to :: "address option"
  dep_mint :: u128
  dep_value :: u256
  dep_gas_limit :: u64
  dep_is_system_transaction :: bool
  dep_input :: "u8 list"

record DepositLog =
  dl_block_number :: u64
  dl_block_hash :: b256
  dl_log_index :: u64
  dl_from :: address
  dl_to :: address
  dl_mint :: u128
  dl_gas_limit :: u64
  dl_data :: "u8 list"

record UpgradeLog =
  ul_block_number :: u64
  ul_block_hash :: b256
  ul_log_index :: u64
  ul_feature_id :: u256
  ul_activation_timestamp :: u64

datatype LockboxLog = LDeposit DepositLog | LUpgrade UpgradeLog

fun ll_block_number :: "LockboxLog \<Rightarrow> u64" where
  "ll_block_number (LDeposit l) = dl_block_number l"
| "ll_block_number (LUpgrade l) = ul_block_number l"

fun ll_block_hash :: "LockboxLog \<Rightarrow> b256" where
  "ll_block_hash (LDeposit l) = dl_block_hash l"
| "ll_block_hash (LUpgrade l) = ul_block_hash l"

fun ll_log_index :: "LockboxLog \<Rightarrow> u64" where
  "ll_log_index (LDeposit l) = dl_log_index l"
| "ll_log_index (LUpgrade l) = ul_log_index l"

record EpochRecord =
  ep_l1_number :: u64
  ep_l1_hash :: b256
  ep_deposits :: "Deposit list"

datatype EpochError = ForeignLog b256 b256 | DuplicateLogIndex u64

section \<open>Hashes and aliases\<close>

definition DOMAIN_USER_DEPOSIT :: u64 where
  "DOMAIN_USER_DEPOSIT = 0"

definition DOMAIN_SYSTEM_TX :: u64 where
  "DOMAIN_SYSTEM_TX = 1"

text \<open>The library functions that the source hash is built from.\<close>

record Hashing =
  h_keccak256 :: "u8 list \<Rightarrow> b256"
  h_rlp_id :: "b256 \<Rightarrow> u64 \<Rightarrow> u8 list"
  h_rlp_domain :: "u64 \<Rightarrow> b256 \<Rightarrow> u8 list"

definition source_hash_in_domain :: "Hashing \<Rightarrow> u64 \<Rightarrow> b256 \<Rightarrow> u64 \<Rightarrow> b256" where
  "source_hash_in_domain h domain l1_block_hash l1_log_index =
     (let inner = h_rlp_id h l1_block_hash l1_log_index;
          deposit_id_hash = h_keccak256 h inner;
          outer = h_rlp_domain h domain deposit_id_hash
      in h_keccak256 h outer)"

definition source_hash :: "Hashing \<Rightarrow> b256 \<Rightarrow> u64 \<Rightarrow> b256" where
  "source_hash h = source_hash_in_domain h DOMAIN_USER_DEPOSIT"

definition source_hash_system :: "Hashing \<Rightarrow> b256 \<Rightarrow> u64 \<Rightarrow> b256" where
  "source_hash_system h = source_hash_in_domain h DOMAIN_SYSTEM_TX"

definition ALIAS_OFFSET :: address where
  "ALIAS_OFFSET = 0x1111000000000000000000000000000000001111"

definition alias_l1_address :: "address \<Rightarrow> address" where
  "alias_l1_address l1 =
     (let a = word_address l1;
          b = word_address ALIAS_OFFSET;
          sum = from_be a + from_be b :: u256
      in from_be (drop 12 (be_bytes 32 sum)))"

definition canonical_id :: "Hashing \<Rightarrow> EpochRecord \<Rightarrow> b256" where
  "canonical_id h e = h_keccak256 h (be_bytes 32 (ep_l1_hash e))"

section \<open>Upgrades\<close>

definition CHAIN_STATE :: address where
  "CHAIN_STATE = 0x4200000000000000000000000000000000000017"

definition SYSTEM_UPGRADER :: address where
  "SYSTEM_UPGRADER = 0x454156dAb0518B9244CC7Ff1b0FfFf6c7E031B6D"

definition UPGRADE_TX_GAS_LIMIT :: u64 where
  "UPGRADE_TX_GAS_LIMIT = 1000000"

definition SET_FEATURE_SELECTOR :: "u8 list" where
  "SET_FEATURE_SELECTOR = [0x8a, 0xfd, 0xb8, 0x54]"

abbreviation (input) SET_FEATURE_LEN :: nat where "SET_FEATURE_LEN \<equiv> 4 + 32 + 32"

record FeatureSchedule =
  fsch_feature_id :: u256
  fsch_activation_timestamp :: u64

definition encode_set_feature :: "u256 \<Rightarrow> u64 \<Rightarrow> u8 list" where
  "encode_set_feature feature_id activation_timestamp =
     SET_FEATURE_SELECTOR @ be_bytes 32 feature_id @ be_bytes 32 (ucast activation_timestamp :: u256)"

definition strip_prefix :: "u8 list \<Rightarrow> u8 list \<Rightarrow> u8 list option" where
  "strip_prefix p xs = (if take (length p) xs = p then Some (drop (length p) xs) else None)"

definition decode_set_feature :: "u8 list \<Rightarrow> FeatureSchedule option" where
  "decode_set_feature calldata =
     (case strip_prefix SET_FEATURE_SELECTOR calldata of
        None \<Rightarrow> None
      | Some words \<Rightarrow>
          if length calldata \<noteq> SET_FEATURE_LEN then None
          else
            let ts = from_be (drop 32 words) :: u256
            in if unat ts < 2 ^ 64
               then Some \<lparr>fsch_feature_id = from_be (take 32 words), fsch_activation_timestamp = ucast ts\<rparr>
               else None)"

definition of_deposit :: "Deposit \<Rightarrow> FeatureSchedule option" where
  "of_deposit d =
     (if dep_is_system_transaction d \<and> dep_to d = Some CHAIN_STATE
      then decode_set_feature (dep_input d) else None)"

section \<open>Derivation\<close>

definition deposit_from_log :: "Hashing \<Rightarrow> DepositLog \<Rightarrow> Deposit" where
  "deposit_from_log h l = \<lparr>
     dep_source_hash = source_hash h (dl_block_hash l) (dl_log_index l),
     dep_from = alias_l1_address (dl_from l),
     dep_to = Some (dl_to l),
     dep_mint = dl_mint l,
     dep_value = ucast (dl_mint l),
     dep_gas_limit = dl_gas_limit l,
     dep_is_system_transaction = False,
     dep_input = dl_data l\<rparr>"

definition upgrade_from_log :: "Hashing \<Rightarrow> UpgradeLog \<Rightarrow> Deposit" where
  "upgrade_from_log h l = \<lparr>
     dep_source_hash = source_hash_system h (ul_block_hash l) (ul_log_index l),
     dep_from = SYSTEM_UPGRADER,
     dep_to = Some CHAIN_STATE,
     dep_mint = 0,
     dep_value = 0,
     dep_gas_limit = UPGRADE_TX_GAS_LIMIT,
     dep_is_system_transaction = True,
     dep_input = encode_set_feature (ul_feature_id l) (ul_activation_timestamp l)\<rparr>"

fun deposit_from_lockbox_log :: "Hashing \<Rightarrow> LockboxLog \<Rightarrow> Deposit" where
  "deposit_from_lockbox_log h (LDeposit l) = deposit_from_log h l"
| "deposit_from_lockbox_log h (LUpgrade l) = upgrade_from_log h l"

text \<open>\<open>windows(2).find\<close>: the first of two neighbours with one log index.\<close>

fun find_duplicate :: "LockboxLog list \<Rightarrow> LockboxLog option" where
  "find_duplicate (x # y # zs) =
     (if ll_log_index x = ll_log_index y then Some x else find_duplicate (y # zs))"
| "find_duplicate _ = None"

definition derive_epoch :: "Hashing \<Rightarrow> u64 \<Rightarrow> b256 \<Rightarrow> LockboxLog list \<Rightarrow> EpochError + EpochRecord" where
  "derive_epoch h l1_number l1_hash logs =
     (case find (\<lambda>l. ll_block_hash l \<noteq> l1_hash) logs of
        Some l \<Rightarrow> Inl (ForeignLog l1_hash (ll_block_hash l))
      | None \<Rightarrow>
          let ordered = sort_key ll_log_index logs
          in case find_duplicate ordered of
               Some dup \<Rightarrow> Inl (DuplicateLogIndex (ll_log_index dup))
             | None \<Rightarrow> Inr \<lparr>ep_l1_number = l1_number, ep_l1_hash = l1_hash,
                 ep_deposits = map (deposit_from_lockbox_log h) ordered\<rparr>)"

section \<open>Aliases\<close>

lemma from_be_zeros: "from_be (replicate n 0 @ bs) = (from_be bs :: 'a::len word)"
proof -
  have "foldl (\<lambda>acc b. push_bit 8 acc OR ucast b) 0 (replicate n (0 :: u8)) = (0 :: 'a word)"
    by (induction n) simp_all
  then show ?thesis by (simp add: from_be_def)
qed

lemma from_be_word_address: "(from_be (word_address a) :: u256) = ucast a"
proof -
  have "(from_be (be_bytes 20 a) :: u256) = ucast a"
  proof (rule bit_eqI)
    fix m
    show "bit (from_be (be_bytes 20 a) :: u256) m \<longleftrightarrow> bit (ucast a :: u256) m"
    proof (cases "m < 160")
      case True
      then have "m div 8 < 20" "8 * (19 - (19 - m div 8)) + m mod 8 = m" by simp_all
      then show ?thesis using True by (simp add: bit_from_be be_bytes_def bit_simps)
    qed (auto simp: bit_from_be bit_simps dest: bit_imp_le_length)
  qed
  then show ?thesis by (simp add: word_address_def from_be_zeros)
qed

lemma low_bytes: "drop 12 (be_bytes 32 s) = be_bytes 20 (ucast (s :: u256) :: address)"
proof (rule nth_equalityI)
  fix i assume "i < length (drop 12 (be_bytes 32 s))"
  then have i: "i < 20" by simp
  then have "32 - 1 - (12 + i) = 20 - 1 - i" by simp
  then show "drop 12 (be_bytes 32 s) ! i = be_bytes 20 (ucast s :: address) ! i"
    using i by (intro bit_eqI) (auto simp: be_bytes_def bit_simps)
qed simp

lemma alias_l1_address_add: "alias_l1_address a = a + ALIAS_OFFSET"
proof -
  let ?s = "ucast a + ucast ALIAS_OFFSET :: u256"
  have "alias_l1_address a = ucast ?s"
    by (simp only: alias_l1_address_def from_be_word_address low_bytes Let_def) (simp add: from_be_be_bytes)
  also have "\<dots> = a + ALIAS_OFFSET"
  proof -
    have "unat ?s = unat a + unat ALIAS_OFFSET"
      using unat_add_no_wrap [of "ucast a :: u256" "ucast ALIAS_OFFSET"] unat_bound [of a]
        unat_bound [of ALIAS_OFFSET] by (simp add: unat_ucast_u256)
    then have "unat (ucast ?s :: address) = unat (a + ALIAS_OFFSET)"
      by (simp only: unsigned_ucast_eq unat_word_ariths take_bit_eq_mod)
    then show ?thesis by (simp only: word_unat_eq_iff)
  qed
  finally show ?thesis .
qed

lemma alias_l1_address_inj: "alias_l1_address a = alias_l1_address b \<longleftrightarrow> a = b"
  by (simp add: alias_l1_address_add)

section \<open>Calldata round trip\<close>

lemma encode_set_feature_length: "length (encode_set_feature f t) = SET_FEATURE_LEN"
  by (simp add: encode_set_feature_def SET_FEATURE_SELECTOR_def)

lemma decode_encode: "decode_set_feature (encode_set_feature f t)
    = Some \<lparr>fsch_feature_id = f, fsch_activation_timestamp = t\<rparr>"
proof -
  let ?ts = "ucast t :: u256"
  have "ucast ?ts = t" by (rule bit_eqI) (auto simp: bit_simps)
  moreover have "unat ?ts < 2 ^ 64" by (simp add: unat_ucast_u256)
  moreover have "strip_prefix SET_FEATURE_SELECTOR (encode_set_feature f t)
      = Some (be_bytes 32 f @ be_bytes 32 ?ts)"
    by (simp add: strip_prefix_def encode_set_feature_def)
  ultimately show ?thesis
    using encode_set_feature_length [of f t]
    by (simp add: decode_set_feature_def from_be_be_bytes Let_def)
qed

lemma encode_decode:
  assumes "decode_set_feature cd = Some s"
  shows "encode_set_feature (fsch_feature_id s) (fsch_activation_timestamp s) = cd"
proof -
  obtain words where strip: "strip_prefix SET_FEATURE_SELECTOR cd = Some words"
    and len: "length cd = SET_FEATURE_LEN"
    and ts: "unat (from_be (drop 32 words) :: u256) < 2 ^ 64"
    and s: "s = \<lparr>fsch_feature_id = from_be (take 32 words),
      fsch_activation_timestamp = ucast (from_be (drop 32 words) :: u256)\<rparr>"
    using assms by (auto simp: decode_set_feature_def Let_def split: option.splits if_splits)
  have cd: "cd = SET_FEATURE_SELECTOR @ words"
    using strip by (auto simp: strip_prefix_def split: if_splits) (metis append_take_drop_id)
  then have lw: "length words = 64" using len by (simp add: SET_FEATURE_SELECTOR_def)
  have f: "be_bytes 32 (from_be (take 32 words) :: u256) = take 32 words"
    using be_bytes_from_be [of "take 32 words", where 'a = 256] lw by simp
  have t: "be_bytes 32 (from_be (drop 32 words) :: u256) = drop 32 words"
    using be_bytes_from_be [of "drop 32 words", where 'a = 256] lw by simp
  have "ucast (ucast (from_be (drop 32 words) :: u256) :: u64) = (from_be (drop 32 words) :: u256)"
    using ts by (simp add: word_unat_eq_iff unsigned_ucast_eq unsigned_take_bit_eq take_bit_nat_eq_self)
  then show ?thesis using s f t by (simp add: encode_set_feature_def cd)
qed

text \<open>
  The upgrade calldata round-trips in both directions: what the derivation writes is read back
  exactly, and a calldata that is read as a schedule is the one encoding of that schedule. So the
  system deposit of an upgrade log carries that log's feature and time.
\<close>
theorem set_feature_round_trip:
  "(decode_set_feature cd = Some \<lparr>fsch_feature_id = f, fsch_activation_timestamp = t\<rparr>
      \<longleftrightarrow> cd = encode_set_feature f t)
   \<and> of_deposit (upgrade_from_log h l) =
      Some \<lparr>fsch_feature_id = ul_feature_id l, fsch_activation_timestamp = ul_activation_timestamp l\<rparr>"
  using decode_encode encode_decode [of cd] by (force simp: of_deposit_def upgrade_from_log_def)

section \<open>The derivation is a function of the set of logs\<close>

lemma find_duplicate_None:
  "sorted (map ll_log_index xs) \<Longrightarrow> find_duplicate xs = None \<longleftrightarrow> distinct (map ll_log_index xs)"
proof (induction xs rule: find_duplicate.induct)
  case (1 x y zs)
  then show ?case by (auto simp: image_iff)
qed auto

lemma derive_epoch_ok:
  "derive_epoch h n hash logs = Inr e \<longleftrightarrow>
     (\<forall>l\<in>set logs. ll_block_hash l = hash) \<and> distinct (map ll_log_index logs)
     \<and> e = \<lparr>ep_l1_number = n, ep_l1_hash = hash,
          ep_deposits = map (deposit_from_lockbox_log h) (sort_key ll_log_index logs)\<rparr>"
proof -
  have "distinct (map ll_log_index (sort_key ll_log_index logs)) \<longleftrightarrow> distinct (map ll_log_index logs)"
    by (metis mset_eq_imp_distinct_iff mset_map mset_sort)
  then show ?thesis
    using find_duplicate_None [of "sort_key ll_log_index logs"]
    by (auto simp: derive_epoch_def Let_def find_None_iff find_Some_iff split: option.splits)
qed

lemma sort_key_mset:
  assumes "mset xs = mset ys" and "distinct (map f xs)"
  shows "sort_key f xs = sort_key f ys"
  using assms by (intro sort_key_inj_key_eq) (simp_all add: distinct_map)

text \<open>
  C25. The epoch is a property of the L1 block, not of the reader: two readers that hold the same
  logs of a block in any order derive the same record, the deposits in it ascend by log index,
  and a log of another block or a repeated index is always refused.
\<close>
theorem derive_epoch_order_independent:
  assumes "mset logs = mset logs'"
  shows "(derive_epoch h n hash logs = Inr e \<longleftrightarrow> derive_epoch h n hash logs' = Inr e)
    \<and> (derive_epoch h n hash logs = Inr e \<longrightarrow>
       (\<exists>ordered. mset ordered = mset logs \<and> sorted_wrt (<) (map ll_log_index ordered)
          \<and> ep_deposits e = map (deposit_from_lockbox_log h) ordered))"
proof -
  have perm: "derive_epoch h n hash ys = Inr e"
    if "mset xs = mset ys" "derive_epoch h n hash xs = Inr e" for xs ys :: "LockboxLog list"
    using that sort_key_mset [OF that(1), of ll_log_index] mset_eq_setD [OF that(1)]
      mset_eq_imp_distinct_iff [of "map ll_log_index xs" "map ll_log_index ys"]
    by (simp add: derive_epoch_ok)
  have "\<exists>ordered. mset ordered = mset logs \<and> sorted_wrt (<) (map ll_log_index ordered)
      \<and> ep_deposits e = map (deposit_from_lockbox_log h) ordered"
    if "derive_epoch h n hash logs = Inr e"
  proof (intro exI conjI)
    have "distinct (map ll_log_index (sort_key ll_log_index logs))"
      using that mset_eq_imp_distinct_iff [of "map ll_log_index (sort_key ll_log_index logs)" "map ll_log_index logs"]
      by (simp add: derive_epoch_ok)
    then show "sorted_wrt (<) (map ll_log_index (sort_key ll_log_index logs))"
      by (simp add: strict_sorted_iff)
  qed (use that in \<open>simp_all add: derive_epoch_ok\<close>)
  then show ?thesis using perm assms by (metis (no_types))
qed

definition plain_hashing :: Hashing where
  "plain_hashing = \<lparr>h_keccak256 = from_be, h_rlp_id = (\<lambda>b i. be_bytes 32 b @ be_bytes 8 i),
     h_rlp_domain = (\<lambda>d b. be_bytes 8 d @ be_bytes 32 b)\<rparr>"

definition upgrade_log :: "u64 \<Rightarrow> LockboxLog" where
  "upgrade_log i = LUpgrade \<lparr>ul_block_number = 9, ul_block_hash = 7, ul_log_index = i,
     ul_feature_id = 3, ul_activation_timestamp = 0\<rparr>"

theorem derive_epoch_order_independent_witness:
  "mset [upgrade_log 2, upgrade_log 1] = mset [upgrade_log 1, upgrade_log 2]
   \<and> (\<exists>e. derive_epoch plain_hashing 9 7 [upgrade_log 2, upgrade_log 1] = Inr e
        \<and> derive_epoch plain_hashing 9 7 [upgrade_log 1, upgrade_log 2] = Inr e)"
proof -
  have m: "mset [upgrade_log 2, upgrade_log 1] = mset [upgrade_log 1, upgrade_log 2]" by simp
  obtain e where "derive_epoch plain_hashing 9 7 [upgrade_log 2, upgrade_log 1] = Inr e"
    by (simp add: derive_epoch_ok upgrade_log_def)
  then show ?thesis
    using m derive_epoch_order_independent [OF m, of plain_hashing 9 7 e] by blast
qed

end
