(* ===== verification/Epoch_Pump.thy ===== *)
theory Epoch_Pump
  imports Epoch_Derivation Positions
begin

text \<open>
  \<open>crates/sequencer/src/epoch.rs\<close>, \<open>pump.rs\<close> and \<open>error.rs\<close>: the lane that relays L1 epochs to
  the canonical orderer and keeps each until a boundary confirms it, and the one-slot pump of the
  remote lane.

  The subscription and the publisher are transports: the result of the poll and the answer to an
  offer are arguments of a step, and a step returns whether it polled and which epoch the
  publisher accepted. The signals waiting in the channel and the instant are arguments too.
  \<open>partition_point\<close> on a queue sorted by L1 number is the length of the prefix that satisfies the
  predicate; the binary search finds the epoch with the number or the place to insert it.
\<close>

section \<open>Data\<close>

datatype SequencerError =
    Backpressure
  | IngressDisconnected
  | MalformedFrame string
  | EncodeFailed string
  | Config
  | OriginGapUnfilled u64
  | EpochQueueFull nat u64

datatype OriginSignal = Confirmed u64 | GapSignal u64

record Gap =
  gap_expected :: u64
  gap_since :: instant

record EpochPump =
  pump_unconfirmed :: "EpochRecord list"
  pump_next :: nat
  pump_confirmed :: "u64 option"
  pump_missing :: "Gap option"
  pump_grace :: duration

abbreviation (input) MAX_UNCONFIRMED_EPOCHS :: nat where "MAX_UNCONFIRMED_EPOCHS \<equiv> 4096"

section \<open>Operations\<close>

definition pump_new :: "duration \<Rightarrow> EpochPump" where
  "pump_new g = \<lparr>pump_unconfirmed = [], pump_next = 0, pump_confirmed = None, pump_missing = None, pump_grace = g\<rparr>"

definition partition_point :: "('a \<Rightarrow> bool) \<Rightarrow> 'a list \<Rightarrow> nat" where
  "partition_point P xs = length (takeWhile P xs)"

definition pump_confirm :: "u64 \<Rightarrow> EpochPump \<Rightarrow> EpochPump" where
  "pump_confirm origin p =
     (let done = partition_point (\<lambda>e. ep_l1_number e \<le> origin) (pump_unconfirmed p)
      in p\<lparr>pump_unconfirmed := drop done (pump_unconfirmed p),
           pump_next := pump_next p - done,
           pump_confirmed := Some origin,
           pump_missing := (case pump_missing p of
              None \<Rightarrow> None | Some gap \<Rightarrow> if gap_expected gap > origin then Some gap else None)\<rparr>)"

definition pump_rewind :: "instant \<Rightarrow> u64 \<Rightarrow> EpochPump \<Rightarrow> EpochPump" where
  "pump_rewind now expected p =
     (let at = partition_point (\<lambda>e. ep_l1_number e < expected) (pump_unconfirmed p);
          held = (at < length (pump_unconfirmed p) \<and> ep_l1_number (pump_unconfirmed p ! at) = expected);
          since = (case pump_missing p of None \<Rightarrow> now | Some gap \<Rightarrow> gap_since gap)
      in p\<lparr>pump_next := min (pump_next p) at,
           pump_missing := (if \<not> held \<and> (case pump_confirmed p of None \<Rightarrow> True | Some c \<Rightarrow> expected > c)
             then Some \<lparr>gap_expected = expected, gap_since = since\<rparr> else None)\<rparr>)"

fun pump_apply :: "instant \<Rightarrow> OriginSignal \<Rightarrow> EpochPump \<Rightarrow> EpochPump" where
  "pump_apply now (Confirmed origin) p = pump_confirm origin p"
| "pump_apply now (GapSignal expected) p = pump_rewind now expected p"

definition take_signals :: "instant \<Rightarrow> OriginSignal list \<Rightarrow> EpochPump \<Rightarrow> EpochPump" where
  "take_signals now sigs p = fold (pump_apply now) sigs p"

text \<open>\<open>binary_search_by_key\<close>: \<^const>\<open>Inr\<close> the index of the key, or \<^const>\<open>Inl\<close> where it goes.\<close>

definition binary_search_by_key :: "'k::linorder \<Rightarrow> ('a \<Rightarrow> 'k) \<Rightarrow> 'a list \<Rightarrow> nat + nat" where
  "binary_search_by_key k f xs =
     (let at = partition_point (\<lambda>e. f e < k) xs
      in if at < length xs \<and> f (xs ! at) = k then Inr at else Inl at)"

definition pump_insert :: "instant \<Rightarrow> EpochRecord \<Rightarrow> EpochPump \<Rightarrow> EpochPump" where
  "pump_insert now epoch p =
     (if (case pump_confirmed p of None \<Rightarrow> False | Some c \<Rightarrow> ep_l1_number epoch \<le> c) then p
      else case binary_search_by_key (ep_l1_number epoch) ep_l1_number (pump_unconfirmed p) of
             Inr _ \<Rightarrow> p
           | Inl at \<Rightarrow>
               let p = p\<lparr>pump_unconfirmed := take at (pump_unconfirmed p) @ epoch # drop at (pump_unconfirmed p),
                         pump_next := min (pump_next p) at\<rparr>
               in case pump_missing p of None \<Rightarrow> p | Some gap \<Rightarrow> pump_rewind now (gap_expected gap) p)"

definition to_offer :: "EpochPump \<Rightarrow> EpochRecord option" where
  "to_offer p =
     (if pump_missing p \<noteq> None then None
      else if pump_next p < length (pump_unconfirmed p) then Some (pump_unconfirmed p ! pump_next p) else None)"

text \<open>The second component of the result says whether the subscription was polled.\<close>

definition fill :: "instant \<Rightarrow> SequencerError + EpochRecord option \<Rightarrow> EpochPump
    \<Rightarrow> (SequencerError + bool) \<times> bool \<times> EpochPump" where
  "fill now polled p =
     (if to_offer p \<noteq> None then (Inr False, False, p)
      else if MAX_UNCONFIRMED_EPOCHS \<le> length (pump_unconfirmed p)
      then (Inl (EpochQueueFull (length (pump_unconfirmed p))
              (case pump_unconfirmed p of [] \<Rightarrow> 0 | e # _ \<Rightarrow> ep_l1_number e)), False, p)
      else case polled of
             Inl e \<Rightarrow> (Inl e, True, p)
           | Inr r \<Rightarrow>
               let p = (case r of None \<Rightarrow> p | Some epoch \<Rightarrow> pump_insert now epoch p)
               in (case pump_missing p of
                     Some gap \<Rightarrow> if pump_grace p \<le> now - gap_since gap
                       then Inl (OriginGapUnfilled (gap_expected gap)) else Inr (r \<noteq> None)
                   | None \<Rightarrow> Inr (r \<noteq> None), True, p))"

text \<open>One step of the lane's surroundings: the instant, the signals, what a poll gives, and what the
  publisher answers to an offer.\<close>

record RelayInput =
  ri_now :: instant
  ri_signals :: "OriginSignal list"
  ri_poll :: "SequencerError + EpochRecord option"
  ri_publish :: "EpochRecord \<Rightarrow> SequencerError option"

record RelayResult =
  rr_result :: "SequencerError + bool"
  rr_polled :: bool
  rr_accepted :: "EpochRecord option"
  rr_pump :: EpochPump

definition relay :: "RelayInput \<Rightarrow> EpochPump \<Rightarrow> RelayResult" where
  "relay i p =
     (let p = take_signals (ri_now i) (ri_signals i) p
      in case fill (ri_now i) (ri_poll i) p of
           (Inl e, polled, p) \<Rightarrow> \<lparr>rr_result = Inl e, rr_polled = polled, rr_accepted = None, rr_pump = p\<rparr>
         | (Inr took, polled, p) \<Rightarrow>
             (case to_offer p of
                None \<Rightarrow> \<lparr>rr_result = Inr took, rr_polled = polled, rr_accepted = None, rr_pump = p\<rparr>
              | Some epoch \<Rightarrow>
                  (case ri_publish i epoch of
                     Some e \<Rightarrow> \<lparr>rr_result = Inl e, rr_polled = polled, rr_accepted = None, rr_pump = p\<rparr>
                   | None \<Rightarrow> \<lparr>rr_result = Inr True, rr_polled = polled, rr_accepted = Some epoch,
                       rr_pump = p\<lparr>pump_next := pump_next p + 1\<rparr>\<rparr>)))"

section \<open>The one-slot pump of the remote lane\<close>

text \<open>\<open>Pump::step\<close>: \<open>poll\<close> and \<open>publish\<close> are the closures; the result carries what was published.\<close>

definition pump_step :: "SequencerError + (BPosition \<times> 'a) option \<Rightarrow> ('a \<Rightarrow> SequencerError option)
    \<Rightarrow> (BPosition \<times> 'a) option \<Rightarrow> (SequencerError + bool) \<times> 'a option \<times> (BPosition \<times> 'a) option" where
  "pump_step polled publish held =
     (case (case held of Some h \<Rightarrow> Inr (Some h) | None \<Rightarrow> polled) of
        Inl e \<Rightarrow> (Inl e, None, None)
      | Inr None \<Rightarrow> (Inr False, None, None)
      | Inr (Some (pos, record)) \<Rightarrow>
          (case publish record of
             Some e \<Rightarrow> (Inl e, None, if e = Backpressure then Some (pos, record) else None)
           | None \<Rightarrow> (Inr True, Some record, None)))"

section \<open>Representation\<close>

abbreviation held_numbers :: "EpochPump \<Rightarrow> u64 set" where
  "held_numbers p \<equiv> ep_l1_number ` set (pump_unconfirmed p)"

text \<open>
  The queue ascends strictly, lies above the confirmed origin, is bounded, and the cursor stays in
  it; a gap names an origin that is neither held nor confirmed.
\<close>

definition pump_inv :: "EpochPump \<Rightarrow> bool" where
  "pump_inv p \<longleftrightarrow> sorted_wrt (<) (map ep_l1_number (pump_unconfirmed p))
     \<and> pump_next p \<le> length (pump_unconfirmed p)
     \<and> length (pump_unconfirmed p) \<le> MAX_UNCONFIRMED_EPOCHS
     \<and> (\<forall>c. pump_confirmed p = Some c \<longrightarrow> (\<forall>n\<in>held_numbers p. c < n))
     \<and> (\<forall>g. pump_missing p = Some g \<longrightarrow> gap_expected g \<notin> held_numbers p
          \<and> (\<forall>c. pump_confirmed p = Some c \<longrightarrow> c < gap_expected g))"

lemma pump_inv_new: "pump_inv (pump_new g)"
  by (simp add: pump_inv_def pump_new_def)

lemma takeWhile_filter:
  assumes "sorted_wrt (\<lambda>x y. P y \<longrightarrow> P x) xs"
  shows "takeWhile P xs = filter P xs" and "drop (partition_point P xs) xs = filter (\<lambda>x. \<not> P x) xs"
proof -
  show 1: "takeWhile P xs = filter P xs"
    using assms by (induction xs) (auto simp: filter_empty_conv)
  have "dropWhile P xs = filter (\<lambda>x. \<not> P x) xs"
    using assms by (induction xs) (auto simp: filter_id_conv)
  then show "drop (partition_point P xs) xs = filter (\<lambda>x. \<not> P x) xs"
    by (simp add: partition_point_def dropWhile_eq_drop)
qed

lemma sorted_below:
  assumes "sorted_wrt (<) (map f xs)"
  shows "sorted_wrt (\<lambda>x y. (f y :: 'k::linorder) < k \<longrightarrow> f x < k) xs"
    and "sorted_wrt (\<lambda>x y. f y \<le> k \<longrightarrow> f x \<le> k) xs"
  using assms unfolding sorted_wrt_map by (auto elim!: sorted_wrt_mono_rel [rotated])

lemma partition_point_le: "partition_point P xs \<le> length xs"
  by (simp add: partition_point_def length_takeWhile_le)

lemma search_spec:
  assumes "sorted_wrt (<) (map f xs)"
  shows "(partition_point (\<lambda>e. f e < k) xs < length xs
      \<and> f (xs ! partition_point (\<lambda>e. f e < k) xs) = (k :: 'k::linorder)) \<longleftrightarrow> k \<in> f ` set xs"
proof -
  let ?at = "partition_point (\<lambda>e. f e < k) xs"
  have upper: "drop ?at xs = filter (\<lambda>e. \<not> f e < k) xs"
    by (rule takeWhile_filter(2) [OF sorted_below(1) [OF assms]])
  show ?thesis
  proof
    assume "k \<in> f ` set xs"
    then obtain e where e: "e \<in> set (drop ?at xs)" "f e = k" by (auto simp: upper)
    then obtain i where "i < length xs - ?at" "drop ?at xs ! i = e" by (auto simp: in_set_conv_nth)
    then have lt: "?at < length xs" and i: "xs ! (?at + i) = e" "?at + i < length xs" by auto
    have "xs ! ?at \<in> set (drop ?at xs)" using lt by (metis Cons_nth_drop_Suc list.set_intros(1))
    then have "k \<le> f (xs ! ?at)" by (simp add: upper not_less)
    moreover have "f (xs ! ?at) \<le> k"
      using sorted_wrt_nth_less [OF assms, of ?at "?at + i"] i e lt by (cases i) auto
    ultimately show "?at < length xs \<and> f (xs ! ?at) = k" using lt by simp
  next
    assume "?at < length xs \<and> f (xs ! ?at) = k"
    then show "k \<in> f ` set xs" by (metis image_eqI nth_mem)
  qed
qed

lemma search_Inl:
  assumes "sorted_wrt (<) (map f xs)"
  shows "binary_search_by_key k f xs =
    (if k \<in> f ` set xs then Inr (partition_point (\<lambda>e. f e < k) xs)
     else Inl (partition_point (\<lambda>e. f e < k) xs))"
  using search_spec [OF assms, of k] by (simp add: binary_search_by_key_def Let_def)

section \<open>Effect of the operations\<close>

lemma pump_confirm_effect:
  assumes "pump_inv p"
  shows "pump_inv (pump_confirm o1 p)"
    and "pump_unconfirmed (pump_confirm o1 p) = filter (\<lambda>e. o1 < ep_l1_number e) (pump_unconfirmed p)"
    and "set (take (pump_next (pump_confirm o1 p)) (pump_unconfirmed (pump_confirm o1 p)))
      \<subseteq> set (take (pump_next p) (pump_unconfirmed p))"
proof -
  let ?U = "pump_unconfirmed p" and ?d = "partition_point (\<lambda>e. ep_l1_number e \<le> o1) (pump_unconfirmed p)"
  have srt: "sorted_wrt (<) (map ep_l1_number ?U)" using assms by (simp add: pump_inv_def)
  have drop: "drop ?d ?U = filter (\<lambda>e. o1 < ep_l1_number e) ?U"
    using takeWhile_filter(2) [OF sorted_below(2) [OF srt]] by (simp add: not_le)
  then show U: "pump_unconfirmed (pump_confirm o1 p) = filter (\<lambda>e. o1 < ep_l1_number e) ?U"
    by (simp add: pump_confirm_def Let_def)
  have "pump_next p - ?d \<le> length (drop ?d ?U)" using assms by (auto simp: pump_inv_def)
  moreover have "sorted_wrt (<) (map ep_l1_number (filter (\<lambda>e. o1 < ep_l1_number e) ?U))"
    using srt by (simp add: sorted_wrt_map sorted_wrt_filter)
  moreover have "length (filter (\<lambda>e. o1 < ep_l1_number e) ?U) \<le> MAX_UNCONFIRMED_EPOCHS"
    by (rule order.trans [OF length_filter_le]) (use assms in \<open>simp add: pump_inv_def\<close>)
  moreover have "pump_confirmed (pump_confirm o1 p) = Some o1"
    "pump_next (pump_confirm o1 p) = pump_next p - ?d"
    "pump_missing (pump_confirm o1 p) = Some g \<Longrightarrow> pump_missing p = Some g \<and> o1 < gap_expected g" for g
    by (auto simp: pump_confirm_def Let_def split: option.splits if_splits)
  moreover have "gap_expected g \<notin> held_numbers p" if "pump_missing p = Some g" for g
    using assms that by (simp add: pump_inv_def)
  ultimately show "pump_inv (pump_confirm o1 p)"
    unfolding pump_inv_def U by (auto simp: drop)
  have "take (pump_next p - ?d) (drop ?d ?U) = drop ?d (take (pump_next p) ?U)" by (simp add: drop_take)
  then show "set (take (pump_next (pump_confirm o1 p)) (pump_unconfirmed (pump_confirm o1 p)))
      \<subseteq> set (take (pump_next p) ?U)"
    using set_drop_subset [of ?d "take (pump_next p) ?U"] by (simp add: pump_confirm_def Let_def)
qed

lemma pump_rewind_effect:
  assumes "sorted_wrt (<) (map ep_l1_number (pump_unconfirmed p))"
  shows "pump_unconfirmed (pump_rewind now x p) = pump_unconfirmed p"
    and "pump_confirmed (pump_rewind now x p) = pump_confirmed p"
    and "pump_next (pump_rewind now x p)
      = min (pump_next p) (partition_point (\<lambda>e. ep_l1_number e < x) (pump_unconfirmed p))"
    and "pump_missing (pump_rewind now x p) =
      (if x \<notin> held_numbers p \<and> (case pump_confirmed p of None \<Rightarrow> True | Some c \<Rightarrow> c < x)
       then Some \<lparr>gap_expected = x, gap_since = (case pump_missing p of None \<Rightarrow> now | Some g \<Rightarrow> gap_since g)\<rparr>
       else None)"
  unfolding pump_rewind_def Let_def search_spec [OF assms] by simp_all

lemma pump_rewind_inv:
  assumes "pump_inv p"
  shows "pump_inv (pump_rewind now x p)"
proof -
  have srt: "sorted_wrt (<) (map ep_l1_number (pump_unconfirmed p))" using assms by (simp add: pump_inv_def)
  have "pump_next (pump_rewind now x p) \<le> length (pump_unconfirmed p)"
    using assms pump_rewind_effect(3) [OF srt, of now x] by (simp add: pump_inv_def min.coboundedI1)
  then show ?thesis
    using assms unfolding pump_inv_def pump_rewind_effect(1,2,4) [OF srt]
    by (auto split: if_splits)
qed

lemma pump_rewind_prefix:
  assumes "pump_inv p"
  shows "set (take (pump_next (pump_rewind now x p)) (pump_unconfirmed (pump_rewind now x p)))
    \<subseteq> set (take (pump_next p) (pump_unconfirmed p))"
  using assms pump_rewind_effect(1,3) [of p now x]
    set_take_subset_set_take [OF min.cobounded1, of "pump_next p"]
  by (simp add: pump_inv_def)

text \<open>Where an epoch goes: an insertion by number that leaves the offered prefix alone.\<close>

lemma insert_sorted:
  assumes "sorted_wrt (<) (map f xs)" and "(f x :: 'k::linorder) \<notin> f ` set xs"
  defines "at \<equiv> partition_point (\<lambda>e. f e < f x) xs"
  shows "sorted_wrt (<) (map f (take at xs @ x # drop at xs))"
    and "set (take at xs @ x # drop at xs) = insert x (set xs)"
proof -
  have lo: "take at xs = filter (\<lambda>e. f e < f x) xs"
    unfolding at_def partition_point_def takeWhile_filter(1) [OF sorted_below(1) [OF assms(1)], symmetric]
    by (rule takeWhile_eq_take [symmetric])
  have hi: "drop at xs = filter (\<lambda>e. f x < f e) xs"
  proof -
    have "f e \<noteq> f x" if "e \<in> set xs" for e using assms(2) that by (metis image_eqI)
    then have "filter (\<lambda>e. \<not> f e < f x) xs = filter (\<lambda>e. f x < f e) xs"
      by (intro filter_cong refl) (metis linorder_less_linear order_less_asym)
    then show ?thesis
      using takeWhile_filter(2) [OF sorted_below(1) [OF assms(1)], of "f x"] by (simp add: at_def)
  qed
  have "sorted_wrt (<) (map f (filter P xs))" for P
    using assms(1) by (simp add: sorted_wrt_map sorted_wrt_filter)
  then show "sorted_wrt (<) (map f (take at xs @ x # drop at xs))"
    unfolding lo hi by (simp add: sorted_wrt_append) (blast intro: order.strict_trans)
  show "set (take at xs @ x # drop at xs) = insert x (set xs)"
    using set_append [of "take at xs" "drop at xs"] by simp
qed

lemma pump_insert_effect:
  assumes "pump_inv p" and "length (pump_unconfirmed p) < MAX_UNCONFIRMED_EPOCHS"
  shows "pump_inv (pump_insert now e p)"
    and "set (pump_unconfirmed p) \<subseteq> set (pump_unconfirmed (pump_insert now e p))"
    and "ep_l1_number e \<in> held_numbers (pump_insert now e p)
      \<or> (\<exists>c. pump_confirmed p = Some c \<and> ep_l1_number e \<le> c)"
    and "set (take (pump_next (pump_insert now e p)) (pump_unconfirmed (pump_insert now e p)))
      \<subseteq> set (take (pump_next p) (pump_unconfirmed p))"
    and "pump_confirmed (pump_insert now e p) = pump_confirmed p"
proof -
  let ?U = "pump_unconfirmed p" and ?n = "ep_l1_number e"
  let ?at = "partition_point (\<lambda>x. ep_l1_number x < ?n) ?U"
  let ?p = "p\<lparr>pump_unconfirmed := take ?at ?U @ e # drop ?at ?U, pump_next := min (pump_next p) ?at\<rparr>"
  have srt: "sorted_wrt (<) (map ep_l1_number ?U)" using assms(1) by (simp add: pump_inv_def)
  have len: "length (pump_unconfirmed ?p) \<le> MAX_UNCONFIRMED_EPOCHS"
    using assms(2) partition_point_le [of _ ?U] by simp
  have le_at: "min (pump_next p) ?at \<le> ?at" "?at \<le> length ?U" by (simp_all add: partition_point_le)
  have pre: "set (take k (pump_unconfirmed ?p)) \<subseteq> set (take (pump_next p) ?U)"
    if "k \<le> min (pump_next p) ?at" for k
    using that le_at set_take_subset_set_take [of k "pump_next p" ?U] by simp
  have new: "pump_insert now e p = (case pump_missing p of None \<Rightarrow> ?p
      | Some g \<Rightarrow> pump_rewind now (gap_expected g) ?p)"
    if "?n \<notin> held_numbers p" "\<forall>c. pump_confirmed p = Some c \<longrightarrow> c < ?n"
    using that by (auto simp: pump_insert_def search_Inl [OF srt] Let_def split: option.splits)
  consider (old) c where "pump_confirmed p = Some c" "?n \<le> c"
    | (copy) "?n \<in> held_numbers p" "\<forall>c. pump_confirmed p = Some c \<longrightarrow> c < ?n"
    | (fresh) "?n \<notin> held_numbers p" "\<forall>c. pump_confirmed p = Some c \<longrightarrow> c < ?n"
    by (meson not_less)
  then have "pump_inv (pump_insert now e p) \<and> set ?U \<subseteq> set (pump_unconfirmed (pump_insert now e p))
    \<and> (?n \<in> held_numbers (pump_insert now e p) \<or> (\<exists>c. pump_confirmed p = Some c \<and> ?n \<le> c))
    \<and> set (take (pump_next (pump_insert now e p)) (pump_unconfirmed (pump_insert now e p)))
      \<subseteq> set (take (pump_next p) ?U)
    \<and> pump_confirmed (pump_insert now e p) = pump_confirmed p"
  proof cases
    case old
    then have "pump_insert now e p = p" by (simp add: pump_insert_def)
    then show ?thesis using old assms(1) by auto
  next
    case copy
    then have "pump_insert now e p = p"
      by (auto simp: pump_insert_def search_Inl [OF srt] split: option.splits)
    then show ?thesis using copy(1) assms(1) by simp
  next
    case fresh
    note ins = insert_sorted [OF srt fresh(1)]
    have srt': "sorted_wrt (<) (map ep_l1_number (pump_unconfirmed ?p))" using ins(1) by simp
    have nums: "held_numbers ?p = insert ?n (held_numbers p)" using ins(2) by auto
    have above: "\<forall>c. pump_confirmed p = Some c \<longrightarrow> (\<forall>n\<in>held_numbers ?p. c < n)"
      using assms(1) fresh(2) unfolding nums pump_inv_def by blast
    show ?thesis
    proof (cases "pump_missing p")
      case None
      then have eq: "pump_insert now e p = ?p" using new [OF fresh] by simp
      have "pump_inv ?p"
        unfolding pump_inv_def using srt' len above None le_at by simp
      then show ?thesis unfolding eq using ins(2) nums pre [OF order.refl] by (simp add: subset_insertI)
    next
      case (Some g)
      let ?q = "pump_rewind now (gap_expected g) ?p"
      have eq: "pump_insert now e p = ?q" using new [OF fresh] Some by simp
      note eff = pump_rewind_effect [OF srt', of now "gap_expected g"]
      have nle: "pump_next ?q \<le> min (pump_next p) ?at" unfolding eff(3) by (rule min.coboundedI1) simp
      have "pump_next ?q \<le> length (pump_unconfirmed ?q)"
        using nle le_at unfolding eff(1) by simp
      then have "pump_inv ?q"
        unfolding pump_inv_def using srt' len above eff(1,2) eff(4) by (auto split: if_splits)
      then show ?thesis
        unfolding eq using ins(2) nums pre [OF nle] eff(1,2) by (simp add: subset_insertI)
    qed
  qed
  then show "pump_inv (pump_insert now e p)" "set ?U \<subseteq> set (pump_unconfirmed (pump_insert now e p))"
    "?n \<in> held_numbers (pump_insert now e p) \<or> (\<exists>c. pump_confirmed p = Some c \<and> ?n \<le> c)"
    "set (take (pump_next (pump_insert now e p)) (pump_unconfirmed (pump_insert now e p)))
      \<subseteq> set (take (pump_next p) ?U)"
    "pump_confirmed (pump_insert now e p) = pump_confirmed p"
    by blast+
qed

abbreviation offered_prefix :: "EpochPump \<Rightarrow> EpochRecord set" where
  "offered_prefix p \<equiv> set (take (pump_next p) (pump_unconfirmed p))"

lemma pump_apply_effect:
  assumes "pump_inv p"
  shows "pump_inv (pump_apply now sig p)
    \<and> offered_prefix (pump_apply now sig p) \<subseteq> offered_prefix p
    \<and> set (pump_unconfirmed (pump_apply now sig p)) \<subseteq> set (pump_unconfirmed p)
    \<and> (\<forall>e\<in>set (pump_unconfirmed p). e \<in> set (pump_unconfirmed (pump_apply now sig p))
       \<or> (\<exists>o1. sig = Confirmed o1 \<and> ep_l1_number e \<le> o1))"
proof (cases sig)
  case (Confirmed o1)
  show ?thesis
    using pump_confirm_effect [OF assms, of o1] unfolding Confirmed pump_apply.simps by (simp add: not_less) auto
next
  case (GapSignal x)
  have "sorted_wrt (<) (map ep_l1_number (pump_unconfirmed p))" using assms by (simp add: pump_inv_def)
  from pump_rewind_effect(1) [OF this, of now x] show ?thesis
    using pump_rewind_inv [OF assms, of now x] pump_rewind_prefix [OF assms, of now x]
    unfolding GapSignal pump_apply.simps by simp
qed

lemma take_signals_effect:
  assumes "pump_inv p"
  shows "pump_inv (take_signals now sigs p)
    \<and> offered_prefix (take_signals now sigs p) \<subseteq> offered_prefix p
    \<and> set (pump_unconfirmed (take_signals now sigs p)) \<subseteq> set (pump_unconfirmed p)
    \<and> (\<forall>e\<in>set (pump_unconfirmed p). e \<in> set (pump_unconfirmed (take_signals now sigs p))
         \<or> (\<exists>o1. Confirmed o1 \<in> set sigs \<and> ep_l1_number e \<le> o1))"
  using assms
proof (induction sigs arbitrary: p)
  case Nil
  then show ?case by (simp add: take_signals_def)
next
  case (Cons sig sigs)
  have rest: "take_signals now (sig # sigs) p = take_signals now sigs (pump_apply now sig p)"
    by (simp add: take_signals_def)
  note one = pump_apply_effect [OF Cons.prems, of now sig]
  note rest_eff = Cons.IH [OF conjunct1 [OF one]]
  show ?case
    unfolding rest
  proof (intro conjI ballI)
    fix e assume "e \<in> set (pump_unconfirmed p)"
    then consider "e \<in> set (pump_unconfirmed (pump_apply now sig p))"
      | o1 where "sig = Confirmed o1" "ep_l1_number e \<le> o1"
      using one by meson
    then show "e \<in> set (pump_unconfirmed (take_signals now sigs (pump_apply now sig p)))
        \<or> (\<exists>o1. Confirmed o1 \<in> set (sig # sigs) \<and> ep_l1_number e \<le> o1)"
    proof cases
      case 1
      then show ?thesis using rest_eff by (meson list.set_intros(2))
    next
      case 2
      then show ?thesis by (meson list.set_intros(1))
    qed
  qed (use one rest_eff in \<open>meson subset_trans\<close>)+
qed

lemma fill_effect:
  assumes "pump_inv p" and "fill now poll p = (res, polled, p')"
  shows "pump_inv p'" and "offered_prefix p' \<subseteq> offered_prefix p"
    and "set (pump_unconfirmed p) \<subseteq> set (pump_unconfirmed p')"
    and "polled \<Longrightarrow> poll = Inr (Some e) \<Longrightarrow> ep_l1_number e \<in> held_numbers p'
      \<or> (\<exists>c. pump_confirmed p' = Some c \<and> ep_l1_number e \<le> c)"
proof -
  consider (same) "p' = p" "\<not> (polled \<and> (\<exists>e. poll = Inr (Some e)))"
    | (took) x where "poll = Inr (Some x)" "p' = pump_insert now x p"
        "length (pump_unconfirmed p) < MAX_UNCONFIRMED_EPOCHS"
    using assms(2) by (cases poll) (auto simp: fill_def Let_def split: if_splits option.splits)
  then have "pump_inv p' \<and> offered_prefix p' \<subseteq> offered_prefix p
    \<and> set (pump_unconfirmed p) \<subseteq> set (pump_unconfirmed p')
    \<and> (polled \<longrightarrow> poll = Inr (Some e) \<longrightarrow> ep_l1_number e \<in> held_numbers p'
      \<or> (\<exists>c. pump_confirmed p' = Some c \<and> ep_l1_number e \<le> c))"
  proof cases
    case same
    then show ?thesis using assms(1) by auto
  next
    case took
    show ?thesis
      using pump_insert_effect [OF assms(1) took(3), where e = x and now = now] took(1,2) by auto
  qed
  then show "pump_inv p'" "offered_prefix p' \<subseteq> offered_prefix p"
    "set (pump_unconfirmed p) \<subseteq> set (pump_unconfirmed p')"
    "polled \<Longrightarrow> poll = Inr (Some e) \<Longrightarrow> ep_l1_number e \<in> held_numbers p'
      \<or> (\<exists>c. pump_confirmed p' = Some c \<and> ep_l1_number e \<le> c)"
    by blast+
qed

lemma to_offer_Some:
  assumes "to_offer p = Some e"
  shows "pump_next p < length (pump_unconfirmed p)" "pump_unconfirmed p ! pump_next p = e"
    "pump_missing p = None"
  using assms by (auto simp: to_offer_def split: if_splits)

lemma relay_cases:
  obtains p1 res polled where
    "fill (ri_now i) (ri_poll i) (take_signals (ri_now i) (ri_signals i) p) = (res, polled, p1)"
    "rr_polled (relay i p) = polled"
    "(rr_accepted (relay i p) = None \<and> rr_pump (relay i p) = p1)
     \<or> (\<exists>e. rr_accepted (relay i p) = Some e \<and> to_offer p1 = Some e
          \<and> rr_pump (relay i p) = p1\<lparr>pump_next := pump_next p1 + 1\<rparr>)"
proof -
  obtain res polled p1 where f: "fill (ri_now i) (ri_poll i)
      (take_signals (ri_now i) (ri_signals i) p) = (res, polled, p1)"
    by (metis prod_cases3)
  show thesis
    by (rule that [OF f]) (auto simp: relay_def f Let_def split: sum.splits option.splits)
qed

lemma relay_effect:
  assumes "pump_inv p"
  shows "pump_inv (rr_pump (relay i p))"
    and "offered_prefix (rr_pump (relay i p)) \<subseteq> offered_prefix p \<union> set_option (rr_accepted (relay i p))"
    and "e \<in> set (pump_unconfirmed p) \<Longrightarrow> e \<in> set (pump_unconfirmed (rr_pump (relay i p)))
      \<or> (\<exists>o1. Confirmed o1 \<in> set (ri_signals i) \<and> ep_l1_number e \<le> o1)"
    and "rr_polled (relay i p) \<Longrightarrow> ri_poll i = Inr (Some e) \<Longrightarrow>
      ep_l1_number e \<in> held_numbers (rr_pump (relay i p))
      \<or> (\<exists>c. pump_confirmed (rr_pump (relay i p)) = Some c \<and> ep_l1_number e \<le> c)"
    and "rr_accepted (relay i p) = Some x \<Longrightarrow> e \<in> set (pump_unconfirmed (rr_pump (relay i p))) \<Longrightarrow>
      ep_l1_number e < ep_l1_number x \<Longrightarrow> e \<in> offered_prefix p"
proof -
  let ?s = "take_signals (ri_now i) (ri_signals i) p"
  obtain p1 res polled where fil: "fill (ri_now i) (ri_poll i) ?s = (res, polled, p1)"
    and polled: "rr_polled (relay i p) = polled"
    and out: "(rr_accepted (relay i p) = None \<and> rr_pump (relay i p) = p1)
     \<or> (\<exists>e. rr_accepted (relay i p) = Some e \<and> to_offer p1 = Some e
          \<and> rr_pump (relay i p) = p1\<lparr>pump_next := pump_next p1 + 1\<rparr>)"
    by (rule relay_cases)
  note sig = take_signals_effect [OF assms, of "ri_now i" "ri_signals i"]
  note fl = fill_effect [OF conjunct1 [OF sig] fil]
  have U: "pump_unconfirmed (rr_pump (relay i p)) = pump_unconfirmed p1"
    "pump_confirmed (rr_pump (relay i p)) = pump_confirmed p1"
    using out by auto
  have pre: "offered_prefix p1 \<subseteq> offered_prefix p" using fl(2) sig by (meson subset_trans)
  show "pump_inv (rr_pump (relay i p))"
    using out fl(1) to_offer_Some(1) [of p1] by (auto simp: pump_inv_def)
  show "offered_prefix (rr_pump (relay i p)) \<subseteq> offered_prefix p \<union> set_option (rr_accepted (relay i p))"
  proof (cases "rr_accepted (relay i p)")
    case None
    then show ?thesis using out pre by simp
  next
    case (Some x)
    then have "to_offer p1 = Some x" "rr_pump (relay i p) = p1\<lparr>pump_next := pump_next p1 + 1\<rparr>"
      using out by simp_all
    then show ?thesis
      using to_offer_Some [of p1 x] pre Some by (simp add: take_Suc_conv_app_nth subset_insertI2)
  qed
  show "e \<in> set (pump_unconfirmed (rr_pump (relay i p)))
      \<or> (\<exists>o1. Confirmed o1 \<in> set (ri_signals i) \<and> ep_l1_number e \<le> o1)"
    if "e \<in> set (pump_unconfirmed p)"
    using that sig fl(3) unfolding U by (meson subset_iff)
  show "ep_l1_number e \<in> held_numbers (rr_pump (relay i p))
      \<or> (\<exists>c. pump_confirmed (rr_pump (relay i p)) = Some c \<and> ep_l1_number e \<le> c)"
    if "rr_polled (relay i p)" "ri_poll i = Inr (Some e)"
    using fl(4) [of e] that polled unfolding U by simp
  show "e \<in> offered_prefix p"
    if acc: "rr_accepted (relay i p) = Some x" and e: "e \<in> set (pump_unconfirmed (rr_pump (relay i p)))"
      and less: "ep_l1_number e < ep_l1_number x"
  proof -
    have x: "pump_next p1 < length (pump_unconfirmed p1)" "pump_unconfirmed p1 ! pump_next p1 = x"
      using out acc to_offer_Some [of p1 x] by simp_all
    obtain j where j: "j < length (pump_unconfirmed p1)" "pump_unconfirmed p1 ! j = e"
      using e unfolding U by (auto simp: in_set_conv_nth)
    have srt: "sorted_wrt (<) (map ep_l1_number (pump_unconfirmed p1))"
      using fl(1) by (simp add: pump_inv_def)
    have "j < pump_next p1"
      using less j x sorted_wrt_nth_less [OF srt, of "pump_next p1" j]
      by (cases j "pump_next p1" rule: linorder_cases) auto
    then have "e \<in> offered_prefix p1" using j by (auto simp: in_set_conv_nth)
    then show ?thesis using pre by blast
  qed
qed

section \<open>Runs of the lane\<close>

definition pump_run_step :: "RelayInput \<Rightarrow> EpochPump \<Rightarrow> EpochPump" where
  "pump_run_step i p = rr_pump (relay i p)"

definition pump_run_out :: "RelayInput \<Rightarrow> EpochPump \<Rightarrow> EpochRecord list" where
  "pump_run_out i p = (case rr_accepted (relay i p) of None \<Rightarrow> [] | Some e \<Rightarrow> [e])"

interpretation epoch_lane: invariant_machine pump_run_step "\<lambda>_ _. True" pump_inv
  by unfold_locales (simp add: pump_run_step_def relay_effect(1))

lemma pump_run_inv: "pump_inv p \<Longrightarrow> pump_inv (fold pump_run_step is p)"
  by (rule epoch_lane.run_inv [OF _ admissible_True])

lemma pump_run_prefix:
  assumes "pump_inv p"
  shows "offered_prefix (fold pump_run_step is p)
    \<subseteq> offered_prefix p \<union> set (outputs pump_run_step pump_run_out is p)"
  using assms
proof (induction "is" arbitrary: p)
  case (Cons i "is")
  let ?p = "pump_run_step i p"
  have "set (pump_run_out i p) = set_option (rr_accepted (relay i p))"
    by (cases "rr_accepted (relay i p)") (simp_all add: pump_run_out_def)
  then have "offered_prefix ?p \<subseteq> offered_prefix p \<union> set (pump_run_out i p)"
    using relay_effect(2) [OF Cons.prems, of i] by (simp add: pump_run_step_def)
  moreover have "offered_prefix (fold pump_run_step is ?p)
      \<subseteq> offered_prefix ?p \<union> set (outputs pump_run_step pump_run_out is ?p)"
    by (rule Cons.IH) (simp add: pump_run_step_def relay_effect(1) [OF Cons.prems])
  ultimately have "offered_prefix (fold pump_run_step is ?p)
      \<subseteq> offered_prefix p \<union> (set (pump_run_out i p) \<union> set (outputs pump_run_step pump_run_out is ?p))"
    by blast
  then show ?case by simp
qed simp

text \<open>
  C10. The lane never skips an epoch. Whatever the boundaries, the gap answers, the subscription and
  the publisher do: when the publisher accepts an epoch, every epoch of a lower L1 block that the
  lane still holds was accepted before it.
\<close>
theorem pump_never_skips:
  assumes "rr_accepted (relay i (fold pump_run_step is (pump_new g))) = Some x"
    and "e \<in> set (pump_unconfirmed (rr_pump (relay i (fold pump_run_step is (pump_new g)))))"
    and "ep_l1_number e < ep_l1_number x"
  shows "e \<in> set (outputs pump_run_step pump_run_out is (pump_new g))"
proof -
  let ?p = "fold pump_run_step is (pump_new g)"
  have "e \<in> offered_prefix ?p"
    by (rule relay_effect(5) [OF pump_run_inv [OF pump_inv_new] assms])
  then have "e \<in> offered_prefix (pump_new g) \<union> set (outputs pump_run_step pump_run_out is (pump_new g))"
    by (rule subsetD [OF pump_run_prefix [OF pump_inv_new]])
  then show ?thesis by (simp add: pump_new_def)
qed

definition epoch :: "u64 \<Rightarrow> EpochRecord" where
  "epoch n = \<lparr>ep_l1_number = n, ep_l1_hash = ucast n, ep_deposits = []\<rparr>"

definition quiet_input :: "EpochRecord option \<Rightarrow> RelayInput" where
  "quiet_input r = \<lparr>ri_now = 0, ri_signals = [], ri_poll = Inr r, ri_publish = (\<lambda>_. None)\<rparr>"

theorem pump_never_skips_witness:
  "epoch 5 \<in> set (outputs pump_run_step pump_run_out [quiet_input (Some (epoch 5))] (pump_new 9))"
proof (rule pump_never_skips [where x = "epoch 6" and i = "quiet_input (Some (epoch 6))"])
  show "rr_accepted (relay (quiet_input (Some (epoch 6)))
      (fold pump_run_step [quiet_input (Some (epoch 5))] (pump_new 9))) = Some (epoch 6)"
    by (simp add: pump_run_step_def relay_def quiet_input_def take_signals_def fill_def to_offer_def
        pump_new_def pump_insert_def binary_search_by_key_def partition_point_def epoch_def Let_def)
  show "epoch 5 \<in> set (pump_unconfirmed (rr_pump (relay (quiet_input (Some (epoch 6)))
      (fold pump_run_step [quiet_input (Some (epoch 5))] (pump_new 9)))))"
    by (simp add: pump_run_step_def relay_def quiet_input_def take_signals_def fill_def to_offer_def
        pump_new_def pump_insert_def binary_search_by_key_def partition_point_def epoch_def Let_def)
  show "ep_l1_number (epoch 5) < ep_l1_number (epoch 6)" by (simp add: epoch_def)
qed

text \<open>
  C26. No epoch is lost. An epoch that the lane took off the subscription stays held until a boundary
  confirms an origin at or past it, over every step.
\<close>
theorem pump_keeps_until_confirmed:
  assumes "pump_inv p"
  shows "(rr_polled (relay i p) \<and> ri_poll i = Inr (Some e) \<longrightarrow>
      ep_l1_number e \<in> held_numbers (rr_pump (relay i p))
      \<or> (\<exists>c. pump_confirmed (rr_pump (relay i p)) = Some c \<and> ep_l1_number e \<le> c))
    \<and> (e \<in> set (pump_unconfirmed p) \<longrightarrow> e \<in> set (pump_unconfirmed (rr_pump (relay i p)))
      \<or> (\<exists>c. Confirmed c \<in> set (ri_signals i) \<and> ep_l1_number e \<le> c))"
proof (intro conjI impI)
  assume "rr_polled (relay i p) \<and> ri_poll i = Inr (Some e)"
  then show "ep_l1_number e \<in> held_numbers (rr_pump (relay i p))
      \<or> (\<exists>c. pump_confirmed (rr_pump (relay i p)) = Some c \<and> ep_l1_number e \<le> c)"
    by (intro relay_effect(4) [OF assms]) simp_all
next
  assume "e \<in> set (pump_unconfirmed p)"
  then show "e \<in> set (pump_unconfirmed (rr_pump (relay i p)))
      \<or> (\<exists>c. Confirmed c \<in> set (ri_signals i) \<and> ep_l1_number e \<le> c)"
    by (rule relay_effect(3) [OF assms])
qed

theorem pump_keeps_until_confirmed_witness:
  "epoch 5 \<in> set (pump_unconfirmed (rr_pump (relay (quiet_input None)
     ((pump_new 9)\<lparr>pump_unconfirmed := [epoch 5]\<rparr>))))"
proof -
  have "pump_inv ((pump_new 9)\<lparr>pump_unconfirmed := [epoch 5]\<rparr>)"
    by (simp add: pump_inv_def pump_new_def)
  from pump_keeps_until_confirmed [OF this, of "quiet_input None" "epoch 5"] show ?thesis
    by (simp add: quiet_input_def)
qed



text \<open>
  A gap answer that names a held epoch sends the lane back to it: the gap is not held against the
  lane, no epoch below the expected one is offered again that was before the cursor, and when the
  cursor was past the expected epoch, that epoch is the next one offered.
\<close>
theorem gap_resends_from_expected:
  assumes "pump_inv p" and "e \<in> set (pump_unconfirmed p)" and "ep_l1_number e = expected"
  shows "pump_missing (pump_rewind now expected p) = None
    \<and> (\<exists>x. to_offer (pump_rewind now expected p) = Some x \<and> ep_l1_number x \<le> expected
         \<and> (e \<in> offered_prefix p \<longrightarrow> x = e))"
proof -
  let ?U = "pump_unconfirmed p" and ?r = "pump_rewind now expected p"
  let ?at = "partition_point (\<lambda>x. ep_l1_number x < expected) ?U"
  let ?k = "min (pump_next p) ?at"
  have srt: "sorted_wrt (<) (map ep_l1_number ?U)" using assms(1) by (simp add: pump_inv_def)
  note eff = pump_rewind_effect [OF srt, of now expected]
  have inj: "i = j" if "i < length ?U" "j < length ?U" "ep_l1_number (?U ! i) = ep_l1_number (?U ! j)" for i j
    using that sorted_wrt_nth_less [OF srt, of i j] sorted_wrt_nth_less [OF srt, of j i]
    by (cases i j rule: linorder_cases) simp_all
  have at: "?at < length ?U" "ep_l1_number (?U ! ?at) = expected"
    using search_spec [OF srt, of expected] assms(2,3) by blast+
  have none: "pump_missing ?r = None" using eff(4) assms(2,3) by auto
  have k: "?k < length ?U" using at(1) by (simp add: min.strict_coboundedI2)
  then have offer: "to_offer ?r = Some (?U ! ?k)" using none eff(1,3) by (simp add: to_offer_def)
  have "ep_l1_number (?U ! ?k) \<le> expected"
  proof (cases "?k = ?at")
    case True
    then show ?thesis using at(2) by simp
  next
    case False
    then have "?k < ?at" by simp
    from sorted_wrt_nth_less [OF srt this] show ?thesis using at k by simp
  qed
  moreover have "?U ! ?k = e" if pre: "e \<in> offered_prefix p"
  proof -
    obtain j where j: "j < pump_next p" "j < length ?U" "?U ! j = e"
      using pre by (auto simp: in_set_conv_nth)
    then have "j = ?at" using inj [of j ?at] at assms(3) by simp
    then show ?thesis using j by (simp add: min_def)
  qed
  ultimately show ?thesis using none offer by blast
qed

theorem gap_resends_from_expected_witness:
  "to_offer (pump_rewind 3 6 ((pump_new 9)\<lparr>pump_unconfirmed := [epoch 5, epoch 6, epoch 7], pump_next := 3\<rparr>))
   = Some (epoch 6)"
proof -
  let ?p = "(pump_new 9)\<lparr>pump_unconfirmed := [epoch 5, epoch 6, epoch 7], pump_next := 3\<rparr>"
  have "pump_inv ?p" by (simp add: pump_inv_def pump_new_def epoch_def)
  moreover have "epoch 6 \<in> offered_prefix ?p" by simp
  ultimately show ?thesis
    using gap_resends_from_expected [of ?p "epoch 6" 6 3] by (auto simp: epoch_def)
qed

text \<open>
  The lane reports honestly and stays bounded: it never holds more than its bound, says the queue
  is full only when it is, and reports an unfilled gap only for an origin that it neither holds nor
  has confirmed and that stood for the grace.
\<close>
theorem pump_errors_sound:
  assumes "pump_inv p" and "fill now (Inr r) p = (res, polled, p')"
  shows "length (pump_unconfirmed p') \<le> MAX_UNCONFIRMED_EPOCHS
    \<and> (\<forall>n oldest. res = Inl (EpochQueueFull n oldest) \<longrightarrow>
         n = MAX_UNCONFIRMED_EPOCHS \<and> length (pump_unconfirmed p) = n)
    \<and> (\<forall>x. res = Inl (OriginGapUnfilled x) \<longrightarrow> x \<notin> held_numbers p'
         \<and> (\<forall>c. pump_confirmed p' = Some c \<longrightarrow> c < x)
         \<and> (\<exists>gap. pump_missing p' = Some gap \<and> gap_expected gap = x \<and> pump_grace p' \<le> now - gap_since gap))"
proof -
  have inv: "pump_inv p'" by (rule fill_effect(1) [OF assms])
  have "length (pump_unconfirmed p) = n \<and> MAX_UNCONFIRMED_EPOCHS \<le> n"
    if "res = Inl (EpochQueueFull n oldest)" for n oldest
    using assms(2) that by (auto simp: fill_def Let_def split: if_splits option.splits)
  moreover have "\<exists>gap. pump_missing p' = Some gap \<and> gap_expected gap = x \<and> pump_grace p' \<le> now - gap_since gap"
    if "res = Inl (OriginGapUnfilled x)" for x
    using assms(2) that by (auto simp: fill_def Let_def split: if_splits option.splits)
  moreover have "length (pump_unconfirmed p') \<le> MAX_UNCONFIRMED_EPOCHS"
    "length (pump_unconfirmed p) \<le> MAX_UNCONFIRMED_EPOCHS"
    using inv assms(1) by (simp_all add: pump_inv_def)
  moreover have "gap_expected g \<notin> held_numbers p' \<and> (\<forall>c. pump_confirmed p' = Some c \<longrightarrow> c < gap_expected g)"
    if "pump_missing p' = Some g" for g
    using inv that by (simp add: pump_inv_def)
  ultimately show ?thesis by fastforce
qed

theorem pump_errors_sound_witness:
  "length (pump_unconfirmed (snd (snd (fill 0 (Inr (Some (epoch 5))) (pump_new 9))))) \<le> MAX_UNCONFIRMED_EPOCHS"
  using pump_errors_sound [OF pump_inv_new, of 0 "Some (epoch 5)" 9
      "fst (fill 0 (Inr (Some (epoch 5))) (pump_new 9))"
      "fst (snd (fill 0 (Inr (Some (epoch 5))) (pump_new 9)))"
      "snd (snd (fill 0 (Inr (Some (epoch 5))) (pump_new 9)))"] by simp

section \<open>The one-slot pump loses nothing under backpressure\<close>

text \<open>
  A record that meets back-pressure is the one offered by the next step, without a poll; any
  other outcome frees the slot. So a blocked transport delays the remote lane and loses no record.
\<close>
theorem pump_step_retries:
  assumes "pump_step polled publish held = (Inl Backpressure, out, held')"
    and "\<forall>e. polled \<noteq> Inl e"
  shows "\<exists>pos r. held' = Some (pos, r) \<and> (held = Some (pos, r) \<or> held = None \<and> polled = Inr (Some (pos, r)))
    \<and> pump_step polled' (\<lambda>_. None) held' = (Inr True, Some r, None)"
  using assms by (auto simp: pump_step_def split: option.splits sum.splits if_splits prod.splits)

theorem pump_step_retries_witness:
  "pump_step (Inr (Some (BPosition 0 1, ''a''))) (\<lambda>_. Some Backpressure) None
     = (Inl Backpressure, None, Some (BPosition 0 1, ''a''))
   \<and> (\<exists>pos r. Some (BPosition 0 1, ''a'') = Some (pos, r)
     \<and> pump_step (Inr None) (\<lambda>_. None) (Some (BPosition 0 1, ''a'')) = (Inr True, Some r, None))"
proof -
  have "pump_step (Inr (Some (BPosition 0 1, ''a''))) (\<lambda>_. Some Backpressure) None
     = (Inl Backpressure, None, Some (BPosition 0 1, ''a''))"
    by (simp add: pump_step_def)
  from pump_step_retries [OF this, of "Inr None"] this show ?thesis by auto
qed

end
