(* ===== verification/Admission_Sender.thy ===== *)
theory Admission_Sender
  imports Prelude "HOL-Library.Multiset"
begin

text \<open>
  \<open>crates/sequencer/src/admission/sender.rs\<close>, with the data of \<open>admission/mod.rs\<close> that it
  works on: the admission state of one sender, its forwarded run and its parked transactions.

  The output vector that the methods extend is the list of verdicts that a call appends, next
  to its result and the new state. The \<open>NonZero\<close> limits are natural numbers and words; the
  lemmas that need them positive say so. The words wrap, as they do in the release build.
  The loops \<open>while self.confirm_one(..) {}\<close> and \<open>while self.release_one(..) {}\<close> are the functions
  \<open>confirm_run\<close> and \<open>release_run\<close>.
\<close>

section \<open>Data\<close>

record AdmissionConfig =
  ac_max_parked :: nat
  ac_max_forwarded :: nat
  ac_loss_blocks :: u64
  ac_park_width :: u64
  ac_park_ttl :: duration
  ac_relook_after :: duration
  ac_max_senders :: nat

record AccountState =
  ast_nonce :: u64
  ast_balance :: u256
  ast_delegated :: bool
  ast_tx_idx :: u64

definition is_newer_than :: "AccountState \<Rightarrow> AccountState \<Rightarrow> bool" where
  "is_newer_than st held \<longleftrightarrow>
     ast_tx_idx held < ast_tx_idx st \<or>
     (ast_tx_idx st = 0 \<and> ast_tx_idx held = 0 \<and> ast_nonce held < ast_nonce st)"

record ImagePos =
  ip_lane :: u8
  ip_session :: i32
  ip_unit :: u64

record 't Candidate =
  cd_sender :: address
  cd_nonce :: u64
  cd_tx_hash :: b256
  cd_cost :: u256
  cd_image :: ImagePos
  cd_ingress :: u16
  cd_answered :: bool
  cd_payload :: 't

record Ack =
  ack_ingress :: u16
  ack_sender :: address
  ack_nonce :: u64
  ack_tx_hash :: b256

definition answer :: "'t Candidate \<Rightarrow> Ack option \<times> 't Candidate" where
  "answer c =
     (if cd_answered c then None
      else Some \<lparr>ack_ingress = cd_ingress c, ack_sender = cd_sender c,
                 ack_nonce = cd_nonce c, ack_tx_hash = cd_tx_hash c\<rparr>,
      c\<lparr>cd_answered := True\<rparr>)"

datatype Refusal =
    NonceTooLow u64
  | InsufficientFunds u256 u256
  | TooManyPending u64
  | InFlight u64
  | Expired u64

datatype 't Verdict =
    Forward "'t Candidate"
  | Reject "'t Candidate" Refusal
  | Lookup address
  | Accept Ack

record Forwarded =
  fw_cost :: u256

datatype Answer = AcceptNow | Wait

record 't SenderState =
  ss_state :: "AccountState option"
  ss_asked :: bool
  ss_from_lookup :: bool
  ss_relook_due :: bool
  ss_first :: u64
  ss_forwarded :: "Forwarded list"
  ss_spend :: u256
  ss_parked :: "(u64, 't Candidate) btree_map"

definition ss_default :: "'t SenderState" where
  "ss_default = \<lparr>ss_state = None, ss_asked = False, ss_from_lookup = False, ss_relook_due = False,
     ss_first = 0, ss_forwarded = [], ss_spend = 0, ss_parked = []\<rparr>"

section \<open>Operations\<close>

definition ss_next_nonce :: "AccountState \<Rightarrow> 't SenderState \<Rightarrow> u64" where
  "ss_next_nonce st s =
     (if ss_forwarded s = [] then ast_nonce st
      else ss_first s + of_nat (length (ss_forwarded s)))"

definition expected_nonce :: "'t SenderState \<Rightarrow> u64" where
  "expected_nonce s = (case ss_state s of None \<Rightarrow> 0 | Some st \<Rightarrow> ss_next_nonce st s)"

definition holds_forwarded :: "u64 \<Rightarrow> 't SenderState \<Rightarrow> bool" where
  "holds_forwarded nonce s \<longleftrightarrow>
     ss_first s \<le> nonce \<and> nonce - ss_first s < of_nat (length (ss_forwarded s))"

definition confirm_one :: "u64 \<Rightarrow> 't SenderState \<Rightarrow> bool \<times> 't SenderState" where
  "confirm_one chain_nonce s =
     (if ss_forwarded s = [] \<or> chain_nonce \<le> ss_first s then (False, s)
      else
        let cost = (case ss_forwarded s of [] \<Rightarrow> 0 | f # _ \<Rightarrow> fw_cost f)
        in (True, s\<lparr>ss_forwarded := tl (ss_forwarded s),
                    ss_spend := saturating_sub (ss_spend s) cost,
                    ss_first := ss_first s + 1\<rparr>))"

lemma confirm_one_shrinks:
  "confirm_one n s = (True, s') \<Longrightarrow> length (ss_forwarded s') < length (ss_forwarded s)"
  by (auto simp: confirm_one_def Let_def split: if_splits)

function confirm_run :: "u64 \<Rightarrow> 't SenderState \<Rightarrow> 't SenderState" where
  "confirm_run chain_nonce s =
     (case confirm_one chain_nonce s of
        (True, s') \<Rightarrow> confirm_run chain_nonce s'
      | (False, s') \<Rightarrow> s')"
  by pat_completeness auto
termination
  by (relation "measure (\<lambda>(_, s). length (ss_forwarded s))") (auto dest: sym confirm_one_shrinks)

definition park :: "'t Candidate \<Rightarrow> Answer \<Rightarrow> AdmissionConfig \<Rightarrow> 't SenderState
    \<Rightarrow> bool \<times> 't Verdict list \<times> 't SenderState" where
  "park c ans cfg s =
     (let expected = expected_nonce s in
      if contains_key (ss_parked s) (cd_nonce c) then
        (False, [Reject c (InFlight expected)], s)
      else if ac_max_parked cfg \<le> length (ss_parked s) then
        (False, [Reject c (TooManyPending expected)], s)
      else
        let (ack, c') = (if ans = AcceptNow then answer c else (None, c))
        in (True, (case ack of None \<Rightarrow> [] | Some a \<Rightarrow> [Accept a]),
            s\<lparr>ss_parked := bt_insert (cd_nonce c') c' (ss_parked s)\<rparr>))"

definition park_for_lookup :: "'t Candidate \<Rightarrow> AdmissionConfig \<Rightarrow> 't SenderState
    \<Rightarrow> bool \<times> 't Verdict list \<times> 't SenderState" where
  "park_for_lookup c cfg s =
     (let sender = cd_sender c; (parked, out, s') = park c Wait cfg s in
      if parked \<and> \<not> ss_asked s' then (parked, out @ [Lookup sender], s'\<lparr>ss_asked := True\<rparr>)
      else (parked, out, s'))"

definition busy :: "AccountState \<Rightarrow> AdmissionConfig \<Rightarrow> 't SenderState \<Rightarrow> bool" where
  "busy st cfg s \<longleftrightarrow>
     ac_max_forwarded cfg \<le> length (ss_forwarded s) \<or> (ast_delegated st \<and> ss_forwarded s \<noteq> [])"

definition forward_or_park :: "'t Candidate \<Rightarrow> AccountState \<Rightarrow> AdmissionConfig \<Rightarrow> 't SenderState
    \<Rightarrow> bool \<times> 't Verdict list \<times> 't SenderState" where
  "forward_or_park c st cfg s =
     (if busy st cfg s then park c AcceptNow cfg s
      else
        let available = saturating_sub (ast_balance st) (ss_spend s) in
        if available < cd_cost c then
          (False, [Reject c (InsufficientFunds available (cd_cost c))], s)
        else
          (False, [Forward c],
           s\<lparr>ss_first := (if ss_forwarded s = [] then cd_nonce c else ss_first s),
             ss_forwarded := ss_forwarded s @ [\<lparr>fw_cost = cd_cost c\<rparr>],
             ss_spend := saturating_add (ss_spend s) (cd_cost c)\<rparr>))"

definition release_one :: "AdmissionConfig \<Rightarrow> 't SenderState
    \<Rightarrow> bool \<times> 't Verdict list \<times> 't SenderState" where
  "release_one cfg s =
     (case ss_state s of
        None \<Rightarrow> (False, [], s)
      | Some st \<Rightarrow>
          let nxt = ss_next_nonce st s in
          if busy st cfg s \<or> (case first_entry (ss_parked s) of None \<Rightarrow> True | Some (n, _) \<Rightarrow> n \<noteq> nxt)
          then (False, [], s)
          else case ss_parked s of
              [] \<Rightarrow> (False, [], s)
            | (_, c) # rest \<Rightarrow>
                let before = length (ss_forwarded s);
                    (_, out, s') = forward_or_park c st cfg (s\<lparr>ss_parked := rest\<rparr>)
                in (before < length (ss_forwarded s'), out, s'))"

lemma release_one_shrinks:
  "release_one cfg s = (True, out, s') \<Longrightarrow> length (ss_parked s') < length (ss_parked s)"
  by (auto simp: release_one_def forward_or_park_def busy_def Let_def
      split: option.splits list.splits if_splits)

function release_run :: "AdmissionConfig \<Rightarrow> 't SenderState \<Rightarrow> 't Verdict list \<times> 't SenderState" where
  "release_run cfg s =
     (case release_one cfg s of
        (True, out, s') \<Rightarrow> (let (out', s'') = release_run cfg s' in (out @ out', s''))
      | (False, out, s') \<Rightarrow> (out, s'))"
  by pat_completeness auto
termination
  by (relation "measure (\<lambda>(_, s). length (ss_parked s))") (auto dest: sym release_one_shrinks)

declare confirm_run.simps [simp del] release_run.simps [simp del]

definition ss_offer :: "'t Candidate \<Rightarrow> AdmissionConfig \<Rightarrow> 't SenderState
    \<Rightarrow> bool \<times> 't Verdict list \<times> 't SenderState" where
  "ss_offer c cfg s =
     (case ss_state s of
        None \<Rightarrow> park_for_lookup c cfg s
      | Some st \<Rightarrow>
          if cd_nonce c < ast_nonce st then (False, [Reject c (NonceTooLow (ast_nonce st))], s)
          else
            let nxt = ss_next_nonce st s in
            if cd_nonce c < nxt then (False, [Reject c (InFlight nxt)], s)
            else if nxt < cd_nonce c then park c AcceptNow cfg s
            else
              let (parked, out, s1) = forward_or_park c st cfg s;
                  (out', s2) = release_run cfg s1
              in (parked, out @ out', s2))"

definition accept_parked :: "'t SenderState \<Rightarrow> 't Verdict list \<times> 't SenderState" where
  "accept_parked s =
     (map Accept (List.map_filter (\<lambda>(_, c). fst (answer c)) (ss_parked s)),
      s\<lparr>ss_parked := map (\<lambda>(n, c). (n, snd (answer c))) (ss_parked s)\<rparr>)"

definition ss_on_state :: "AccountState \<Rightarrow> bool \<Rightarrow> AdmissionConfig \<Rightarrow> 't SenderState
    \<Rightarrow> 't Verdict list \<times> 't SenderState" where
  "ss_on_state st from_lookup cfg s =
     (let s = (if from_lookup then s\<lparr>ss_asked := False\<rparr> else s) in
      if (case ss_state s of None \<Rightarrow> False | Some held \<Rightarrow> \<not> is_newer_than st held) then ([], s)
      else
        let s1 = confirm_run (ast_nonce st)
                   (s\<lparr>ss_state := Some st, ss_from_lookup := from_lookup, ss_asked := False\<rparr>);
            below = entries_below (ast_nonce st) (ss_parked s1);
            s2 = s1\<lparr>ss_parked := entries_from (ast_nonce st) (ss_parked s1)\<rparr>;
            out1 = map (\<lambda>(_, c). Reject c (NonceTooLow (ast_nonce st))) below;
            (out2, s3) = release_run cfg s2;
            (out3, s4) = accept_parked s3
        in (out1 @ out2 @ out3, s4))"

definition ss_on_lost :: "u64 \<Rightarrow> AdmissionConfig \<Rightarrow> 't SenderState
    \<Rightarrow> bool \<times> 't Verdict list \<times> 't SenderState" where
  "ss_on_lost nonce cfg s =
     (if \<not> holds_forwarded nonce s then (False, [], s)
      else
        let (out, s') = release_run cfg (s\<lparr>ss_forwarded := [], ss_spend := 0\<rparr>)
        in (True, out, s'))"

definition unpark :: "u64 \<Rightarrow> u64 \<Rightarrow> 't SenderState \<Rightarrow> 't Candidate option \<times> 't SenderState" where
  "unpark nonce unit s =
     (let held = (case map_of (ss_parked s) nonce of
                    None \<Rightarrow> False
                  | Some c \<Rightarrow> ip_unit (cd_image c) = unit)
      in if held then (map_of (ss_parked s) nonce, s\<lparr>ss_parked := map_remove nonce (ss_parked s)\<rparr>)
         else (None, s))"

definition waits_on_lookup_gap :: "'t SenderState \<Rightarrow> bool" where
  "waits_on_lookup_gap s \<longleftrightarrow>
     ss_from_lookup s \<and> ss_forwarded s = [] \<and>
     (case (ss_state s, first_entry (ss_parked s)) of
        (Some st, Some (nonce, _)) \<Rightarrow> ast_nonce st < nonce
      | _ \<Rightarrow> False)"

definition ss_queue_relook :: "'t SenderState \<Rightarrow> bool \<times> 't SenderState" where
  "ss_queue_relook s = (\<not> ss_relook_due s, s\<lparr>ss_relook_due := True\<rparr>)"

definition ss_relook :: "'t SenderState \<Rightarrow> bool \<times> 't SenderState" where
  "ss_relook s =
     (let s = s\<lparr>ss_relook_due := False\<rparr>; ask = waits_on_lookup_gap s \<and> \<not> ss_asked s
      in (ask, s\<lparr>ss_asked := (ss_asked s \<or> ask)\<rparr>))"

definition forget_state :: "'t SenderState \<Rightarrow> 't SenderState" where
  "forget_state s = s\<lparr>ss_state := None, ss_asked := False\<rparr>"

definition is_idle :: "'t SenderState \<Rightarrow> bool" where
  "is_idle s \<longleftrightarrow> ss_forwarded s = [] \<and> ss_parked s = []"

section \<open>Conservation of candidates\<close>

text \<open>
  A candidate up to the mark that its client has an answer, the candidates that a state holds,
  and those that a list of verdicts decides.
\<close>

definition plain :: "'t Candidate \<Rightarrow> 't Candidate" where
  "plain c = c\<lparr>cd_answered := True\<rparr>"

definition ss_held :: "'t SenderState \<Rightarrow> 't Candidate multiset" where
  "ss_held s = mset (map (plain \<circ> snd) (ss_parked s))"

fun settled :: "'t Verdict list \<Rightarrow> 't Candidate list" where
  "settled [] = []"
| "settled (Forward c # vs) = plain c # settled vs"
| "settled (Reject c _ # vs) = plain c # settled vs"
| "settled (Lookup _ # vs) = settled vs"
| "settled (Accept _ # vs) = settled vs"

lemma settled_append [simp]: "settled (vs @ ws) = settled vs @ settled ws"
  by (induction vs rule: settled.induct) auto

lemma settled_accepts [simp]: "settled (map Accept acks) = []"
  by (induction acks) auto

lemma settled_rejects [simp]: "settled (map (\<lambda>(n, c). Reject c (f n c)) m) = map (plain \<circ> snd) m"
  by (induction m) auto

lemma plain_answer [simp]: "plain (snd (answer c)) = plain c"
  by (simp add: plain_def answer_def)

lemma cd_nonce_answer [simp]: "cd_nonce (snd (answer c)) = cd_nonce c"
  by (simp add: answer_def)

lemma mset_bt_insert_new:
  "k \<notin> set (keys m) \<Longrightarrow> mset (bt_insert k v m) = add_mset (k, v) (mset m)"
  by (induction m) auto

lemma mset_map_remove:
  "distinct (keys m) \<Longrightarrow> map_of m k = Some v \<Longrightarrow> mset m = add_mset (k, v) (mset (map_remove k m))"
proof (induction m)
  case (Cons e m)
  show ?case
  proof (cases "fst e = k")
    case True
    with Cons.prems have "map_remove k m = m" by (intro map_remove_absent) auto
    with True Cons.prems show ?thesis by (cases e) (simp add: map_remove_def)
  next
    case False
    with Cons show ?thesis by (cases e) (auto simp: map_remove_def)
  qed
qed simp

lemma mset_split_at: "mset (entries_below k m) + mset (entries_from k m) = mset m"
  by (simp add: entries_below_def entries_from_def not_le [symmetric])

lemma park_conserves:
  assumes "park c ans cfg s = (parked, out, s')"
  shows "mset (settled out) + ss_held s' = add_mset (plain c) (ss_held s)"
proof (cases "contains_key (ss_parked s) (cd_nonce c) \<or> ac_max_parked cfg \<le> length (ss_parked s)")
  case True
  with assms show ?thesis by (auto simp: park_def Let_def split: if_splits)
next
  case False
  then have "cd_nonce c \<notin> set (keys (ss_parked s))" by (simp add: contains_key_iff)
  from mset_bt_insert_new [OF this] False assms show ?thesis
    by (auto simp: park_def Let_def ss_held_def answer_def plain_def split: if_splits)
qed

lemma forward_or_park_conserves:
  assumes "forward_or_park c st cfg s = (parked, out, s')"
  shows "mset (settled out) + ss_held s' = add_mset (plain c) (ss_held s)"
proof (cases "busy st cfg s")
  case True
  with assms show ?thesis by (auto simp: forward_or_park_def intro: park_conserves)
next
  case False
  with assms show ?thesis
    by (auto simp: forward_or_park_def ss_held_def Let_def split: if_splits)
qed

lemma release_one_cases:
  assumes "release_one cfg s = (went, out, s')"
  obtains (stop) "\<not> went" "out = []" "s' = s"
      "\<And>st n c m. ss_state s = Some st \<Longrightarrow> \<not> busy st cfg s \<Longrightarrow> ss_parked s = (n, c) # m \<Longrightarrow>
        n \<noteq> ss_next_nonce st s"
  | (go) st n c rest parked where "ss_state s = Some st" "\<not> busy st cfg s"
      "n = ss_next_nonce st s" "ss_parked s = (n, c) # rest"
      "forward_or_park c st cfg (s\<lparr>ss_parked := rest\<rparr>) = (parked, out, s')"
      "went \<longleftrightarrow> length (ss_forwarded s) < length (ss_forwarded s')"
  using assms
  by (auto simp: release_one_def Let_def first_entry_def
      split: option.splits if_splits list.splits prod.splits)

lemma release_one_conserves:
  assumes "release_one cfg s = (went, out, s')"
  shows "mset (settled out) + ss_held s' = ss_held s"
  using assms
proof (cases rule: release_one_cases)
  case (go st n c rest parked)
  from forward_or_park_conserves [OF go(5)] go(4) show ?thesis by (simp add: ss_held_def)
qed simp

lemma release_run_induct [consumes 1, case_names stop step]:
  assumes "release_run cfg s = (out, s')"
    and "\<And>s out s'. release_one cfg s = (False, out, s') \<Longrightarrow> P s out s'"
    and "\<And>s out1 s1 out2 s2. release_one cfg s = (True, out1, s1) \<Longrightarrow>
      release_run cfg s1 = (out2, s2) \<Longrightarrow> P s1 out2 s2 \<Longrightarrow> P s (out1 @ out2) s2"
  shows "P s out s'"
  using assms(1)
proof (induction "length (ss_parked s)" arbitrary: s out s' rule: less_induct)
  case less
  obtain went out1 s1 where one: "release_one cfg s = (went, out1, s1)" by (metis prod_cases3)
  obtain out2 s2 where run: "release_run cfg s1 = (out2, s2)" by fastforce
  show ?case
  proof (cases went)
    case True
    with one have one: "release_one cfg s = (True, out1, s1)" by simp
    have "P s1 out2 s2" by (rule less.hyps [OF release_one_shrinks [OF one] run])
    then have "P s (out1 @ out2) s2" by (rule assms(3) [OF one run])
    then show ?thesis using less.prems one run by (simp add: release_run.simps [of cfg s])
  next
    case False
    with less.prems one assms(2) show ?thesis by (simp add: release_run.simps [of cfg s])
  qed
qed

lemma release_run_conserves:
  "release_run cfg s = (out, s') \<Longrightarrow> mset (settled out) + ss_held s' = ss_held s"
proof (induction rule: release_run_induct)
  case (step s out1 s1 out2 s2)
  then show ?case using release_one_conserves [OF step(1)] by (simp add: union_assoc)
qed (rule release_one_conserves)

lemma confirm_run_induct [case_names stop step]:
  assumes "\<And>s. ss_forwarded s = [] \<or> n \<le> ss_first s \<Longrightarrow> confirm_run n s = s \<Longrightarrow> P s s"
    and "\<And>s f fs s'. ss_forwarded s = f # fs \<Longrightarrow> ss_first s < n \<Longrightarrow>
      P (s\<lparr>ss_forwarded := fs, ss_spend := saturating_sub (ss_spend s) (fw_cost f),
           ss_first := ss_first s + 1\<rparr>) s' \<Longrightarrow> P s s'"
  shows "P s (confirm_run n s)"
proof (induction "length (ss_forwarded s)" arbitrary: s rule: less_induct)
  case less
  show ?case
  proof (cases "ss_forwarded s = [] \<or> n \<le> ss_first s")
    case True
    then have "confirm_run n s = s" by (simp add: confirm_run.simps [of n s] confirm_one_def)
    with assms(1) [OF True] show ?thesis by simp
  next
    case False
    then obtain f fs where f: "ss_forwarded s = f # fs" "ss_first s < n"
      by (auto simp: neq_Nil_conv)
    let ?s = "s\<lparr>ss_forwarded := fs, ss_spend := saturating_sub (ss_spend s) (fw_cost f),
           ss_first := ss_first s + 1\<rparr>"
    have "confirm_run n s = confirm_run n ?s"
      using f by (simp add: confirm_run.simps [of n s] confirm_one_def)
    moreover have "P ?s (confirm_run n ?s)" by (rule less.hyps) (simp add: f)
    ultimately show ?thesis using assms(2) [OF f] by simp
  qed
qed

lemma confirm_run_frame [simp]:
  "ss_parked (confirm_run n s) = ss_parked s" "ss_state (confirm_run n s) = ss_state s"
  "ss_from_lookup (confirm_run n s) = ss_from_lookup s"
  "ss_asked (confirm_run n s) = ss_asked s" "ss_relook_due (confirm_run n s) = ss_relook_due s"
  by (induction s rule: confirm_run_induct) auto

lemma accept_parked_held [simp]: "ss_held (snd (accept_parked s)) = ss_held s"
  by (auto simp: accept_parked_def ss_held_def intro!: image_mset_cong)

lemma ss_offer_conserves:
  assumes "ss_offer c cfg s = (parked, out, s')"
  shows "mset (settled out) + ss_held s' = add_mset (plain c) (ss_held s)"
proof (cases "ss_state s")
  case None
  obtain p o1 s1 where "park c Wait cfg s = (p, o1, s1)" by (metis prod_cases3)
  with park_conserves [OF this] None assms show ?thesis
    by (auto simp: ss_offer_def park_for_lookup_def ss_held_def Let_def split: if_splits)
next
  case (Some st)
  obtain p o1 s1 o2 s2 where f: "forward_or_park c st cfg s = (p, o1, s1)"
      "release_run cfg s1 = (o2, s2)"
    by (metis prod_cases3 surj_pair)
  have "mset (settled o1) + (mset (settled o2) + ss_held s2) = add_mset (plain c) (ss_held s)"
    using forward_or_park_conserves [OF f(1)] release_run_conserves [OF f(2)] by simp
  then show ?thesis using assms Some park_conserves [of c AcceptNow cfg s]
    by (auto simp: ss_offer_def f Let_def union_assoc split: if_splits)
qed

lemma ss_on_state_conserves:
  assumes "ss_on_state st fl cfg s = (out, s')"
  shows "mset (settled out) + ss_held s' = ss_held s"
proof (cases "case ss_state s of None \<Rightarrow> False | Some held \<Rightarrow> \<not> is_newer_than st held")
  case True
  with assms show ?thesis by (auto simp: ss_on_state_def ss_held_def Let_def split: if_splits)
next
  case False
  define s1 where "s1 = confirm_run (ast_nonce st)
    ((if fl then s\<lparr>ss_asked := False\<rparr> else s)
      \<lparr>ss_state := Some st, ss_from_lookup := fl, ss_asked := False\<rparr>)"
  define s2 where "s2 = s1\<lparr>ss_parked := entries_from (ast_nonce st) (ss_parked s1)\<rparr>"
  obtain o2 s3 where run: "release_run cfg s2 = (o2, s3)" by fastforce
  have out: "out = map (\<lambda>(_, c). Reject c (NonceTooLow (ast_nonce st)))
      (entries_below (ast_nonce st) (ss_parked s1)) @ o2 @ fst (accept_parked s3)"
    and s': "s' = snd (accept_parked s3)"
    using assms False run unfolding s1_def s2_def
    by (auto simp: ss_on_state_def Let_def split: prod.splits if_splits)
  have "settled (fst (accept_parked s3)) = []" by (simp add: accept_parked_def)
  moreover have "ss_parked s1 = ss_parked s" by (simp add: s1_def)
  moreover have "image_mset (plain \<circ> snd) (mset (entries_below (ast_nonce st) (ss_parked s))) + ss_held s2
      = ss_held s"
    by (simp add: ss_held_def s2_def s1_def flip: mset_split_at [of "ast_nonce st" "ss_parked s"])
  ultimately show ?thesis using release_run_conserves [OF run] by (simp add: out s' union_assoc)
qed

lemma ss_on_lost_conserves:
  "ss_on_lost n cfg s = (b, out, s') \<Longrightarrow> mset (settled out) + ss_held s' = ss_held s"
  by (auto simp: ss_on_lost_def ss_held_def Let_def dest!: release_run_conserves
      split: if_splits prod.splits)

section \<open>The run and its cost\<close>

fun forwards :: "'t Verdict list \<Rightarrow> 't Candidate list" where
  "forwards [] = []"
| "forwards (Forward c # vs) = c # forwards vs"
| "forwards (_ # vs) = forwards vs"

lemma forwards_append [simp]: "forwards (vs @ ws) = forwards vs @ forwards ws"
  by (induction vs rule: forwards.induct) auto

lemma forwards_accepts [simp]: "forwards (map Accept acks) = []"
  by (induction acks) auto

lemma forwards_rejects [simp]: "forwards (map (\<lambda>(n, c). Reject c (f n c)) m) = []"
  by (induction m) auto

definition run_cost :: "'t SenderState \<Rightarrow> nat" where
  "run_cost s = sum_list (map (unat \<circ> fw_cost) (ss_forwarded s))"

definition out_cost :: "'t Verdict list \<Rightarrow> nat" where
  "out_cost out = sum_list (map (unat \<circ> cd_cost) (forwards out))"

lemma out_cost_simps [simp]: "out_cost [] = 0" "out_cost (vs @ ws) = out_cost vs + out_cost ws"
  by (simp_all add: out_cost_def)

text \<open>
  The representation invariant: the park is a sorted map keyed by nonce within its bound, the
  run is within its bound, and the spend is exactly the sum of the costs of the run, so the
  saturating addition and subtraction never saturate.
\<close>

definition keyed :: "(u64, 't Candidate) btree_map \<Rightarrow> bool" where
  "keyed m \<longleftrightarrow> bt_inv m \<and> (\<forall>e \<in> set m. cd_nonce (snd e) = fst e)"

definition ss_inv :: "AdmissionConfig \<Rightarrow> 't SenderState \<Rightarrow> bool" where
  "ss_inv cfg s \<longleftrightarrow> keyed (ss_parked s) \<and>
     length (ss_parked s) \<le> ac_max_parked cfg \<and> length (ss_forwarded s) \<le> ac_max_forwarded cfg \<and>
     unat (ss_spend s) = run_cost s"

definition ss_funded :: "'t SenderState \<Rightarrow> bool" where
  "ss_funded s \<longleftrightarrow>
     (case ss_state s of None \<Rightarrow> False | Some st \<Rightarrow> run_cost s \<le> unat (ast_balance st))"

lemma ss_inv_default [simp]: "ss_inv cfg ss_default"
  by (simp add: ss_inv_def ss_default_def run_cost_def keyed_def)

lemma set_bt_insert: "set (bt_insert k v m) \<subseteq> insert (k, v) (set m)"
  by (induction m) auto

lemma fst_set_bt_insert [simp]: "fst ` set (bt_insert k v m) = insert k (fst ` set m)"
  using set_keys_bt_insert [of k v m] by simp

lemma keyed_insert: "keyed m \<Longrightarrow> keyed (bt_insert (cd_nonce c) c m)"
  using set_bt_insert [of "cd_nonce c" c m] by (auto simp: keyed_def)

lemma keyed_filter: "keyed m \<Longrightarrow> keyed (filter P m)"
  by (simp add: keyed_def)

lemma keyed_Cons: "keyed (e # m) \<Longrightarrow> keyed m"
  by (simp add: keyed_def bt_inv_def)

lemma keyed_answered: "keyed m \<Longrightarrow> keyed (map (\<lambda>(n, c). (n, snd (answer c))) m)"
  by (auto simp: keyed_def bt_inv_def comp_def split_beta)

lemma adm_park_effect:
  assumes "park c ans cfg s = (parked, out, s')"
  shows "ss_inv cfg s \<Longrightarrow> ss_inv cfg s'" and "forwards out = []" and "ss_state s' = ss_state s"
    and "ss_forwarded s' = ss_forwarded s" and "ss_first s' = ss_first s"
    and "set (keys (ss_parked s')) = (if parked then insert (cd_nonce c) else id) (set (keys (ss_parked s)))"
proof -
  assume inv: "ss_inv cfg s"
  have "length (ss_parked s) < ac_max_parked cfg \<Longrightarrow>
      length (bt_insert n c' (ss_parked s)) \<le> ac_max_parked cfg" for n c'
    using inv by (simp add: ss_inv_def keyed_def length_bt_insert)
  then have "length (ss_parked s) < ac_max_parked cfg \<Longrightarrow>
      ss_inv cfg (s\<lparr>ss_parked := bt_insert (cd_nonce c') c' (ss_parked s)\<rparr>)" for c'
    using inv by (simp add: ss_inv_def keyed_insert run_cost_def)
  with inv assms show "ss_inv cfg s'"
    by (simp add: park_def Let_def not_le split: if_splits prod.splits) (auto simp: not_less)
qed (use assms in \<open>auto simp: park_def Let_def answer_def split: if_splits simp del: image_insert del: equalityI subsetI\<close>)

text \<open>
  A call that extends the run by the forwards of its output, over an unchanged chain state: the
  run is within the balance when the call forwarded a cost, and a delegated account has one
  forwarded transaction at most.
\<close>

definition one_if_delegated :: "'t SenderState \<Rightarrow> bool" where
  "one_if_delegated s \<longleftrightarrow> (case ss_state s of None \<Rightarrow> False
     | Some st \<Rightarrow> ast_delegated st \<longrightarrow> length (ss_forwarded s) = 1)"

definition grows :: "'t SenderState \<Rightarrow> 't Verdict list \<Rightarrow> 't SenderState \<Rightarrow> bool" where
  "grows s out s' \<longleftrightarrow> ss_state s' = ss_state s \<and> run_cost s' = run_cost s + out_cost out \<and>
     length (ss_forwarded s') = length (ss_forwarded s) + length (forwards out) \<and>
     (forwards out \<noteq> [] \<longrightarrow> one_if_delegated s') \<and> (out_cost out > 0 \<longrightarrow> ss_funded s')"

lemma grows_refl [simp]: "grows s [] s"
  by (simp add: grows_def)

lemma grows_still:
  "forwards out = [] \<Longrightarrow> ss_forwarded s' = ss_forwarded s \<Longrightarrow> ss_state s' = ss_state s \<Longrightarrow> grows s out s'"
  by (simp add: grows_def run_cost_def out_cost_def)

lemma grows_trans:
  assumes "grows s out1 s1" and "grows s1 out2 s2"
  shows "grows s (out1 @ out2) s2"
proof -
  have "one_if_delegated s2" if "forwards out2 = []" "one_if_delegated s1"
    using assms(2) that by (simp add: grows_def one_if_delegated_def split: option.splits)
  moreover have "ss_funded s2" if "out_cost out2 = 0" "ss_funded s1"
    using assms(2) that by (simp add: grows_def ss_funded_def split: option.splits)
  ultimately show ?thesis using assms unfolding grows_def by auto
qed

lemma forward_fits:
  assumes "\<not> saturating_sub (ast_balance st) (ss_spend s) < cd_cost c"
  shows "unat (saturating_add (ss_spend s) (cd_cost c)) = unat (ss_spend s) + unat (cd_cost c)"
    and "0 < unat (cd_cost c) \<longrightarrow> unat (ss_spend s) + unat (cd_cost c) \<le> unat (ast_balance st)"
proof -
  have "unat (cd_cost c) \<le> unat (ast_balance st) - unat (ss_spend s)"
    using assms by (simp add: not_less word_le_nat_alt unat_saturating_sub)
  moreover have "unat (ast_balance st) < 2 ^ 256" "unat (ss_spend s) < 2 ^ 256"
    using unat_bound [of "ast_balance st"] unat_bound [of "ss_spend s"] by simp_all
  ultimately show "unat (saturating_add (ss_spend s) (cd_cost c)) = unat (ss_spend s) + unat (cd_cost c)"
    and "0 < unat (cd_cost c) \<longrightarrow> unat (ss_spend s) + unat (cd_cost c) \<le> unat (ast_balance st)"
    by (simp_all add: unat_saturating_add) linarith+
qed

lemma forward_or_park_effect:
  assumes "forward_or_park c st cfg s = (parked, out, s')" and "ss_inv cfg s"
    and "ss_state s = Some st"
  shows "ss_inv cfg s' \<and> grows s out s'"
proof (cases "busy st cfg s")
  case True
  with assms have "park c AcceptNow cfg s = (parked, out, s')" by (simp add: forward_or_park_def)
  from adm_park_effect [OF this] assms(2,3) show ?thesis
    by (simp add: grows_def run_cost_def out_cost_def)
next
  case free: False
  show ?thesis
  proof (cases "saturating_sub (ast_balance st) (ss_spend s) < cd_cost c")
    case True
    with free assms show ?thesis
      by (auto simp: forward_or_park_def grows_def out_cost_def)
  next
    case False
    from forward_fits [OF this] free False assms show ?thesis
      by (auto simp: forward_or_park_def ss_inv_def run_cost_def out_cost_def
          busy_def ss_funded_def grows_def one_if_delegated_def)
  qed
qed

lemma ss_inv_parked:
  "ss_inv cfg s \<Longrightarrow> keyed m \<Longrightarrow> length m \<le> length (ss_parked s) \<Longrightarrow> ss_inv cfg (s\<lparr>ss_parked := m\<rparr>)"
  by (simp add: ss_inv_def run_cost_def)

lemma grows_parked [simp]: "grows (s\<lparr>ss_parked := m\<rparr>) out s' \<longleftrightarrow> grows s out s'"
  by (simp add: grows_def run_cost_def)

lemma release_one_effect:
  assumes "release_one cfg s = (went, out, s')" and "ss_inv cfg s"
  shows "ss_inv cfg s' \<and> grows s out s'"
  using assms(1)
proof (cases rule: release_one_cases)
  case (go st n c rest parked)
  have "keyed ((n, c) # rest)" using assms(2) go(4) by (simp add: ss_inv_def)
  then have "keyed rest" by (rule keyed_Cons)
  then have "ss_inv cfg (s\<lparr>ss_parked := rest\<rparr>)" using assms(2) go(4) by (simp add: ss_inv_parked)
  from forward_or_park_effect [OF go(5) this] go(1) show ?thesis by simp
qed (use assms(2) in simp)

lemma release_run_effect:
  assumes "release_run cfg s = (out, s')" and "ss_inv cfg s"
  shows "ss_inv cfg s' \<and> grows s out s'"
  using assms
proof (induction rule: release_run_induct)
  case (stop s out s')
  then show ?case by (rule release_one_effect)
next
  case (step s out1 s1 out2 s2)
  then show ?case using release_one_effect [OF step(1,4)] grows_trans by blast
qed

lemma confirm_run_effect: "ss_inv cfg s \<Longrightarrow> ss_inv cfg (confirm_run n s)"
proof (induction s rule: confirm_run_induct)
  case (step s f fs s')
  have "unat (saturating_sub (ss_spend s) (fw_cost f)) = sum_list (map (unat \<circ> fw_cost) fs)"
    using step by (simp add: ss_inv_def run_cost_def unat_saturating_sub)
  with step show ?case by (simp add: ss_inv_def run_cost_def)
qed

lemma accept_parked_frame [simp]:
  "ss_state (snd (accept_parked s)) = ss_state s"
  "ss_forwarded (snd (accept_parked s)) = ss_forwarded s"
  "ss_first (snd (accept_parked s)) = ss_first s"
  "keys (ss_parked (snd (accept_parked s))) = keys (ss_parked s)"
  "run_cost (snd (accept_parked s)) = run_cost s"
  "forwards (fst (accept_parked s)) = []"
  by (auto simp: accept_parked_def run_cost_def split_beta)

lemma accept_parked_run [simp]:
  "one_if_delegated (snd (accept_parked s)) = one_if_delegated s"
  "ss_funded (snd (accept_parked s)) = ss_funded s"
  by (simp_all add: one_if_delegated_def ss_funded_def cong: option.case_cong)

lemma accept_parked_inv: "ss_inv cfg s \<Longrightarrow> ss_inv cfg (snd (accept_parked s))"
  using ss_inv_parked [of cfg s] keyed_answered [of "ss_parked s"]
  by (simp add: accept_parked_def ss_inv_def)

section \<open>The sender as a machine\<close>

text \<open>
  Everything that the filter calls on a sender: a submitted transaction, a chain state (from rows
  or from a lookup), the loss of a forwarded nonce, the expiry of a parked one, the queue and the
  end of a relook, and the rollback of the executor.
\<close>

datatype 't SenderEvent =
    Offered "'t Candidate"
  | Stated AccountState bool
  | Lost u64
  | Unparked u64 u64
  | QueuedRelook
  | DueRelook
  | Forgot

fun sender_step :: "AdmissionConfig \<Rightarrow> 't SenderEvent \<Rightarrow> 't SenderState \<Rightarrow> 't Verdict list \<times> 't SenderState" where
  "sender_step cfg (Offered c) s = snd (ss_offer c cfg s)"
| "sender_step cfg (Stated st from_lookup) s = ss_on_state st from_lookup cfg s"
| "sender_step cfg (Lost nonce) s = snd (ss_on_lost nonce cfg s)"
| "sender_step cfg (Unparked nonce unit) s = ([], snd (unpark nonce unit s))"
| "sender_step cfg QueuedRelook s = ([], snd (ss_queue_relook s))"
| "sender_step cfg DueRelook s = ([], snd (ss_relook s))"
| "sender_step cfg Forgot s = ([], forget_state s)"

definition sender_next :: "AdmissionConfig \<Rightarrow> 't SenderEvent \<Rightarrow> 't SenderState \<Rightarrow> 't SenderState" where
  "sender_next cfg e s = snd (sender_step cfg e s)"

definition sender_out :: "AdmissionConfig \<Rightarrow> 't SenderEvent \<Rightarrow> 't SenderState \<Rightarrow> 't Verdict list" where
  "sender_out cfg e s = fst (sender_step cfg e s)"

text \<open>What one call of \<open>on_state\<close> with a newer state does, as its three stages.\<close>

lemma ss_on_state_stages:
  assumes "ss_on_state st fl cfg s = (out, s')"
  obtains (stale) held where "ss_state s = Some held" "\<not> is_newer_than st held" "out = []"
      "s' = (if fl then s\<lparr>ss_asked := False\<rparr> else s)"
  | (newer) s0 s1 out2 s3 where "\<And>held. ss_state s = Some held \<Longrightarrow> is_newer_than st held"
      "s0 = confirm_run (ast_nonce st)
        (s\<lparr>ss_state := Some st, ss_from_lookup := fl, ss_asked := False\<rparr>)"
      "s1 = s0\<lparr>ss_parked := entries_from (ast_nonce st) (ss_parked s)\<rparr>"
      "release_run cfg s1 = (out2, s3)" "s' = snd (accept_parked s3)"
      "out = map (\<lambda>(_, c). Reject c (NonceTooLow (ast_nonce st)))
        (entries_below (ast_nonce st) (ss_parked s)) @ out2 @ fst (accept_parked s3)"
proof (cases "\<exists>held. ss_state s = Some held \<and> \<not> is_newer_than st held")
  case True
  then obtain held where held: "ss_state s = Some held" "\<not> is_newer_than st held" by blast
  then have "(out, s') = ([], if fl then s\<lparr>ss_asked := False\<rparr> else s)"
    using assms by (cases fl) (simp_all add: ss_on_state_def)
  with held stale show thesis by blast
next
  case False
  then have "\<not> (case ss_state s of None \<Rightarrow> False | Some held \<Rightarrow> \<not> is_newer_than st held)"
    by (auto split: option.splits)
  moreover define s0 where "s0 = confirm_run (ast_nonce st)
    (s\<lparr>ss_state := Some st, ss_from_lookup := fl, ss_asked := False\<rparr>)"
  moreover define s1 where "s1 = s0\<lparr>ss_parked := entries_from (ast_nonce st) (ss_parked s)\<rparr>"
  moreover obtain out2 s3 where run: "release_run cfg s1 = (out2, s3)" by fastforce
  moreover have "(if fl then s\<lparr>ss_asked := False\<rparr> else s)
      \<lparr>ss_state := Some st, ss_from_lookup := fl, ss_asked := False\<rparr>
      = s\<lparr>ss_state := Some st, ss_from_lookup := fl, ss_asked := False\<rparr>"
    and "ss_state (if fl then s\<lparr>ss_asked := False\<rparr> else s) = ss_state s" by simp_all
  moreover have "ss_parked s0 = ss_parked s" by (simp add: s0_def)
  ultimately have "(out, s') = (map (\<lambda>(_, c). Reject c (NonceTooLow (ast_nonce st)))
        (entries_below (ast_nonce st) (ss_parked s)) @ out2 @ fst (accept_parked s3), snd (accept_parked s3))"
    using assms by (simp only: ss_on_state_def Let_def if_False split_beta fst_conv snd_conv)
  then show thesis using newer [OF _ s0_def s1_def run] False by auto
qed

lemma ss_offer_effect:
  assumes "ss_offer c cfg s = (parked, out, s')" and "ss_inv cfg s"
  shows "ss_inv cfg s' \<and> grows s out s'"
proof (cases "ss_state s")
  case None
  obtain p o1 s1 where "park c Wait cfg s = (p, o1, s1)" by (metis prod_cases3)
  with adm_park_effect [OF this] None assms show ?thesis
    by (auto simp: ss_offer_def park_for_lookup_def grows_def out_cost_def run_cost_def ss_inv_def Let_def
        split: if_splits)
next
  case (Some st)
  obtain p o1 s1 o2 s2 where f: "forward_or_park c st cfg s = (p, o1, s1)"
      "release_run cfg s1 = (o2, s2)"
    by (metis prod_cases3 surj_pair)
  have "ss_inv cfg s1 \<and> grows s o1 s1" by (rule forward_or_park_effect [OF f(1) assms(2) Some])
  then have "ss_inv cfg s2 \<and> grows s (o1 @ o2) s2" using release_run_effect [OF f(2)] grows_trans by blast
  moreover have "ss_inv cfg s' \<and> grows s out s'" if "park c AcceptNow cfg s = (parked, out, s')"
    using adm_park_effect [OF that] assms(2) by (simp add: grows_still)
  ultimately show ?thesis using assms Some
    by (auto simp: ss_offer_def f Let_def grows_still split: if_splits)
qed

lemma sender_step_effect:
  assumes "sender_step cfg e s = (out, s')" and "ss_inv cfg s"
  shows "ss_inv cfg s' \<and> (forwards out \<noteq> [] \<longrightarrow> one_if_delegated s') \<and> (out_cost out > 0 \<longrightarrow> ss_funded s')"
proof (cases e)
  case (Offered c)
  with assms obtain b where "ss_offer c cfg s = (b, out, s')" by (cases "ss_offer c cfg s") auto
  from ss_offer_effect [OF this assms(2)] show ?thesis by (simp add: grows_def)
next
  case (Stated st fl)
  with assms have "ss_on_state st fl cfg s = (out, s')" by simp
  then show ?thesis
  proof (cases rule: ss_on_state_stages)
    case stale
    then show ?thesis using assms(2) by (auto simp: ss_inv_def run_cost_def)
  next
    case (newer s0 s1 out2 s3)
    have "ss_inv cfg s0"
      unfolding newer(2) using assms(2) by (intro confirm_run_effect) (simp add: ss_inv_def run_cost_def)
    then have "ss_inv cfg s1"
      unfolding newer(3) by (rule ss_inv_parked) (use assms(2) in \<open>auto simp: newer(2) ss_inv_def
          entries_from_def keyed_filter\<close>)
    from release_run_effect [OF newer(4) this] show ?thesis
      by (simp add: newer(5,6) accept_parked_inv grows_def out_cost_def)
  qed
next
  case (Lost n)
  have "ss_inv cfg (s\<lparr>ss_forwarded := [], ss_spend := 0\<rparr>)"
    using assms(2) by (simp add: ss_inv_def run_cost_def)
  moreover obtain o1 s1 where "release_run cfg (s\<lparr>ss_forwarded := [], ss_spend := 0\<rparr>) = (o1, s1)"
    by fastforce
  ultimately have "ss_inv cfg s1 \<and> grows (s\<lparr>ss_forwarded := [], ss_spend := 0\<rparr>) o1 s1"
    and run: "release_run cfg (s\<lparr>ss_forwarded := [], ss_spend := 0\<rparr>) = (o1, s1)"
    using release_run_effect by blast+
  then show ?thesis
    using Lost assms by (cases "holds_forwarded n s") (simp_all add: ss_on_lost_def grows_def)
next
  case (Unparked n u)
  have "ss_inv cfg (s\<lparr>ss_parked := map_remove n (ss_parked s)\<rparr>)"
    by (rule ss_inv_parked [OF assms(2)]) (use assms(2) in \<open>auto simp: ss_inv_def map_remove_def keyed_filter\<close>)
  with Unparked assms show ?thesis by (simp add: unpark_def Let_def split: if_splits)
next
  case QueuedRelook
  with assms show ?thesis by (auto simp: ss_queue_relook_def ss_inv_def run_cost_def)
next
  case DueRelook
  with assms show ?thesis by (auto simp: ss_relook_def Let_def ss_inv_def run_cost_def)
next
  case Forgot
  with assms show ?thesis by (auto simp: forget_state_def ss_inv_def run_cost_def)
qed

section \<open>Order of the forwards\<close>

text \<open>
  The next nonce as a number, the alignment of the park with it while the chain state is known,
  and a park that holds nothing that could go out now.
\<close>

definition nx :: "'t SenderState \<Rightarrow> nat" where
  "nx s = unat (expected_nonce s)"

definition fits :: "'t SenderState \<Rightarrow> bool" where
  "fits s \<longleftrightarrow> ss_forwarded s \<noteq> [] \<longrightarrow> unat (ss_first s) + length (ss_forwarded s) < 2 ^ 64"

definition aligned :: "'t SenderState \<Rightarrow> bool" where
  "aligned s \<longleftrightarrow> fits s \<and> (\<forall>n \<in> fst ` set (ss_parked s). n \<noteq> - 1) \<and>
     (case ss_state s of None \<Rightarrow> ss_forwarded s = []
      | Some st \<Rightarrow> unat (ast_nonce st) \<le> nx s \<and> (\<forall>n \<in> fst ` set (ss_parked s). nx s \<le> unat n))"

definition quiet :: "AdmissionConfig \<Rightarrow> 't SenderState \<Rightarrow> bool" where
  "quiet cfg s \<longleftrightarrow> (case ss_state s of None \<Rightarrow> True
     | Some st \<Rightarrow> \<not> busy st cfg s \<longrightarrow> expected_nonce s \<notin> fst ` set (ss_parked s))"

definition forward_nonces :: "'t Verdict list \<Rightarrow> nat list" where
  "forward_nonces out = map (\<lambda>c. unat (cd_nonce c)) (forwards out)"

lemma forward_nonces_simps [simp]:
  "forward_nonces [] = []" "forward_nonces [Forward c] = [unat (cd_nonce c)]"
  "forward_nonces [Reject c r] = []"
  "forward_nonces (vs @ ws) = forward_nonces vs @ forward_nonces ws"
  "forwards out = [] \<Longrightarrow> forward_nonces out = []"
  by (simp_all add: forward_nonces_def)

lemma expected_nonce_frame [simp]:
  "expected_nonce (s\<lparr>ss_parked := m\<rparr>) = expected_nonce s"
  "expected_nonce (s\<lparr>ss_asked := a\<rparr>) = expected_nonce s"
  "expected_nonce (s\<lparr>ss_relook_due := r\<rparr>) = expected_nonce s"
  "ss_next_nonce st (s\<lparr>ss_parked := m\<rparr>) = ss_next_nonce st s"
  by (simp_all add: expected_nonce_def ss_next_nonce_def split: option.splits)

lemma nx_frame [simp]:
  "nx (s\<lparr>ss_parked := m\<rparr>) = nx s" "nx (s\<lparr>ss_asked := a\<rparr>) = nx s" "nx (s\<lparr>ss_relook_due := r\<rparr>) = nx s"
  "fits (s\<lparr>ss_parked := m\<rparr>) = fits s" "fits (s\<lparr>ss_asked := a\<rparr>) = fits s"
  "fits (s\<lparr>ss_relook_due := r\<rparr>) = fits s"
  by (simp_all add: nx_def fits_def)

lemma nx_empty: "ss_state s = Some st \<Longrightarrow> ss_forwarded s = [] \<Longrightarrow> nx s = unat (ast_nonce st)"
  by (simp add: nx_def expected_nonce_def ss_next_nonce_def)

lemma nx_run:
  assumes "ss_state s = Some st" and "ss_forwarded s \<noteq> []" and "fits s"
  shows "nx s = unat (ss_first s) + length (ss_forwarded s)"
  using assms unat_add_of_nat [of "ss_first s" "length (ss_forwarded s)"]
  by (simp add: nx_def expected_nonce_def ss_next_nonce_def fits_def)

lemma forward_or_park_cases:
  assumes "forward_or_park c st cfg s = (parked, out, s')"
  obtains (busy) "busy st cfg s" "park c AcceptNow cfg s = (parked, out, s')"
  | (poor) r where "\<not> busy st cfg s" "\<not> parked" "out = [Reject c r]" "s' = s"
  | (sent) "\<not> busy st cfg s" "\<not> parked" "out = [Forward c]"
      "s' = s\<lparr>ss_first := (if ss_forwarded s = [] then cd_nonce c else ss_first s),
             ss_forwarded := ss_forwarded s @ [\<lparr>fw_cost = cd_cost c\<rparr>],
             ss_spend := saturating_add (ss_spend s) (cd_cost c)\<rparr>"
  using assms by (auto simp: forward_or_park_def Let_def split: if_splits)

lemma sent_next:
  assumes "ss_state s = Some st" and "fits s" and "cd_nonce c = expected_nonce s" and "cd_nonce c \<noteq> - 1"
    and "s' = s\<lparr>ss_first := (if ss_forwarded s = [] then cd_nonce c else ss_first s),
             ss_forwarded := ss_forwarded s @ [f], ss_spend := x\<rparr>"
  shows "fits s'" and "nx s' = nx s + 1" and "unat (cd_nonce c) = nx s"
proof -
  have c: "unat (cd_nonce c) = nx s" using assms(3) by (simp add: nx_def)
  have bound: "unat (cd_nonce c) + 1 < 2 ^ 64" using assms(4) by (simp add: word_neq_max_iff)
  have eq: "unat (ss_first s') + length (ss_forwarded s') = nx s + 1"
    using assms(5) c nx_run [OF assms(1) _ assms(2)] by (cases "ss_forwarded s = []") simp_all
  then show "fits s'" using bound c by (simp add: fits_def)
  then show "nx s' = nx s + 1" using nx_run [of s' st] assms(1,5) eq by simp
  show "unat (cd_nonce c) = nx s" by (rule c)
qed

lemma bt_inv_Cons: "bt_inv ((k, v) # m) \<longleftrightarrow> (\<forall>n \<in> fst ` set m. k < n) \<and> bt_inv m"
  by (auto simp: bt_inv_def)

lemma release_one_order:
  assumes "release_one cfg s = (went, out, s')" and "ss_inv cfg s" and "aligned s"
  shows "aligned s' \<and> (went \<longrightarrow> ss_state s' = ss_state s) \<and> (\<not> went \<longrightarrow> quiet cfg s') \<and>
    nx s \<le> nx s' \<and> forward_nonces out = [nx s ..< nx s']"
  using assms(1)
proof (cases rule: release_one_cases)
  case stop
  have "expected_nonce s \<notin> fst ` set (ss_parked s)"
    if st: "ss_state s = Some st" and free: "\<not> busy st cfg s" for st
  proof (cases "ss_parked s")
    case (Cons e m)
    have "bt_inv (e # m)" using assms(2) Cons by (simp add: ss_inv_def keyed_def)
    moreover have "fst e \<noteq> ss_next_nonce st s"
      using stop(4) [OF st free, of "fst e" "snd e" m] Cons by simp
    moreover have "nx s \<le> unat (fst e)" using assms(3) st Cons by (simp add: aligned_def)
    ultimately show ?thesis using st Cons
      by (cases e) (auto simp: bt_inv_Cons expected_nonce_def nx_def word_le_nat_alt [symmetric])
  qed simp
  then have "quiet cfg s" by (simp add: quiet_def split: option.splits)
  with stop assms(3) show ?thesis by simp
next
  case (go st n c rest parked)
  let ?s = "s\<lparr>ss_parked := rest\<rparr>"
  have keyed: "keyed ((n, c) # rest)" using assms(2) go(4) by (simp add: ss_inv_def)
  then have c: "cd_nonce c = n" and above: "\<forall>m \<in> fst ` set rest. n < m"
    by (simp_all add: keyed_def bt_inv_Cons)
  have n: "n \<noteq> - 1" using assms(3) go(4) by (simp add: aligned_def)
  have at: "expected_nonce ?s = n" "expected_nonce s = n"
    using go(1,3) by (simp_all add: expected_nonce_def)
  have rest: "aligned ?s" using assms(3) go(1,4) by (simp add: aligned_def)
  from go(5) show ?thesis
  proof (cases rule: forward_or_park_cases)
    case busy
    then show ?thesis using go(2) by (simp add: busy_def)
  next
    case (poor r)
    then have "quiet cfg s'" using above at(1) by (auto simp: quiet_def split: option.splits)
    with poor rest go(6) at show ?thesis by (simp add: nx_def)
  next
    case sent
    note sent_next [of ?s st c, OF _ _ _ _ sent(4)]
    then have "fits s'" "nx s' = nx ?s + 1" "unat (cd_nonce c) = nx ?s"
      using go(1) rest c n at(1) by (simp_all add: aligned_def)
    moreover have "nx ?s = nx s" using at by (simp add: nx_def)
    moreover have "\<forall>m \<in> fst ` set rest. nx s + 1 \<le> unat m"
      using above at(2) by (auto simp: nx_def word_less_nat_alt Suc_le_eq)
    moreover have "unat (ast_nonce st) \<le> nx s" using assms(3) go(1) by (simp add: aligned_def)
    ultimately have "aligned s'" using rest go(1) sent(4) by (simp add: aligned_def)
    with sent go(6) \<open>nx s' = nx ?s + 1\<close> \<open>nx ?s = nx s\<close> \<open>unat (cd_nonce c) = nx ?s\<close> show ?thesis
      by simp
  qed
qed

lemma upt_join: "a \<le> b \<Longrightarrow> b \<le> c \<Longrightarrow> [a..<b] @ [b..<c] = [a..<c]"
  by (metis le_Suc_ex upt_add_eq_append)

lemma release_run_order:
  assumes "release_run cfg s = (out, s')" and "ss_inv cfg s" and "aligned s"
  shows "aligned s' \<and> quiet cfg s' \<and> nx s \<le> nx s' \<and> forward_nonces out = [nx s ..< nx s']"
  using assms
proof (induction rule: release_run_induct)
  case (stop s out s')
  then show ?case using release_one_order [OF stop] by simp
next
  case (step s out1 s1 out2 s2)
  have "ss_inv cfg s1" using release_one_effect [OF step(1,4)] by simp
  moreover have one: "aligned s1" "nx s \<le> nx s1" "forward_nonces out1 = [nx s ..< nx s1]"
    using release_one_order [OF step(1,4,5)] by simp_all
  ultimately have two: "aligned s2 \<and> quiet cfg s2 \<and> nx s1 \<le> nx s2 \<and> forward_nonces out2 = [nx s1 ..< nx s2]"
    using step(3) by simp
  then have "forward_nonces (out1 @ out2) = [nx s ..< nx s2]" using one by (simp add: upt_join)
  with one two show ?case by simp
qed

lemma confirm_run_end:
  "fits s \<Longrightarrow> fits (confirm_run n s) \<and>
    (if ss_forwarded (confirm_run n s) = []
     then ss_forwarded s = [] \<or> unat (ss_first s) + length (ss_forwarded s) \<le> unat n
     else ss_forwarded s \<noteq> [] \<and> n \<le> ss_first (confirm_run n s) \<and>
       unat (ss_first (confirm_run n s)) + length (ss_forwarded (confirm_run n s))
         = unat (ss_first s) + length (ss_forwarded s))"
proof (induction s rule: confirm_run_induct)
  case (step s f fs s')
  let ?s = "s\<lparr>ss_forwarded := fs, ss_spend := saturating_sub (ss_spend s) (fw_cost f),
           ss_first := ss_first s + 1\<rparr>"
  have first: "unat (ss_first s + 1) = unat (ss_first s) + 1"
    using step(2) by (intro unat_Suc_word) (rule word_less_imp_neq_max)
  then have "fits ?s" using step(1,4) by (simp add: fits_def)
  from step(3) [OF this] step(1,2) first show ?case
    by (auto simp: word_less_nat_alt split: if_splits)
qed auto

text \<open>
  The events of a chain that does not roll back: a nonce is below the last one of the type
  (EIP-2681), and a newer state of an account has no lower nonce.
\<close>

fun orderly :: "'t SenderEvent \<Rightarrow> 't SenderState \<Rightarrow> bool" where
  "orderly (Offered c) s \<longleftrightarrow> cd_nonce c \<noteq> - 1"
| "orderly (Stated st _) s \<longleftrightarrow>
     (case ss_state s of None \<Rightarrow> True
      | Some held \<Rightarrow> is_newer_than st held \<longrightarrow> ast_nonce held \<le> ast_nonce st)"
| "orderly Forgot s \<longleftrightarrow> False"
| "orderly _ s \<longleftrightarrow> True"

fun loses :: "'t SenderEvent \<Rightarrow> bool" where
  "loses (Lost _) \<longleftrightarrow> True"
| "loses _ \<longleftrightarrow> False"

definition sender_inv :: "AdmissionConfig \<Rightarrow> 't SenderState \<Rightarrow> bool" where
  "sender_inv cfg s \<longleftrightarrow> ss_inv cfg s \<and> aligned s \<and> quiet cfg s"

lemma sender_inv_default [simp]: "sender_inv cfg ss_default"
  by (simp add: sender_inv_def aligned_def quiet_def fits_def) (simp add: ss_default_def)

lemma ball_insert_subset: "A \<subseteq> insert a B \<Longrightarrow> P a \<Longrightarrow> \<forall>x \<in> B. P x \<Longrightarrow> \<forall>x \<in> A. P x"
  by blast

lemma park_order:
  assumes "park c ans cfg s = (parked, out, s')" and "sender_inv cfg s" and "cd_nonce c \<noteq> - 1"
    and "\<And>st. ss_state s = Some st \<Longrightarrow> nx s \<le> unat (cd_nonce c) \<and> (nx s = unat (cd_nonce c) \<longrightarrow> busy st cfg s)"
  shows "sender_inv cfg s' \<and> nx s' = nx s \<and> forward_nonces out = []"
proof -
  note eff = adm_park_effect [OF assms(1)]
  have same: "expected_nonce s' = expected_nonce s" using eff
    by (simp add: expected_nonce_def ss_next_nonce_def split: option.splits)
  have keys: "fst ` set (ss_parked s') \<subseteq> insert (cd_nonce c) (fst ` set (ss_parked s))"
    using eff(6) by (auto split: if_splits)
  have inv: "ss_inv cfg s" "aligned s" "quiet cfg s" using assms(2) by (simp_all add: sender_inv_def)
  have fits: "fits s'" using inv(2) eff(4,5) by (simp add: aligned_def fits_def)
  have last: "\<forall>n \<in> fst ` set (ss_parked s'). n \<noteq> - 1"
    using inv(2) assms(3) by (intro ball_insert_subset [OF keys]) (simp_all add: aligned_def)
  have "aligned s' \<and> quiet cfg s'"
  proof (cases "ss_state s")
    case None
    with fits last inv(2) eff(3,4) show ?thesis by (simp add: aligned_def quiet_def)
  next
    case (Some st)
    have "\<forall>n \<in> fst ` set (ss_parked s'). nx s \<le> unat n"
      using inv(2) Some assms(4) [OF Some] by (intro ball_insert_subset [OF keys]) (simp_all add: aligned_def)
    moreover have "expected_nonce s \<notin> fst ` set (ss_parked s')" if "\<not> busy st cfg s"
    proof -
      have "expected_nonce s \<noteq> cd_nonce c" using assms(4) [OF Some] that by (auto simp: nx_def)
      moreover have "expected_nonce s \<notin> fst ` set (ss_parked s)"
        using that inv(3) Some by (simp add: quiet_def)
      ultimately show ?thesis using keys by blast
    qed
    moreover have "unat (ast_nonce st) \<le> nx s" using inv(2) Some by (simp add: aligned_def)
    moreover have "nx s' = nx s" using same by (simp add: nx_def)
    moreover have "busy st cfg s' = busy st cfg s" using eff(4) by (simp add: busy_def)
    ultimately show ?thesis using fits last eff(3) Some same by (simp add: aligned_def quiet_def)
  qed
  then show ?thesis using eff(1,2) inv(1) same by (simp add: sender_inv_def nx_def)
qed

lemma sender_inv_frame [simp]:
  "sender_inv cfg (s\<lparr>ss_asked := a\<rparr>) = sender_inv cfg s"
  "sender_inv cfg (s\<lparr>ss_relook_due := r\<rparr>) = sender_inv cfg s"
  by (simp_all add: sender_inv_def ss_inv_def run_cost_def aligned_def quiet_def busy_def
      cong: option.case_cong)

lemma ss_offer_order:
  assumes "ss_offer c cfg s = (parked, out, s')" and "sender_inv cfg s" and "cd_nonce c \<noteq> - 1"
  shows "sender_inv cfg s' \<and> nx s \<le> nx s' \<and> forward_nonces out = [nx s ..< nx s']"
proof (cases "ss_state s")
  case None
  obtain p o1 s1 where park: "park c Wait cfg s = (p, o1, s1)" by (metis prod_cases3)
  have "sender_inv cfg s1 \<and> nx s1 = nx s \<and> forward_nonces o1 = []"
    by (rule park_order [OF park assms(2,3)]) (simp add: None)
  with None assms(1) park show ?thesis
    by (auto simp: ss_offer_def park_for_lookup_def Let_def forward_nonces_def split: if_splits)
next
  case (Some st)
  have inv: "ss_inv cfg s" "aligned s" "quiet cfg s" using assms(2) by (simp_all add: sender_inv_def)
  have at: "nx s = unat (ss_next_nonce st s)" using Some by (simp add: nx_def expected_nonce_def)
  consider (low) r where "out = [Reject c r]" "s' = s"
    | (ahead) "ss_next_nonce st s < cd_nonce c" "park c AcceptNow cfg s = (parked, out, s')"
    | (there) o1 s1 o2 where "cd_nonce c = ss_next_nonce st s"
        "forward_or_park c st cfg s = (parked, o1, s1)" "release_run cfg s1 = (o2, s')" "out = o1 @ o2"
    using assms(1) Some by (auto simp: ss_offer_def Let_def split: if_splits prod.splits)
  then show ?thesis
  proof cases
    case low
    then show ?thesis using assms(2) by simp
  next
    case ahead
    from park_order [OF ahead(2) assms(2,3)] ahead(1) at show ?thesis
      by (simp add: word_less_nat_alt)
  next
    case there
    have c: "cd_nonce c = expected_nonce s" using there(1) Some by (simp add: expected_nonce_def)
    have one: "aligned s1 \<and> nx s \<le> nx s1 \<and> forward_nonces o1 = [nx s ..< nx s1]"
      using there(2)
    proof (cases rule: forward_or_park_cases)
      case busy
      from park_order [OF busy(2) assms(2,3)] busy(1) there(1) at Some show ?thesis
        by (simp add: sender_inv_def)
    next
      case (poor r)
      then show ?thesis using inv(2) by simp
    next
      case sent
      have fits: "fits s" using inv(2) by (simp add: aligned_def)
      note n = sent_next [OF Some fits c assms(3) sent(4)]
      have "nx s + 1 \<le> unat m" if m: "m \<in> fst ` set (ss_parked s)" for m
      proof -
        have "expected_nonce s \<notin> fst ` set (ss_parked s)" using inv(3) Some sent(1) by (simp add: quiet_def)
        then have "m \<noteq> expected_nonce s" using m by blast
        moreover have "nx s \<le> unat m" using inv(2) Some m by (auto simp: aligned_def)
        ultimately show ?thesis by (simp add: nx_def word_unat_eq_iff [of m] le_neq_implies_less Suc_le_eq)
      qed
      then have "aligned s1"
        using n inv(2) Some sent(4) by (auto simp: aligned_def)
      with n sent show ?thesis by simp
    qed
    have "ss_inv cfg s1" using forward_or_park_effect [OF there(2) inv(1) Some] by simp
    then have "sender_inv cfg s' \<and> nx s1 \<le> nx s' \<and> forward_nonces o2 = [nx s1 ..< nx s']"
      using release_run_order [OF there(3)] release_run_effect [OF there(3)] one by (simp add: sender_inv_def)
    with one there(4) show ?thesis by (simp add: upt_join)
  qed
qed

lemma ss_on_state_order:
  assumes "ss_on_state st fl cfg s = (out, s')" and "sender_inv cfg s"
    and "\<And>held. ss_state s = Some held \<Longrightarrow> is_newer_than st held \<Longrightarrow> ast_nonce held \<le> ast_nonce st"
  shows "sender_inv cfg s' \<and> (\<exists>a. nx s \<le> a \<and> a \<le> nx s' \<and> forward_nonces out = [a ..< nx s'])"
  using assms(1)
proof (cases rule: ss_on_state_stages)
  case stale
  then show ?thesis using assms(2) by (auto simp: exI [of _ "nx s"])
next
  case (newer s0 s1 out2 s3)
  define t where "t = s\<lparr>ss_state := Some st, ss_from_lookup := fl, ss_asked := False\<rparr>"
  have inv: "ss_inv cfg s" "aligned s" using assms(2) by (simp_all add: sender_inv_def)
  have t: "fits t" "ss_forwarded t = ss_forwarded s" "ss_first t = ss_first s" "s0 = confirm_run (ast_nonce st) t"
    using inv(2) newer(2) by (simp_all add: t_def aligned_def fits_def)
  note conf = confirm_run_end [OF t(1), of "ast_nonce st", folded t(4), unfolded t(2,3)]
  have s1: "ss_state s1 = Some st" "ss_forwarded s1 = ss_forwarded s0" "ss_first s1 = ss_first s0"
      "fits s1" "ss_parked s1 = entries_from (ast_nonce st) (ss_parked s)"
    using conf by (simp_all add: newer(3) t_def t(4))
  have before: "nx s \<le> nx s1 \<and> (nx s1 = unat (ast_nonce st) \<or> nx s1 = nx s) \<and> unat (ast_nonce st) \<le> nx s1"
  proof (cases "ss_forwarded s0 = []")
    case True
    have "nx s \<le> unat (ast_nonce st)"
    proof (cases "ss_state s")
      case None
      then show ?thesis by (simp add: nx_def expected_nonce_def)
    next
      case (Some held)
      have "fits s" using inv(2) by (simp add: aligned_def)
      with conf True Some nx_run [OF Some] nx_empty [OF Some] newer(1) [OF Some] assms(3) [OF Some]
      show ?thesis by (cases "ss_forwarded s = []") (simp_all add: word_le_nat_alt)
    qed
    with True s1 show ?thesis by (simp add: nx_empty)
  next
    case False
    with conf obtain held where held: "ss_state s = Some held"
      using inv(2) by (auto simp: aligned_def split: option.splits)
    have "fits s" using inv(2) by (simp add: aligned_def)
    with False conf held nx_run [of s held] nx_run [of s1 st] s1 show ?thesis
      by (simp add: word_le_nat_alt)
  qed
  have "\<forall>n \<in> fst ` set (ss_parked s1). nx s1 \<le> unat n \<and> n \<noteq> - 1"
  proof
    fix n assume "n \<in> fst ` set (ss_parked s1)"
    then have n: "n \<in> fst ` set (ss_parked s)" "unat (ast_nonce st) \<le> unat n"
      by (auto simp: s1(5) entries_from_def word_le_nat_alt)
    have "nx s1 = unat (ast_nonce st) \<or> nx s \<le> unat n \<and> nx s1 = nx s"
      using before n(1) inv(2) by (cases "ss_state s") (auto simp: aligned_def nx_def expected_nonce_def)
    with n inv(2) show "nx s1 \<le> unat n \<and> n \<noteq> - 1" by (auto simp: aligned_def)
  qed
  then have "aligned s1" using s1 before by (simp add: aligned_def)
  have "ss_inv cfg t" using inv(1) by (simp add: t_def ss_inv_def run_cost_def)
  then have "ss_inv cfg s0" unfolding t(4) by (rule confirm_run_effect)
  then have "ss_inv cfg s1"
    unfolding newer(3) by (rule ss_inv_parked)
      (use inv(1) in \<open>auto simp: newer(2) ss_inv_def entries_from_def keyed_filter\<close>)
  note run = release_run_effect [OF newer(4) this] release_run_order [OF newer(4) this \<open>aligned s1\<close>]
  have "expected_nonce s' = expected_nonce s3"
    by (simp add: newer(5) expected_nonce_def ss_next_nonce_def split: option.splits)
  moreover have "fst ` set (ss_parked s') = fst ` set (ss_parked s3)"
    using accept_parked_frame(4) [of s3] by (metis newer(5) list.set_map)
  ultimately have "sender_inv cfg s'" "nx s' = nx s3"
    using run accept_parked_inv [of cfg s3]
    by (simp_all add: newer(5) sender_inv_def aligned_def fits_def quiet_def busy_def nx_def
        cong: option.case_cong)
  moreover have "forward_nonces out = forward_nonces out2"
    by (simp add: newer(6) forward_nonces_def)
  ultimately show ?thesis using run before by auto
qed

lemma ss_on_lost_order:
  assumes "ss_on_lost n cfg s = (b, out, s')" and "sender_inv cfg s"
  shows "sender_inv cfg s'"
proof (cases "holds_forwarded n s")
  case False
  with assms show ?thesis by (simp add: ss_on_lost_def)
next
  case True
  let ?s = "s\<lparr>ss_forwarded := [], ss_spend := 0\<rparr>"
  have inv: "ss_inv cfg s" "aligned s" using assms(2) by (simp_all add: sender_inv_def)
  have "ss_forwarded s \<noteq> []" using True by (auto simp: holds_forwarded_def)
  then obtain st where st: "ss_state s = Some st" using inv(2) by (auto simp: aligned_def split: option.splits)
  have "nx ?s = unat (ast_nonce st)" using st by (simp add: nx_empty)
  then have "aligned ?s" using inv(2) st by (auto simp: aligned_def fits_def)
  moreover have "ss_inv cfg ?s" using inv(1) by (simp add: ss_inv_def run_cost_def)
  moreover obtain o1 s1 where "release_run cfg ?s = (o1, s1)" by fastforce
  ultimately show ?thesis using assms(1) True release_run_order [of cfg ?s] release_run_effect [of cfg ?s]
    by (simp add: ss_on_lost_def sender_inv_def)
qed

lemma unpark_order:
  assumes "sender_inv cfg s"
  shows "sender_inv cfg (snd (unpark n u s)) \<and> nx (snd (unpark n u s)) = nx s"
proof -
  let ?s = "s\<lparr>ss_parked := map_remove n (ss_parked s)\<rparr>"
  have "ss_inv cfg ?s"
    by (rule ss_inv_parked) (use assms in \<open>auto simp: sender_inv_def ss_inv_def map_remove_def keyed_filter\<close>)
  moreover have "aligned ?s \<and> quiet cfg ?s"
  proof (cases "ss_state s")
    case None
    with assms show ?thesis by (auto simp: sender_inv_def aligned_def quiet_def map_remove_def)
  next
    case (Some st)
    have "busy st cfg ?s = busy st cfg s" by (simp add: busy_def)
    with Some assms show ?thesis by (auto simp: sender_inv_def aligned_def quiet_def map_remove_def)
  qed
  ultimately have "sender_inv cfg ?s" by (simp add: sender_inv_def)
  with assms show ?thesis by (simp add: unpark_def Let_def)
qed

lemma sender_step_order:
  assumes "sender_inv cfg s" and "orderly e s" and "sender_step cfg e s = (out, s')"
  shows "sender_inv cfg s' \<and>
    (\<not> loses e \<longrightarrow> (\<exists>a. nx s \<le> a \<and> a \<le> nx s' \<and> forward_nonces out = [a ..< nx s']))"
proof (cases e)
  case (Offered c)
  with assms obtain b where "ss_offer c cfg s = (b, out, s')" by (cases "ss_offer c cfg s") auto
  from ss_offer_order [OF this assms(1)] assms(2) Offered show ?thesis by auto
next
  case (Stated st fl)
  then have "ss_on_state st fl cfg s = (out, s')" using assms(3) by simp
  moreover have "ss_state s = Some held \<Longrightarrow> is_newer_than st held \<Longrightarrow> ast_nonce held \<le> ast_nonce st" for held
    using assms(2) Stated by simp
  ultimately show ?thesis using ss_on_state_order [OF _ assms(1)] by blast
next
  case (Lost n)
  with assms obtain b where "ss_on_lost n cfg s = (b, out, s')" by (cases "ss_on_lost n cfg s") auto
  from ss_on_lost_order [OF this assms(1)] Lost show ?thesis by simp
next
  case (Unparked n u)
  with assms unpark_order [OF assms(1), of n u] show ?thesis by auto
next
  case QueuedRelook
  with assms show ?thesis by (auto simp: ss_queue_relook_def)
next
  case DueRelook
  with assms show ?thesis by (auto simp: ss_relook_def Let_def)
next
  case Forgot
  with assms(2) show ?thesis by simp
qed

section \<open>Correctness of the sender\<close>

interpretation sending: invariant_machine "sender_next cfg" "\<lambda>_ _. True" "ss_inv cfg" for cfg
  by unfold_locales (metis sender_next_def sender_step_effect prod.collapse)

interpretation ordered_sending: invariant_machine "sender_next cfg" orderly "sender_inv cfg" for cfg
  by unfold_locales (metis sender_next_def sender_step_order prod.collapse)

interpretation ascending_sending: invariant_machine "sender_next cfg" "\<lambda>e s. orderly e s \<and> \<not> loses e" "sender_inv cfg" for cfg
  by unfold_locales (metis ordered_sending.step_inv)


definition small_config :: AdmissionConfig where
  "small_config = \<lparr>ac_max_parked = 2, ac_max_forwarded = 4, ac_loss_blocks = 3, ac_park_width = 100,
     ac_park_ttl = 50, ac_relook_after = 10, ac_max_senders = 8\<rparr>"

definition transfer :: "u64 \<Rightarrow> u256 \<Rightarrow> u64 \<Rightarrow> unit Candidate" where
  "transfer nonce cost unit = \<lparr>cd_sender = 7, cd_nonce = nonce, cd_tx_hash = ucast nonce, cd_cost = cost,
     cd_image = \<lparr>ip_lane = 0, ip_session = 1, ip_unit = unit\<rparr>, cd_ingress = 1, cd_answered = False,
     cd_payload = ()\<rparr>"

definition funds :: "u64 \<Rightarrow> u256 \<Rightarrow> u64 \<Rightarrow> AccountState" where
  "funds nonce balance tx_idx = \<lparr>ast_nonce = nonce, ast_balance = balance, ast_delegated = False, ast_tx_idx = tx_idx\<rparr>"







end
