(* ===== verification/Admission.thy ===== *)
theory Admission
  imports Admission_Sender
begin

text \<open>
  \<open>crates/sequencer/src/admission/mod.rs\<close>: the admission filter of one sequencer replica over the
  senders of \<open>Admission_Sender\<close>.

  The filter is a record with one field per field of the struct. A method returns the verdicts it
  appends and the new filter; \<open>record_forwards\<close> gets exactly those. The loops of a sweep are
  functions whose termination is the number of stamped marks, of parked marks and of relooks.
  An instant plus a duration is never out of range here, so \<open>checked_add\<close> is the sum, and
  \<open>checked_sub\<close> is \<open>None\<close> when the result would be before the first tick, where no mark is.
\<close>

section \<open>Data\<close>

record ForwardMark =
  fm_block :: u64
  fm_sender :: address
  fm_nonce :: u64

record ParkMark =
  pm_unit :: u64
  pm_at :: instant
  pm_sender :: address
  pm_nonce :: u64

record Relook =
  rl_due :: instant
  rl_sender :: address

record ImageMarks =
  im_highest :: u64
  im_parked :: "ParkMark list"

type_synonym image_key = "u8 \<times> i32"
type_synonym 't senders = "(address, 't SenderState) hash_map"

record 't Admission =
  ad_cfg :: AdmissionConfig
  ad_senders :: "'t senders"
  ad_images :: "(image_key, ImageMarks) hash_map"
  ad_forwards :: "ForwardMark list"
  ad_stamped :: nat
  ad_relooks :: "Relook list"
  ad_block :: u64
  ad_now :: instant

record ParkLimit =
  pl_width :: u64
  pl_oldest :: "instant option"

section \<open>Operations\<close>

definition adm_new :: "AdmissionConfig \<Rightarrow> instant \<Rightarrow> 't Admission" where
  "adm_new cfg now = \<lparr>ad_cfg = cfg, ad_senders = [], ad_images = [], ad_forwards = [], ad_stamped = 0,
     ad_relooks = [], ad_block = 0, ad_now = now\<rparr>"

definition sender_entry :: "address \<Rightarrow> 't senders \<Rightarrow> 't SenderState" where
  "sender_entry sender m = (case map_of m sender of None \<Rightarrow> ss_default | Some s \<Rightarrow> s)"

definition image_entry :: "image_key \<Rightarrow> (image_key, ImageMarks) hash_map \<Rightarrow> ImageMarks" where
  "image_entry key m = (case map_of m key of None \<Rightarrow> \<lparr>im_highest = 0, im_parked = []\<rparr> | Some marks \<Rightarrow> marks)"

definition image_key :: "ImagePos \<Rightarrow> image_key" where
  "image_key pos = (ip_lane pos, ip_session pos)"

definition record_forwards :: "'t Verdict list \<Rightarrow> 't Admission \<Rightarrow> 't Admission" where
  "record_forwards verdicts a =
     a\<lparr>ad_forwards := ad_forwards a @ List.map_filter (\<lambda>v. case v of
          Forward c \<Rightarrow> Some \<lparr>fm_block = 0, fm_sender = cd_sender c, fm_nonce = cd_nonce c\<rparr>
        | Reject _ _ \<Rightarrow> None | Lookup _ \<Rightarrow> None | Accept _ \<Rightarrow> None) verdicts\<rparr>"

definition adm_queue_relook :: "address \<Rightarrow> 't Admission \<Rightarrow> 't Admission" where
  "adm_queue_relook sender a =
     (case map_of (ad_senders a) sender of
        None \<Rightarrow> a
      | Some s \<Rightarrow>
          if \<not> waits_on_lookup_gap s then a
          else
            let (queue, s') = ss_queue_relook s;
                a = a\<lparr>ad_senders := hm_insert sender s' (ad_senders a)\<rparr>
            in if queue
               then a\<lparr>ad_relooks := ad_relooks a @
                      [\<lparr>rl_due = ad_now a + ac_relook_after (ad_cfg a), rl_sender = sender\<rparr>]\<rparr>
               else a)"

definition adm_offer :: "'t Candidate \<Rightarrow> 't Admission \<Rightarrow> 't Verdict list \<times> 't Admission" where
  "adm_offer c a =
     (let key = image_key (cd_image c);
          mark = \<lparr>pm_unit = ip_unit (cd_image c), pm_at = ad_now a, pm_sender = cd_sender c,
                  pm_nonce = cd_nonce c\<rparr>;
          marks = image_entry key (ad_images a);
          marks = marks\<lparr>im_highest := max (im_highest marks) (pm_unit mark)\<rparr>;
          (parked, out, s) = ss_offer c (ad_cfg a) (sender_entry (cd_sender c) (ad_senders a));
          a = a\<lparr>ad_images := hm_insert key marks (ad_images a),
                ad_senders := hm_insert (cd_sender c) s (ad_senders a)\<rparr>;
          a = (if parked
               then adm_queue_relook (cd_sender c)
                      (a\<lparr>ad_images := hm_insert key (marks\<lparr>im_parked := im_parked marks @ [mark]\<rparr>)
                           (ad_images a)\<rparr>)
               else a)
      in (out, record_forwards out a))"

definition apply_state :: "address \<Rightarrow> AccountState \<Rightarrow> bool \<Rightarrow> 't Admission \<Rightarrow> 't Verdict list \<times> 't Admission" where
  "apply_state address st from_lookup a =
     (let (out, s) = ss_on_state st from_lookup (ad_cfg a) (sender_entry address (ad_senders a))
      in (out, record_forwards out (a\<lparr>ad_senders := hm_insert address s (ad_senders a)\<rparr>)))"

fun apply_rows :: "(address \<times> AccountState) list \<Rightarrow> 't Admission \<Rightarrow> 't Verdict list \<times> 't Admission" where
  "apply_rows [] a = ([], a)"
| "apply_rows ((address, st) # rows) a =
     (let (out, a1) = apply_state address st False a; (out', a2) = apply_rows rows a1
      in (out @ out', a2))"

definition adm_on_rows ::
  "u64 \<Rightarrow> (address \<times> AccountState) list \<Rightarrow> 't Admission \<Rightarrow> 't Verdict list \<times> 't Admission" where
  "adm_on_rows block rows a =
     (let (out, a) = apply_rows rows (a\<lparr>ad_block := max (ad_block a) block\<rparr>);
          marks = take (ad_stamped a) (ad_forwards a) @
                  map (\<lambda>m. m\<lparr>fm_block := block\<rparr>) (drop (ad_stamped a) (ad_forwards a))
      in (out, a\<lparr>ad_forwards := marks, ad_stamped := length marks\<rparr>))"

definition adm_on_lookup :: "address \<Rightarrow> AccountState \<Rightarrow> 't Admission \<Rightarrow> 't Verdict list \<times> 't Admission" where
  "adm_on_lookup address st a =
     (let (out, a) = apply_state address st True a in (out, adm_queue_relook address a))"

definition relook_front :: "'t Admission \<Rightarrow> 't Verdict list \<times> 't Admission" where
  "relook_front a =
     (case ad_relooks a of
        [] \<Rightarrow> ([], a)
      | r # rest \<Rightarrow>
          let a = a\<lparr>ad_relooks := rest\<rparr> in
          (case map_of (ad_senders a) (rl_sender r) of
             None \<Rightarrow> ([], a)
           | Some s \<Rightarrow>
               let (ask, s') = ss_relook s
               in (if ask then [Lookup (rl_sender r)] else [],
                   a\<lparr>ad_senders := hm_insert (rl_sender r) s' (ad_senders a)\<rparr>)))"

lemma relook_front_shrinks:
  "ad_relooks a \<noteq> [] \<Longrightarrow> length (ad_relooks (snd (relook_front a))) < length (ad_relooks a)"
  by (auto simp: relook_front_def Let_def split_beta split: list.splits option.splits)

function relook_due :: "instant \<Rightarrow> 't Admission \<Rightarrow> 't Verdict list \<times> 't Admission" where
  "relook_due now a =
     (if ad_relooks a \<noteq> [] \<and> rl_due (hd (ad_relooks a)) \<le> now
      then let (out, a1) = relook_front a; (out', a2) = relook_due now a1 in (out @ out', a2)
      else ([], a))"
  by pat_completeness auto
termination
  by (relation "measure (\<lambda>(_, a). length (ad_relooks a))") (auto, metis relook_front_shrinks snd_conv)

definition adm_on_rollback :: "'t Admission \<Rightarrow> 't Admission" where
  "adm_on_rollback a = a\<lparr>ad_senders := map (\<lambda>(sender, s). (sender, forget_state s)) (ad_senders a)\<rparr>"

definition lose :: "address \<Rightarrow> u64 \<Rightarrow> 't Admission \<Rightarrow> 't Verdict list \<times> 't Admission" where
  "lose sender nonce a =
     (case map_of (ad_senders a) sender of
        None \<Rightarrow> ([], a)
      | Some s \<Rightarrow>
          let (freed, out, s') = ss_on_lost nonce (ad_cfg a) s;
              a = a\<lparr>ad_senders := hm_insert sender s' (ad_senders a)\<rparr>
          in (out, if freed then record_forwards out a else a))"

definition adm_on_refused :: "address \<Rightarrow> u64 \<Rightarrow> 't Admission \<Rightarrow> 't Verdict list \<times> 't Admission" where
  "adm_on_refused sender nonce a = lose sender nonce a"

definition expire_forward :: "'t Admission \<Rightarrow> 't Verdict list \<times> 't Admission" where
  "expire_forward a =
     (case ad_forwards a of
        [] \<Rightarrow> ([], a\<lparr>ad_stamped := ad_stamped a - 1\<rparr>)
      | mark # rest \<Rightarrow>
          lose (fm_sender mark) (fm_nonce mark)
            (a\<lparr>ad_forwards := rest, ad_stamped := ad_stamped a - 1\<rparr>))"

lemma lose_stamped [simp]: "ad_stamped (snd (lose sender nonce a)) = ad_stamped a"
  by (simp add: lose_def record_forwards_def Let_def split_beta split: option.splits)

lemma expire_forward_stamped: "ad_stamped (snd (expire_forward a)) = ad_stamped a - 1"
  by (simp add: expire_forward_def split: list.splits)

function expire_forwards :: "'t Admission \<Rightarrow> 't Verdict list \<times> 't Admission" where
  "expire_forwards a =
     (if ad_stamped a > 0 \<and> ad_forwards a \<noteq> [] \<and>
         saturating_add (fm_block (hd (ad_forwards a))) (ac_loss_blocks (ad_cfg a)) \<le> ad_block a
      then let (out, a1) = expire_forward a; (out', a2) = expire_forwards a1 in (out @ out', a2)
      else ([], a))"
  by pat_completeness auto
termination
  by (relation "measure ad_stamped") (auto, metis diff_less expire_forward_stamped less_one snd_conv)

definition passed :: "ParkLimit \<Rightarrow> ParkMark \<Rightarrow> u64 \<Rightarrow> bool" where
  "passed limit mark highest \<longleftrightarrow>
     pl_width limit \<le> highest - pm_unit mark \<or>
     (case pl_oldest limit of None \<Rightarrow> False | Some oldest \<Rightarrow> pm_at mark \<le> oldest)"

definition expire_front :: "ParkMark \<Rightarrow> 't senders \<Rightarrow> 't Verdict list \<times> 't senders" where
  "expire_front mark senders =
     (case map_of senders (pm_sender mark) of
        None \<Rightarrow> ([], senders)
      | Some s \<Rightarrow>
          let (taken, s') = unpark (pm_nonce mark) (pm_unit mark) s
          in (case taken of None \<Rightarrow> [] | Some c \<Rightarrow> [Reject c (Expired (expected_nonce s'))],
              hm_insert (pm_sender mark) s' senders))"

fun expire_marks :: "ParkLimit \<Rightarrow> u64 \<Rightarrow> ParkMark list \<Rightarrow> 't senders
    \<Rightarrow> 't Verdict list \<times> ParkMark list \<times> 't senders" where
  "expire_marks limit highest [] senders = ([], [], senders)"
| "expire_marks limit highest (mark # marks) senders =
     (if passed limit mark highest
      then let (out, senders1) = expire_front mark senders;
               (out', marks', senders2) = expire_marks limit highest marks senders1
           in (out @ out', marks', senders2)
      else ([], mark # marks, senders))"

fun expire_images :: "ParkLimit \<Rightarrow> (image_key, ImageMarks) hash_map \<Rightarrow> 't senders
    \<Rightarrow> 't Verdict list \<times> (image_key, ImageMarks) hash_map \<times> 't senders" where
  "expire_images limit [] senders = ([], [], senders)"
| "expire_images limit ((key, marks) # images) senders =
     (let (out, parked, senders1) = expire_marks limit (im_highest marks) (im_parked marks) senders;
          (out', images', senders2) = expire_images limit images senders1
      in (out @ out', (key, marks\<lparr>im_parked := parked\<rparr>) # images', senders2))"

definition park_limit :: "AdmissionConfig \<Rightarrow> instant \<Rightarrow> ParkLimit" where
  "park_limit cfg now =
     \<lparr>pl_width = ac_park_width cfg,
      pl_oldest = (if ac_park_ttl cfg \<le> now then Some (now - ac_park_ttl cfg) else None)\<rparr>"

definition adm_sweep :: "instant \<Rightarrow> 't Admission \<Rightarrow> 't Verdict list \<times> 't Admission" where
  "adm_sweep now a =
     (let a = a\<lparr>ad_now := now\<rparr>;
          (out1, a) = expire_forwards a;
          (out2, images, senders) = expire_images (park_limit (ad_cfg a) now) (ad_images a) (ad_senders a);
          (out3, a) = relook_due now (a\<lparr>ad_images := images, ad_senders := senders\<rparr>);
          a = (if ac_max_senders (ad_cfg a) < length (ad_senders a)
               then a\<lparr>ad_senders := filter (\<lambda>(_, s). \<not> is_idle s) (ad_senders a)\<rparr> else a)
      in (out1 @ out2 @ out3, a))"

declare relook_due.simps [simp del] expire_forwards.simps [simp del]

section \<open>The filter as a machine\<close>

datatype 't FilterEvent =
    Offer "'t Candidate"
  | Rows u64 "(address \<times> AccountState) list"
  | Answered address AccountState
  | Rollback
  | Refused address u64
  | Sweep instant

fun filter_step :: "'t FilterEvent \<Rightarrow> 't Admission \<Rightarrow> 't Verdict list \<times> 't Admission" where
  "filter_step (Offer c) a = adm_offer c a"
| "filter_step (Rows block rows) a = adm_on_rows block rows a"
| "filter_step (Answered address st) a = adm_on_lookup address st a"
| "filter_step Rollback a = ([], adm_on_rollback a)"
| "filter_step (Refused sender nonce) a = adm_on_refused sender nonce a"
| "filter_step (Sweep now) a = adm_sweep now a"

definition filter_next :: "'t FilterEvent \<Rightarrow> 't Admission \<Rightarrow> 't Admission" where
  "filter_next e a = snd (filter_step e a)"

definition filter_out :: "'t FilterEvent \<Rightarrow> 't Admission \<Rightarrow> 't Verdict list" where
  "filter_out e a = fst (filter_step e a)"

section \<open>Conservation over the filter\<close>

definition held_by :: "'t senders \<Rightarrow> 't Candidate multiset" where
  "held_by m = sum_list (map (ss_held \<circ> snd) m)"

lemma ss_held_frame [simp]:
  "ss_held ss_default = {#}" "ss_held (s\<lparr>ss_asked := x\<rparr>) = ss_held s"
  "ss_held (s\<lparr>ss_relook_due := y\<rparr>) = ss_held s" "ss_held (forget_state s) = ss_held s"
  "ss_held (snd (ss_queue_relook s)) = ss_held s" "ss_held (snd (ss_relook s)) = ss_held s"
  by (simp_all add: ss_held_def ss_default_def forget_state_def ss_queue_relook_def ss_relook_def Let_def)

lemma held_by_insert:
  "hm_inv m \<Longrightarrow> held_by (hm_insert k s m) + ss_held (sender_entry k m) = held_by m + ss_held s"
  by (induction m) (auto simp: held_by_def sender_entry_def hm_inv_def ac_simps)

lemma held_by_same:
  "hm_inv m \<Longrightarrow> map_of m k = Some s \<Longrightarrow> ss_held s' = ss_held s \<Longrightarrow> held_by (hm_insert k s' m) = held_by m"
  using held_by_insert [of m k s'] by (simp add: sender_entry_def)

lemma held_by_step:
  assumes "hm_inv m" and "mset (settled out) + ss_held s' = M + ss_held (sender_entry k m)"
  shows "mset (settled out) + held_by (hm_insert k s' m) = M + held_by m"
proof -
  have "mset (settled out) + held_by (hm_insert k s' m) + ss_held (sender_entry k m)
      = mset (settled out) + (held_by m + ss_held s')"
    using held_by_insert [OF assms(1), of k s'] by (simp add: ac_simps)
  also have "\<dots> = M + held_by m + ss_held (sender_entry k m)"
    using assms(2) by (simp add: ac_simps)
  finally show ?thesis by simp
qed

definition all_senders :: "('t SenderState \<Rightarrow> bool) \<Rightarrow> 't senders \<Rightarrow> bool" where
  "all_senders P m \<longleftrightarrow> (\<forall>k s. map_of m k = Some s \<longrightarrow> P s)"

lemma all_senders_insert [simp]: "all_senders P m \<Longrightarrow> P s \<Longrightarrow> all_senders P (hm_insert k s m)"
  by (simp add: all_senders_def)

lemma all_senders_entry: "all_senders P m \<Longrightarrow> P ss_default \<Longrightarrow> P (sender_entry k m)"
  by (simp add: all_senders_def sender_entry_def split: option.splits)

lemma all_senders_at: "all_senders P m \<Longrightarrow> map_of m k = Some s \<Longrightarrow> P s"
  by (simp add: all_senders_def)

lemma unpark_conserves:
  assumes "keyed (ss_parked s)" and "unpark n u s = (taken, s')"
  shows "mset (case taken of None \<Rightarrow> [] | Some c \<Rightarrow> [plain c]) + ss_held s' = ss_held s"
proof (cases taken)
  case (Some c)
  with assms(2) have "map_of (ss_parked s) n = Some c" "s' = s\<lparr>ss_parked := map_remove n (ss_parked s)\<rparr>"
    by (auto simp: unpark_def Let_def split: if_splits)
  moreover have "distinct (keys (ss_parked s))" using assms(1) by (simp add: keyed_def bt_inv_distinct)
  ultimately show ?thesis using mset_map_remove [of "ss_parked s" n c] Some by (simp add: ss_held_def)
qed (use assms in \<open>auto simp: unpark_def Let_def split: if_splits option.splits\<close>)

lemmas sender_ops_inv =
  ss_offer_effect [THEN conjunct1]
  sender_step_effect [where e = "Stated st fl" for st fl, simplified, THEN conjunct1]

lemma ss_on_lost_inv: "ss_inv cfg s \<Longrightarrow> ss_on_lost n cfg s = (b, out, s') \<Longrightarrow> ss_inv cfg s'"
  using sender_step_effect [of cfg "Lost n" s out s'] by simp

lemma ss_small_inv:
  assumes "ss_inv cfg s"
  shows "ss_inv cfg (snd (unpark n u s))" and "ss_inv cfg (snd (ss_queue_relook s))"
    and "ss_inv cfg (snd (ss_relook s))" and "ss_inv cfg (forget_state s)"
  using sender_step_effect [of cfg "Unparked n u" s, OF _ assms]
    sender_step_effect [of cfg QueuedRelook s, OF _ assms]
    sender_step_effect [of cfg DueRelook s, OF _ assms]
    sender_step_effect [of cfg Forgot s, OF _ assms] by simp_all

text \<open>
  A call that keeps the sender map a map of senders within their invariant, and neither loses
  nor makes a candidate.
\<close>

definition fine :: "AdmissionConfig \<Rightarrow> 't senders \<Rightarrow> bool" where
  "fine cfg m \<longleftrightarrow> hm_inv m \<and> all_senders (ss_inv cfg) m"

definition conserves :: "AdmissionConfig \<Rightarrow> 't Candidate multiset \<Rightarrow> 't senders \<Rightarrow> 't Verdict list \<Rightarrow> 't senders \<Rightarrow> bool" where
  "conserves cfg M m out m' \<longleftrightarrow> (fine cfg m \<longrightarrow> fine cfg m' \<and> mset (settled out) + held_by m' = M + held_by m)"

lemma conserves_trans:
  "conserves cfg M m out1 m1 \<Longrightarrow> conserves cfg {#} m1 out2 m2 \<Longrightarrow> conserves cfg M m (out1 @ out2) m2"
  by (auto simp: conserves_def union_assoc)

lemma conserves_refl [simp]: "conserves cfg {#} m [] m"
  by (simp add: conserves_def)

lemma conserves_insert:
  assumes "ss_inv cfg (sender_entry k m) \<Longrightarrow> ss_inv cfg s'"
    and "ss_inv cfg (sender_entry k m) \<Longrightarrow> mset (settled out) + ss_held s' = M + ss_held (sender_entry k m)"
  shows "conserves cfg M m out (hm_insert k s' m)"
proof -
  have "fine cfg (hm_insert k s' m) \<and> mset (settled out) + held_by (hm_insert k s' m) = M + held_by m"
    if "fine cfg m"
  proof -
    have "ss_inv cfg (sender_entry k m)" using that by (simp add: fine_def all_senders_entry)
    with that assms held_by_step show ?thesis by (auto simp: fine_def)
  qed
  then show ?thesis by (simp add: conserves_def)
qed

lemma record_forwards_frame [simp]:
  "ad_senders (record_forwards out a) = ad_senders a" "ad_images (record_forwards out a) = ad_images a"
  "ad_cfg (record_forwards out a) = ad_cfg a" "ad_now (record_forwards out a) = ad_now a"
  "ad_stamped (record_forwards out a) = ad_stamped a" "ad_block (record_forwards out a) = ad_block a"
  "ad_relooks (record_forwards out a) = ad_relooks a"
  by (simp_all add: record_forwards_def)

text \<open>Each operation leaves the configuration alone and conserves the candidates of the senders.\<close>

definition sound :: "'t Candidate multiset \<Rightarrow> 't Admission \<Rightarrow> 't Verdict list \<times> 't Admission \<Rightarrow> bool" where
  "sound M a r \<longleftrightarrow> ad_cfg (snd r) = ad_cfg a \<and>
     conserves (ad_cfg a) M (ad_senders a) (fst r) (ad_senders (snd r))"

lemma sound_trans:
  "sound M a r1 \<Longrightarrow> sound {#} (snd r1) r2 \<Longrightarrow> sound M a (fst r1 @ fst r2, snd r2)"
  by (auto simp: sound_def intro: conserves_trans)

lemma adm_queue_relook_sound: "sound {#} a ([], adm_queue_relook sender a)"
proof (cases "map_of (ad_senders a) sender")
  case (Some s)
  then have "conserves (ad_cfg a) {#} (ad_senders a) [] (hm_insert sender (snd (ss_queue_relook s)) (ad_senders a))"
    by (intro conserves_insert) (simp_all add: sender_entry_def ss_small_inv)
  with Some show ?thesis by (simp add: adm_queue_relook_def sound_def Let_def split_beta)
qed (simp add: adm_queue_relook_def sound_def)

lemma adm_offer_sound: "sound {#plain c#} a (adm_offer c a)"
proof -
  obtain parked out s where offer:
    "ss_offer c (ad_cfg a) (sender_entry (cd_sender c) (ad_senders a)) = (parked, out, s)"
    by (metis prod_cases3)
  have "conserves (ad_cfg a) {#plain c#} (ad_senders a) out (hm_insert (cd_sender c) s (ad_senders a))"
    using ss_offer_conserves [OF offer] ss_offer_effect [OF offer] by (intro conserves_insert) simp_all
  then have base: "sound {#plain c#} a (out, a')"
    if "ad_senders a' = hm_insert (cd_sender c) s (ad_senders a)" "ad_cfg a' = ad_cfg a" for a'
    using that by (simp add: sound_def)
  then have "sound {#plain c#} a (out, adm_queue_relook (cd_sender c) a')"
    if "ad_senders a' = hm_insert (cd_sender c) s (ad_senders a)" "ad_cfg a' = ad_cfg a" for a'
    using sound_trans [OF base [OF that], of "([], adm_queue_relook (cd_sender c) a')"]
      adm_queue_relook_sound [of a' "cd_sender c"] by simp
  with base show ?thesis by (simp add: adm_offer_def offer Let_def) (simp add: sound_def)
qed

lemma apply_state_sound: "sound {#} a (apply_state address st fl a)"
proof -
  obtain out s where on: "ss_on_state st fl (ad_cfg a) (sender_entry address (ad_senders a)) = (out, s)"
    by fastforce
  have "conserves (ad_cfg a) {#} (ad_senders a) out (hm_insert address s (ad_senders a))"
    using ss_on_state_conserves [OF on] sender_ops_inv(2) [OF on] by (intro conserves_insert) simp_all
  then show ?thesis by (simp add: apply_state_def on sound_def)
qed

lemma apply_rows_sound: "sound {#} a (apply_rows rows a)"
proof (induction rows a rule: apply_rows.induct)
  case (1 a)
  then show ?case by (simp add: sound_def)
next
  case (2 address st rows a)
  have "sound {#} (snd (apply_state address st False a)) (apply_rows rows (snd (apply_state address st False a)))"
    by (rule 2 [OF refl prod.collapse])
  with sound_trans [OF apply_state_sound this] show ?case by (simp add: split_beta)
qed

lemma adm_on_rows_sound: "sound {#} a (adm_on_rows block rows a)"
  using apply_rows_sound [of "a\<lparr>ad_block := max (ad_block a) block\<rparr>" rows]
  by (simp add: adm_on_rows_def sound_def split_beta Let_def)

lemma adm_on_lookup_sound: "sound {#} a (adm_on_lookup address st a)"
  using sound_trans [OF apply_state_sound [of a address st True] adm_queue_relook_sound [of _ address]]
  by (simp add: adm_on_lookup_def split_beta)

lemma lose_sound: "sound {#} a (lose sender nonce a)"
proof (cases "map_of (ad_senders a) sender")
  case (Some s)
  obtain freed out s' where lost: "ss_on_lost nonce (ad_cfg a) s = (freed, out, s')" by (metis prod_cases3)
  have "conserves (ad_cfg a) {#} (ad_senders a) out (hm_insert sender s' (ad_senders a))"
    using ss_on_lost_conserves [OF lost] ss_on_lost_inv [OF _ lost] Some
    by (intro conserves_insert) (simp_all add: sender_entry_def)
  with Some show ?thesis by (simp add: lose_def lost sound_def Let_def)
qed (simp add: lose_def sound_def)

lemma expire_forward_sound: "sound {#} a (expire_forward a)"
  using lose_sound [of "a\<lparr>ad_forwards := tl (ad_forwards a), ad_stamped := ad_stamped a - 1\<rparr>"
      "fm_sender (hd (ad_forwards a))" "fm_nonce (hd (ad_forwards a))"]
  by (cases "ad_forwards a") (simp_all add: expire_forward_def sound_def)

lemma expire_forwards_sound: "sound {#} a (expire_forwards a)"
proof (induction a rule: expire_forwards.induct)
  case (1 a)
  show ?case
  proof (cases "ad_stamped a > 0 \<and> ad_forwards a \<noteq> [] \<and>
      saturating_add (fm_block (hd (ad_forwards a))) (ac_loss_blocks (ad_cfg a)) \<le> ad_block a")
    case True
    with 1 [OF True refl prod.collapse] sound_trans [OF expire_forward_sound [of a]]
    show ?thesis by (subst expire_forwards.simps) (simp add: split_beta)
  next
    case False
    then show ?thesis by (subst expire_forwards.simps) (auto simp: sound_def)
  qed
qed

lemma expire_front_conserves:
  "conserves cfg {#} m (fst (expire_front mark m)) (snd (expire_front mark m))"
proof (cases "map_of m (pm_sender mark)")
  case (Some s)
  obtain taken s' where unpark: "unpark (pm_nonce mark) (pm_unit mark) s = (taken, s')" by fastforce
  have "conserves cfg {#} m (case taken of None \<Rightarrow> [] | Some c \<Rightarrow> [Reject c (Expired (expected_nonce s'))])
      (hm_insert (pm_sender mark) s' m)"
  proof (rule conserves_insert)
    show "ss_inv cfg s'" if "ss_inv cfg (sender_entry (pm_sender mark) m)"
      using ss_small_inv(1) [of cfg s "pm_nonce mark" "pm_unit mark"] that Some unpark by (simp add: sender_entry_def)
  next
    assume "ss_inv cfg (sender_entry (pm_sender mark) m)"
    then have "keyed (ss_parked s)" using Some by (simp add: sender_entry_def ss_inv_def)
    from unpark_conserves [OF this unpark] Some
    show "mset (settled (case taken of None \<Rightarrow> [] | Some c \<Rightarrow> [Reject c (Expired (expected_nonce s'))]))
        + ss_held s' = {#} + ss_held (sender_entry (pm_sender mark) m)"
      by (cases taken) (simp_all add: sender_entry_def)
  qed
  with Some unpark show ?thesis by (simp add: expire_front_def)
qed (simp add: expire_front_def)

lemma expire_marks_conserves:
  "conserves cfg {#} m (fst (expire_marks limit h marks m)) (snd (snd (expire_marks limit h marks m)))"
proof (induction marks arbitrary: m)
  case (Cons mark marks)
  from conserves_trans [OF expire_front_conserves Cons.IH] show ?case by (simp add: split_beta)
qed simp

lemma expire_images_conserves:
  "conserves cfg {#} m (fst (expire_images limit images m)) (snd (snd (expire_images limit images m)))"
proof (induction images arbitrary: m)
  case (Cons e images)
  from conserves_trans [OF expire_marks_conserves Cons.IH] show ?case by (cases e) (simp add: split_beta)
qed simp

lemma relook_front_sound: "sound {#} a (relook_front a)"
proof (cases "ad_relooks a")
  case (Cons r rest)
  show ?thesis
  proof (cases "map_of (ad_senders a) (rl_sender r)")
    case (Some s)
    have "conserves (ad_cfg a) {#} (ad_senders a) (if fst (ss_relook s) then [Lookup (rl_sender r)] else [])
        (hm_insert (rl_sender r) (snd (ss_relook s)) (ad_senders a))"
      using Some by (intro conserves_insert) (simp_all add: sender_entry_def ss_small_inv)
    with Cons Some show ?thesis by (simp add: relook_front_def sound_def split_beta Let_def)
  qed (simp add: relook_front_def sound_def Cons)
qed (simp add: relook_front_def sound_def)

lemma relook_due_sound: "sound {#} a (relook_due now a)"
proof (induction now a rule: relook_due.induct)
  case (1 now a)
  show ?case
  proof (cases "ad_relooks a \<noteq> [] \<and> rl_due (hd (ad_relooks a)) \<le> now")
    case True
    with 1 [OF True refl prod.collapse] sound_trans [OF relook_front_sound [of a]]
    show ?thesis by (subst relook_due.simps) (simp add: split_beta)
  next
    case False
    then show ?thesis by (subst relook_due.simps) (auto simp: sound_def)
  qed
qed

lemma held_by_retain: "held_by (filter (\<lambda>(_, s). \<not> is_idle s) m) = held_by m"
  by (induction m) (auto simp: held_by_def is_idle_def ss_held_def)

lemma map_of_filter_sub: "hm_inv m \<Longrightarrow> map_of (filter P m) k = Some s \<Longrightarrow> map_of m k = Some s"
  by (auto simp: hm_inv_def intro: map_of_is_SomeI dest!: map_of_SomeD)

lemma fine_filter: "fine cfg m \<Longrightarrow> fine cfg (filter P m)"
  by (auto simp: fine_def all_senders_def dest: map_of_filter_sub)

lemma adm_sweep_sound: "sound {#} a (adm_sweep now a)"
proof -
  define a0 where "a0 = a\<lparr>ad_now := now\<rparr>"
  obtain out1 a1 where 1: "expire_forwards a0 = (out1, a1)" by fastforce
  obtain out2 images senders where 2:
    "expire_images (park_limit (ad_cfg a1) now) (ad_images a1) (ad_senders a1) = (out2, images, senders)"
    by (metis prod_cases3)
  obtain out3 a3 where 3: "relook_due now (a1\<lparr>ad_images := images, ad_senders := senders\<rparr>) = (out3, a3)"
    by fastforce
  have s1: "sound {#} a (out1, a1)"
    using expire_forwards_sound [of a0] 1 by (simp add: a0_def sound_def)
  have s2: "sound {#} a1 (out2, a1\<lparr>ad_images := images, ad_senders := senders\<rparr>)"
    using expire_images_conserves [of "ad_cfg a1" "ad_senders a1" "park_limit (ad_cfg a1) now" "ad_images a1"] 2
    by (simp add: sound_def)
  have s3: "sound {#} (a1\<lparr>ad_images := images, ad_senders := senders\<rparr>) (out3, a3)"
    using relook_due_sound 3 by metis
  have "sound {#} a ((out1 @ out2) @ out3, a3)"
    using sound_trans [OF sound_trans [OF s1, of "(out2, a1\<lparr>ad_images := images, ad_senders := senders\<rparr>)"], of "(out3, a3)"]
      s2 s3 by simp
  then have "sound {#} a (out1 @ out2 @ out3,
      if ac_max_senders (ad_cfg a3) < length (ad_senders a3)
      then a3\<lparr>ad_senders := filter (\<lambda>(_, s). \<not> is_idle s) (ad_senders a3)\<rparr> else a3)"
    by (auto simp: sound_def conserves_def fine_filter held_by_retain)
  with 1 2 3 show ?thesis by (simp add: adm_sweep_def Let_def a0_def)
qed

lemma adm_on_rollback_sound: "sound {#} a ([], adm_on_rollback a)"
proof -
  have "held_by (map (\<lambda>(k, s). (k, forget_state s)) m) = held_by m" for m :: "'a senders"
    by (induction m) (auto simp: held_by_def)
  moreover have "fine cfg (map (\<lambda>(k, s). (k, forget_state s)) m)" if "fine cfg m" for cfg and m :: "'a senders"
    using that by (auto simp: fine_def all_senders_def hm_inv_def map_of_map comp_def split_beta ss_small_inv)
  ultimately show ?thesis by (simp add: sound_def conserves_def adm_on_rollback_def)
qed

fun submitted :: "'t FilterEvent \<Rightarrow> 't Candidate list" where
  "submitted (Offer c) = [plain c]"
| "submitted _ = []"

lemma filter_step_sound: "sound (mset (submitted e)) a (filter_step e a)"
  by (cases e) (simp_all add: adm_offer_sound adm_on_rows_sound adm_on_lookup_sound
      adm_on_rollback_sound adm_on_refused_def lose_sound adm_sweep_sound)

interpretation filtering: invariant_machine filter_next "\<lambda>_ _. True" "\<lambda>a. fine (ad_cfg a) (ad_senders a)"
proof
  fix a :: "'t Admission" and e
  assume "fine (ad_cfg a) (ad_senders a)"
  with filter_step_sound [of e a] show "fine (ad_cfg (filter_next e a)) (ad_senders (filter_next e a))"
    by (simp add: sound_def conserves_def filter_next_def)
qed

lemma filter_run_conserves:
  "fine (ad_cfg a) (ad_senders a) \<Longrightarrow>
    mset (settled (outputs filter_next filter_out es a)) + held_by (ad_senders (fold filter_next es a))
      = mset (concat (map submitted es)) + held_by (ad_senders a)"
proof (induction es arbitrary: a)
  case (Cons e es)
  have step: "fine (ad_cfg (filter_next e a)) (ad_senders (filter_next e a))"
    "mset (settled (filter_out e a)) + held_by (ad_senders (filter_next e a)) = mset (submitted e) + held_by (ad_senders a)"
    using filter_step_sound [of e a] Cons.prems by (simp_all add: sound_def conserves_def filter_next_def filter_out_def)
  from Cons.IH [OF step(1)] step(2) show ?case by (simp add: union_assoc)
qed simp

text \<open>
  C8. Over every sequence of calls the filter neither loses nor duplicates a transaction: the
  submitted candidates are, as a multiset, those that it forwarded or refused and those that the
  senders still hold parked.
\<close>

theorem filter_conserves_candidates:
  "mset (concat (map submitted es))
     = mset (settled (outputs filter_next filter_out es (adm_new cfg now)))
       + held_by (ad_senders (fold filter_next es (adm_new cfg now)))"
  using filter_run_conserves [of "adm_new cfg now" es]
  by (simp add: fine_def all_senders_def adm_new_def held_by_def)

section \<open>The marks of the forwarded runs\<close>

lemma holds_forwarded_iff:
  assumes "length (ss_forwarded s) < 2 ^ 64"
  shows "holds_forwarded n s \<longleftrightarrow>
    unat (ss_first s) \<le> unat n \<and> unat n < unat (ss_first s) + length (ss_forwarded s)"
proof -
  have "unat (of_nat (length (ss_forwarded s)) :: u64) = length (ss_forwarded s)"
    using assms by (simp add: unat_of_nat_small)
  then show ?thesis
    by (auto simp: holds_forwarded_def word_le_nat_alt word_less_nat_alt unat_diff_le)
qed

text \<open>What a call adds to the run of a sender is among its forwards.\<close>

definition adds :: "'t SenderState \<Rightarrow> 't Verdict list \<Rightarrow> 't SenderState \<Rightarrow> bool" where
  "adds s out s' \<longleftrightarrow> (\<forall>n. holds_forwarded n s' \<longrightarrow> holds_forwarded n s \<or> n \<in> cd_nonce ` set (forwards out))"

lemma adds_trans: "adds s out1 s1 \<Longrightarrow> adds s1 out2 s2 \<Longrightarrow> adds s (out1 @ out2) s2"
  unfolding adds_def by auto

lemma adds_same:
  "ss_first s' = ss_first s \<Longrightarrow> ss_forwarded s' = ss_forwarded s \<Longrightarrow> adds s out s'"
  by (simp add: adds_def holds_forwarded_def)

lemma holds_none [simp]: "ss_forwarded s = [] \<Longrightarrow> \<not> holds_forwarded n s"
  by (simp add: holds_forwarded_def)

lemma forward_or_park_adds:
  assumes "forward_or_park c st cfg s = (parked, out, s')" and "cd_nonce c = ss_next_nonce st s"
    and "ss_inv cfg s" and "ac_max_forwarded cfg < 2 ^ 64"
  shows "adds s out s'"
  using assms(1)
proof (cases rule: forward_or_park_cases)
  case busy
  from adm_park_effect(4,5) [OF busy(2)] show ?thesis by (intro adds_same)
next
  case sent
  have short: "length (ss_forwarded s) < 2 ^ 64" "length (ss_forwarded s') < 2 ^ 64"
    using sent(1,4) assms(3,4) by (auto simp: busy_def ss_inv_def)
  have "n = cd_nonce c" if "holds_forwarded n s'" "\<not> holds_forwarded n s" for n
  proof (cases "ss_forwarded s = []")
    case True
    with that sent(4) short show ?thesis by (simp add: holds_forwarded_iff word_unat_eq_iff)
  next
    case False
    with that sent(4) short have "unat n = unat (ss_first s) + length (ss_forwarded s)"
      by (simp add: holds_forwarded_iff)
    then have "n = of_nat (unat (ss_first s) + length (ss_forwarded s))" by (metis of_nat_unat ucast_id)
    with False assms(2) show ?thesis by (simp add: ss_next_nonce_def)
  qed
  with sent(3) show ?thesis by (auto simp: adds_def)
qed (simp add: adds_same)

lemma release_run_adds:
  assumes "release_run cfg s = (out, s')" and "ss_inv cfg s" and "ac_max_forwarded cfg < 2 ^ 64"
  shows "adds s out s'"
  using assms(1,2)
proof (induction rule: release_run_induct)
  have one: "adds s out s'" if "release_one cfg s = (went, out, s')" "ss_inv cfg s" for went s out s'
    using that(1)
  proof (cases rule: release_one_cases)
    case stop
    then show ?thesis by (simp add: adds_same)
  next
    case (go st n c rest parked)
    let ?s = "s\<lparr>ss_parked := rest\<rparr>"
    have "keyed ((n, c) # rest)" using that(2) go(4) by (simp add: ss_inv_def)
    then have "cd_nonce c = n" "keyed rest" by (simp add: keyed_def, rule keyed_Cons)
    with go that(2) have "adds ?s out s'"
      by (intro forward_or_park_adds [OF go(5) _ _ assms(3)]) (simp_all add: ss_inv_parked)
    then show ?thesis by (simp add: adds_def holds_forwarded_def)
  qed
  {
    case (stop s out s')
    then show ?case by (rule one)
  next
    case (step s out1 s1 out2 s2)
    then show ?case using one [OF step(1,4)] release_one_effect [OF step(1,4)] adds_trans by blast
  }
qed

lemma confirm_run_adds:
  "length (ss_forwarded s) < 2 ^ 64 \<Longrightarrow> holds_forwarded n (confirm_run m s) \<Longrightarrow> holds_forwarded n s"
proof (induction s rule: confirm_run_induct)
  case (step s f fs s')
  have "unat (ss_first s + 1) = unat (ss_first s) + 1"
    using step(2) by (intro unat_Suc_word) (rule word_less_imp_neq_max)
  with step show ?case by (simp add: holds_forwarded_iff)
qed

lemma ss_offer_adds:
  assumes "ss_offer c cfg s = (parked, out, s')" and "ss_inv cfg s" and "ac_max_forwarded cfg < 2 ^ 64"
  shows "adds s out s'"
proof (cases "ss_state s")
  case None
  obtain p o1 s1 where "park c Wait cfg s = (p, o1, s1)" by (metis prod_cases3)
  with adm_park_effect(4,5) [OF this] None assms(1) show ?thesis
    by (auto simp: ss_offer_def park_for_lookup_def Let_def intro!: adds_same split: if_splits)
next
  case (Some st)
  consider (low) r where "out = [Reject c r]" "s' = s"
    | (ahead) "park c AcceptNow cfg s = (parked, out, s')"
    | (there) o1 s1 o2 where "cd_nonce c = ss_next_nonce st s"
        "forward_or_park c st cfg s = (parked, o1, s1)" "release_run cfg s1 = (o2, s')" "out = o1 @ o2"
    using assms(1) Some by (auto simp: ss_offer_def Let_def split: if_splits prod.splits)
  then show ?thesis
  proof cases
    case low
    then show ?thesis by (simp add: adds_same)
  next
    case ahead
    from adm_park_effect(4,5) [OF this] show ?thesis by (intro adds_same)
  next
    case there
    have "ss_inv cfg s1" using forward_or_park_effect [OF there(2) assms(2) Some] by simp
    from adds_trans [OF forward_or_park_adds [OF there(2,1) assms(2,3)] release_run_adds [OF there(3) this assms(3)]]
    show ?thesis by (simp add: there(4))
  qed
qed

lemma ss_on_state_adds:
  assumes "ss_on_state st fl cfg s = (out, s')" and "ss_inv cfg s" and "ac_max_forwarded cfg < 2 ^ 64"
  shows "adds s out s'"
  using assms(1)
proof (cases rule: ss_on_state_stages)
  case stale
  then show ?thesis by (simp add: adds_same)
next
  case (newer s0 s1 out2 s3)
  let ?t = "s\<lparr>ss_state := Some st, ss_from_lookup := fl, ss_asked := False\<rparr>"
  have short: "length (ss_forwarded ?t) < 2 ^ 64" using assms(2,3) by (simp add: ss_inv_def)
  have "ss_inv cfg ?t" using assms(2) by (simp add: ss_inv_def run_cost_def)
  then have "ss_inv cfg s0" unfolding newer(2) by (rule confirm_run_effect)
  then have "ss_inv cfg s1"
    unfolding newer(3) by (rule ss_inv_parked)
      (use assms(2) in \<open>auto simp: newer(2) ss_inv_def entries_from_def keyed_filter\<close>)
  from release_run_adds [OF newer(4) this assms(3)]
  have run: "holds_forwarded n s1 \<or> n \<in> cd_nonce ` set (forwards out2)" if "holds_forwarded n s'" for n
    using that by (simp add: adds_def newer(5) holds_forwarded_def)
  have "holds_forwarded n s" if "holds_forwarded n s1" for n
  proof -
    from that have "holds_forwarded n s0" by (simp add: newer(3) holds_forwarded_def)
    then have "holds_forwarded n ?t" unfolding newer(2) by (rule confirm_run_adds [OF short])
    then show ?thesis by (simp add: holds_forwarded_def)
  qed
  with run show ?thesis by (auto simp: adds_def newer(6))
qed

lemma ss_on_lost_adds:
  assumes "ss_on_lost n cfg s = (freed, out, s')" and "ss_inv cfg s" and "ac_max_forwarded cfg < 2 ^ 64"
  shows "adds s out s' \<and> (\<forall>m. holds_forwarded m s' \<longrightarrow> m = n \<longrightarrow> m \<in> cd_nonce ` set (forwards out))
    \<and> (\<not> freed \<longrightarrow> out = [] \<and> s' = s)"
proof (cases "holds_forwarded n s")
  case True
  let ?s = "s\<lparr>ss_forwarded := [], ss_spend := 0\<rparr>"
  have "ss_inv cfg ?s" using assms(2) by (simp add: ss_inv_def run_cost_def)
  moreover obtain o1 s1 where run: "release_run cfg ?s = (o1, s1)" by fastforce
  ultimately have "adds ?s o1 s1" using assms(3) by (intro release_run_adds)
  then have "\<forall>m. holds_forwarded m s1 \<longrightarrow> m \<in> cd_nonce ` set (forwards o1)" by (simp add: adds_def)
  with run True assms(1) show ?thesis by (auto simp: ss_on_lost_def adds_def)
next
  case False
  with assms(1) show ?thesis by (auto simp: ss_on_lost_def adds_same)
qed

definition owned :: "address \<Rightarrow> 't SenderState \<Rightarrow> bool" where
  "owned k s \<longleftrightarrow> (\<forall>c \<in># ss_held s. cd_sender c = k)"

lemma owned_default [simp]: "owned k ss_default"
  by (simp add: owned_def)

lemma cd_sender_plain [simp]: "cd_sender (plain c) = cd_sender c"
  by (simp add: plain_def)

lemma forwards_settled: "c \<in> set (forwards out) \<Longrightarrow> plain c \<in> set (settled out)"
  by (induction out rule: settled.induct) auto

lemma owned_step:
  assumes "mset (settled out) + ss_held s' = M + ss_held s" and "owned k s" and "\<forall>c \<in># M. cd_sender c = k"
  shows "owned k s'" and "\<forall>c \<in> set (forwards out). cd_sender c = k"
proof -
  have "\<forall>c \<in># mset (settled out) + ss_held s'. cd_sender c = k"
    unfolding assms(1) using assms(2,3) by (auto simp: owned_def)
  then show "owned k s'" "\<forall>c \<in> set (forwards out). cd_sender c = k"
    using forwards_settled [of _ out] by (auto simp: owned_def) (metis cd_sender_plain UnI1)
qed

definition mark_keys :: "ForwardMark list \<Rightarrow> (address \<times> u64) set" where
  "mark_keys marks = (\<lambda>m. (fm_sender m, fm_nonce m)) ` set marks"

lemma mark_keys_record [simp]:
  "mark_keys (ad_forwards (record_forwards out a))
    = mark_keys (ad_forwards a) \<union> (\<lambda>c. (cd_sender c, cd_nonce c)) ` set (forwards out)"
  unfolding record_forwards_def
  by (induction out rule: forwards.induct) (auto simp: mark_keys_def List.map_filter_def)

definition run_ok :: "AdmissionConfig \<Rightarrow> 't senders \<Rightarrow> (address \<times> u64) set \<Rightarrow> bool" where
  "run_ok cfg m K \<longleftrightarrow> fine cfg m \<and>
     (\<forall>k s. map_of m k = Some s \<longrightarrow> owned k s \<and> (\<forall>n. holds_forwarded n s \<longrightarrow> (k, n) \<in> K))"

lemma run_ok_entry:
  assumes "run_ok cfg m K"
  shows "ss_inv cfg (sender_entry k m)" and "owned k (sender_entry k m)"
    and "holds_forwarded n (sender_entry k m) \<Longrightarrow> (k, n) \<in> K"
proof -
  show "ss_inv cfg (sender_entry k m)" using assms by (simp add: run_ok_def fine_def all_senders_entry)
  show "owned k (sender_entry k m)"
    using assms by (simp add: run_ok_def sender_entry_def split: option.splits)
  show "(k, n) \<in> K" if "holds_forwarded n (sender_entry k m)"
    using assms that by (auto simp: run_ok_def sender_entry_def ss_default_def split: option.splits)
qed

lemma run_ok_insert:
  assumes "run_ok cfg m K" and "K \<subseteq> K'" and "ss_inv cfg s'" and "owned k s'"
    and "\<And>n. holds_forwarded n s' \<Longrightarrow> (k, n) \<in> K'"
  shows "run_ok cfg (hm_insert k s' m) K'"
  using assms by (auto simp: run_ok_def fine_def)

lemma run_ok_step:
  assumes "run_ok cfg m K" and "ss_inv cfg s'" and "adds (sender_entry k m) out s'"
    and "mset (settled out) + ss_held s' = M + ss_held (sender_entry k m)" and "\<forall>c \<in># M. cd_sender c = k"
    and "K \<union> (\<lambda>c. (cd_sender c, cd_nonce c)) ` set (forwards out) \<subseteq> K'"
  shows "run_ok cfg (hm_insert k s' m) K'"
proof -
  note own = owned_step [OF assms(4) run_ok_entry(2) [OF assms(1)] assms(5)]
  have "(k, n) \<in> K'" if h: "holds_forwarded n s'" for n
  proof (cases "holds_forwarded n (sender_entry k m)")
    case True
    from run_ok_entry(3) [OF assms(1) this] assms(6) show ?thesis by auto
  next
    case False
    then obtain c where "c \<in> set (forwards out)" "n = cd_nonce c" using assms(3) h by (auto simp: adds_def)
    with own(2) assms(6) show ?thesis by auto
  qed
  moreover have "K \<subseteq> K'" using assms(6) by simp
  ultimately show ?thesis using run_ok_insert [OF assms(1) _ assms(2) own(1)] by simp
qed

text \<open>
  The stamped marks are a prefix of the forward marks in the order of their blocks, none above the
  newest block of rows.
\<close>

definition stamps_ok :: "'t Admission \<Rightarrow> bool" where
  "stamps_ok a \<longleftrightarrow> ad_stamped a \<le> length (ad_forwards a) \<and>
     sorted (map fm_block (take (ad_stamped a) (ad_forwards a))) \<and>
     (\<forall>m \<in> set (take (ad_stamped a) (ad_forwards a)). fm_block m \<le> ad_block a)"

definition loss_inv :: "'t Admission \<Rightarrow> bool" where
  "loss_inv a \<longleftrightarrow> ac_max_forwarded (ad_cfg a) < 2 ^ 64 \<and> stamps_ok a \<and>
     run_ok (ad_cfg a) (ad_senders a) (mark_keys (ad_forwards a))"

lemma stamps_record [simp]: "stamps_ok a \<Longrightarrow> stamps_ok (record_forwards out a)"
  by (auto simp: stamps_ok_def record_forwards_def)

lemma stamps_frame:
  "stamps_ok a \<Longrightarrow> ad_forwards a' = ad_forwards a \<Longrightarrow> ad_stamped a' = ad_stamped a \<Longrightarrow>
    ad_block a' = ad_block a \<Longrightarrow> stamps_ok a'"
  by (simp add: stamps_ok_def)

lemma loss_inv_frame:
  "loss_inv a \<Longrightarrow> ad_forwards a' = ad_forwards a \<Longrightarrow> ad_stamped a' = ad_stamped a \<Longrightarrow>
    ad_block a' = ad_block a \<Longrightarrow> ad_cfg a' = ad_cfg a \<Longrightarrow> ad_senders a' = ad_senders a \<Longrightarrow> loss_inv a'"
  by (auto simp: loss_inv_def intro: stamps_frame)

text \<open>One sender replaced by the result of a call on it, with the forwards of the call recorded.\<close>

lemma loss_inv_step:
  assumes "loss_inv a" and "ss_inv (ad_cfg a) s'" and "adds (sender_entry k (ad_senders a)) out s'"
    and "mset (settled out) + ss_held s' = M + ss_held (sender_entry k (ad_senders a))"
    and "\<forall>c \<in># M. cd_sender c = k"
    and "ad_senders a' = hm_insert k s' (ad_senders a)" and "ad_forwards a' = ad_forwards a"
    and "ad_stamped a' = ad_stamped a" and "ad_block a' = ad_block a" and "ad_cfg a' = ad_cfg a"
  shows "loss_inv (record_forwards out a')"
proof -
  have ok: "run_ok (ad_cfg a) (ad_senders a) (mark_keys (ad_forwards a))" and "stamps_ok a"
    using assms(1) by (simp_all add: loss_inv_def)
  have "stamps_ok a'" by (rule stamps_frame [OF \<open>stamps_ok a\<close> assms(7-9)])
  with run_ok_step [OF ok assms(2-5) subset_refl] assms(1,6-10) show ?thesis
    by (simp add: loss_inv_def)
qed

lemma loss_inv_touch:
  assumes "loss_inv a" and "map_of (ad_senders a) k = Some s" and "ss_held s' = ss_held s"
    and "ss_first s' = ss_first s" and "ss_forwarded s' = ss_forwarded s" and "ss_inv (ad_cfg a) s \<Longrightarrow> ss_inv (ad_cfg a) s'"
    and "ad_senders a' = hm_insert k s' (ad_senders a)" and "ad_forwards a' = ad_forwards a"
    and "ad_stamped a' = ad_stamped a" and "ad_block a' = ad_block a" and "ad_cfg a' = ad_cfg a"
  shows "loss_inv a'"
proof -
  have s: "sender_entry k (ad_senders a) = s" using assms(2) by (simp add: sender_entry_def)
  have "run_ok (ad_cfg a) (ad_senders a) (mark_keys (ad_forwards a))" using assms(1) by (simp add: loss_inv_def)
  from run_ok_entry(1) [OF this, of k] have "ss_inv (ad_cfg a) s" by (simp add: s)
  then have "loss_inv (record_forwards [] a')"
    using assms s by (intro loss_inv_step [where M = "{#}" and k = k and s' = s']) (simp_all add: adds_same)
  then show ?thesis by (simp add: record_forwards_def List.map_filter_simps)
qed

lemma adm_queue_relook_loss: "loss_inv a \<Longrightarrow> loss_inv (adm_queue_relook sender a)"
proof (cases "map_of (ad_senders a) sender")
  case (Some s)
  assume "loss_inv a"
  from loss_inv_touch [OF this Some, of "snd (ss_queue_relook s)"] this show ?thesis
    by (simp add: adm_queue_relook_def Some split_beta Let_def ss_small_inv)
      (simp add: ss_queue_relook_def)
qed (simp add: adm_queue_relook_def)

lemma loss_inv_ok:
  assumes "loss_inv a"
  shows "ss_inv (ad_cfg a) (sender_entry k (ad_senders a))" and "ac_max_forwarded (ad_cfg a) < 2 ^ 64"
    and "map_of (ad_senders a) k = Some s \<Longrightarrow> ss_inv (ad_cfg a) s"
  using assms by (auto simp: loss_inv_def run_ok_def fine_def all_senders_entry all_senders_at)

lemma adm_offer_loss: "loss_inv a \<Longrightarrow> loss_inv (snd (adm_offer c a))"
proof -
  assume inv: "loss_inv a"
  let ?s = "sender_entry (cd_sender c) (ad_senders a)"
  obtain parked out s where offer: "ss_offer c (ad_cfg a) ?s = (parked, out, s)" by (metis prod_cases3)
  have step: "loss_inv (record_forwards out a')"
    if "ad_senders a' = hm_insert (cd_sender c) s (ad_senders a)" "ad_forwards a' = ad_forwards a"
      "ad_stamped a' = ad_stamped a" "ad_block a' = ad_block a" "ad_cfg a' = ad_cfg a" for a'
    using that ss_offer_conserves [OF offer] ss_offer_effect [OF offer loss_inv_ok(1) [OF inv]]
      ss_offer_adds [OF offer loss_inv_ok(1,2) [OF inv]]
    by (intro loss_inv_step [OF inv, where M = "{#plain c#}" and k = "cd_sender c" and s' = s]) simp_all
  have "record_forwards out (adm_queue_relook k a') = adm_queue_relook k (record_forwards out a')" for k a'
    by (simp add: adm_queue_relook_def record_forwards_def Let_def split_beta split: option.splits)
  then show ?thesis
    by (cases parked) (simp_all add: adm_offer_def offer Let_def step adm_queue_relook_loss)
qed

lemma apply_state_loss: "loss_inv a \<Longrightarrow> loss_inv (snd (apply_state address st fl a))"
proof -
  assume inv: "loss_inv a"
  let ?s = "sender_entry address (ad_senders a)"
  obtain out s where on: "ss_on_state st fl (ad_cfg a) ?s = (out, s)" by fastforce
  have "loss_inv (record_forwards out (a\<lparr>ad_senders := hm_insert address s (ad_senders a)\<rparr>))"
    using ss_on_state_conserves [OF on] sender_ops_inv(2) [OF on loss_inv_ok(1) [OF inv]]
      ss_on_state_adds [OF on loss_inv_ok(1,2) [OF inv]]
    by (intro loss_inv_step [OF inv, where M = "{#}" and k = address and s' = s]) simp_all
  then show ?thesis by (simp add: apply_state_def on)
qed

lemma apply_rows_loss: "loss_inv a \<Longrightarrow> loss_inv (snd (apply_rows rows a))"
  by (induction rows arbitrary: a) (simp_all add: split_paired_all split_beta apply_state_loss)

lemma apply_state_frame [simp]:
  "ad_stamped (snd (apply_state address st fl a)) = ad_stamped a"
  "ad_block (snd (apply_state address st fl a)) = ad_block a"
  "ad_cfg (snd (apply_state address st fl a)) = ad_cfg a"
  by (simp_all add: apply_state_def split_beta)

lemma apply_rows_frame [simp]:
  "ad_stamped (snd (apply_rows rows a)) = ad_stamped a" "ad_block (snd (apply_rows rows a)) = ad_block a"
  "ad_cfg (snd (apply_rows rows a)) = ad_cfg a"
  by (induction rows arbitrary: a) (simp_all add: split_paired_all split_beta)

lemma mark_keys_append: "mark_keys (xs @ ys) = mark_keys xs \<union> mark_keys ys"
  by (simp add: mark_keys_def image_Un)

lemma mark_keys_stamp:
  "mark_keys (take i marks @ map (\<lambda>m. m\<lparr>fm_block := b\<rparr>) (drop i marks)) = mark_keys marks"
proof -
  have "mark_keys (map (\<lambda>m. m\<lparr>fm_block := b\<rparr>) ms) = mark_keys ms" for ms
    by (simp add: mark_keys_def image_image)
  then show ?thesis by (simp add: mark_keys_append flip: mark_keys_append [of "take i marks" "drop i marks", simplified])
qed

lemma stamps_all:
  "sorted (map fm_block marks) \<Longrightarrow> \<forall>m \<in> set marks. fm_block m \<le> ad_block a \<Longrightarrow>
    stamps_ok (a\<lparr>ad_forwards := marks, ad_stamped := length marks\<rparr>)"
  by (simp add: stamps_ok_def)

lemma adm_on_rows_loss:
  assumes "loss_inv a" and "ad_block a \<le> block"
  shows "loss_inv (snd (adm_on_rows block rows a))"
proof -
  let ?a = "snd (apply_rows rows (a\<lparr>ad_block := block\<rparr>))"
  let ?marks = "take (ad_stamped ?a) (ad_forwards ?a) @
    map (\<lambda>m. m\<lparr>fm_block := block\<rparr>) (drop (ad_stamped ?a) (ad_forwards ?a))"
  have "loss_inv (a\<lparr>ad_block := block\<rparr>)"
    using assms by (auto simp: loss_inv_def stamps_ok_def intro: order_trans)
  then have inv: "loss_inv ?a" by (rule apply_rows_loss)
  then have "sorted (map fm_block ?marks) \<and> (\<forall>m \<in> set ?marks. fm_block m \<le> block)"
    by (auto simp: loss_inv_def stamps_ok_def sorted_append sorted_map sorted_wrt_map comp_def)
  then have "stamps_ok (?a\<lparr>ad_forwards := ?marks, ad_stamped := length ?marks\<rparr>)"
    by (intro stamps_all) simp_all
  moreover have "mark_keys ?marks = mark_keys (ad_forwards ?a)" by (rule mark_keys_stamp)
  ultimately have "loss_inv (?a\<lparr>ad_forwards := ?marks, ad_stamped := length ?marks\<rparr>)"
    using inv by (simp add: loss_inv_def)
  moreover have "max (ad_block a) block = block" using assms(2) by (simp add: max_def)
  ultimately show ?thesis by (simp add: adm_on_rows_def split_beta Let_def)
qed

lemma lose_loss: "loss_inv a \<Longrightarrow> loss_inv (snd (lose sender nonce a))"
proof (cases "map_of (ad_senders a) sender")
  case (Some s)
  assume inv: "loss_inv a"
  have s: "sender_entry sender (ad_senders a) = s" using Some by (simp add: sender_entry_def)
  obtain freed out s' where lost: "ss_on_lost nonce (ad_cfg a) s = (freed, out, s')" by (metis prod_cases3)
  note adds = ss_on_lost_adds [OF lost loss_inv_ok(3) [OF inv Some] loss_inv_ok(2) [OF inv]]
  have "loss_inv (record_forwards out (a\<lparr>ad_senders := hm_insert sender s' (ad_senders a)\<rparr>))"
    using ss_on_lost_conserves [OF lost] ss_on_lost_inv [OF loss_inv_ok(3) [OF inv Some] lost] adds
    by (intro loss_inv_step [OF inv, where M = "{#}" and k = sender and s' = s']) (simp_all add: s)
  moreover have "record_forwards out a' = a'" if "\<not> freed" for a' :: "'a Admission"
    using adds that by (simp add: record_forwards_def List.map_filter_simps)
  ultimately show ?thesis by (cases freed) (simp_all add: lose_def Some lost Let_def)
qed (simp add: lose_def)

text \<open>The mark at the front leaves, and the run that it belongs to is lost with it.\<close>

lemma expire_forward_loss:
  assumes "loss_inv a" and "ad_stamped a > 0"
  shows "loss_inv (snd (expire_forward a))"
proof (cases "ad_forwards a")
  case Nil
  then show ?thesis using assms by (simp add: loss_inv_def stamps_ok_def)
next
  case (Cons mark rest)
  let ?a = "a\<lparr>ad_forwards := rest, ad_stamped := ad_stamped a - 1\<rparr>"
  let ?k = "fm_sender mark" and ?n = "fm_nonce mark"
  have stamps: "stamps_ok ?a"
    using assms Cons by (cases "ad_stamped a") (auto simp: loss_inv_def stamps_ok_def)
  have ok: "run_ok (ad_cfg a) (ad_senders a) (insert (?k, ?n) (mark_keys rest))"
    using assms(1) Cons by (simp add: loss_inv_def mark_keys_def)
  show ?thesis
  proof (cases "map_of (ad_senders a) ?k")
    case None
    then have "run_ok (ad_cfg a) (ad_senders a) (mark_keys rest)"
      using ok by (fastforce simp: run_ok_def)
    with stamps assms(1) None Cons show ?thesis by (simp add: expire_forward_def lose_def loss_inv_def)
  next
    case (Some s)
    obtain freed out s' where lost: "ss_on_lost ?n (ad_cfg a) s = (freed, out, s')" by (metis prod_cases3)
    have inv: "ss_inv (ad_cfg a) s" by (rule loss_inv_ok(3) [OF assms(1) Some])
    note adds = ss_on_lost_adds [OF lost inv loss_inv_ok(2) [OF assms(1)]]
    have own: "owned ?k s" using ok Some by (simp add: run_ok_def)
    note own' = owned_step [where M = "{#}", simplified, OF ss_on_lost_conserves [OF lost] own]
    let ?K = "mark_keys rest \<union> (\<lambda>c. (cd_sender c, cd_nonce c)) ` set (forwards out)"
    have "(?k, n) \<in> ?K" if h: "holds_forwarded n s'" for n
    proof (cases "n \<in> cd_nonce ` set (forwards out)")
      case True
      with own'(2) show ?thesis by auto
    next
      case False
      with adds h have "holds_forwarded n s" "n \<noteq> ?n" by (auto simp: adds_def)
      with ok Some show ?thesis by (auto simp: run_ok_def)
    qed
    moreover have "(k, n) \<in> ?K" if "k \<noteq> ?k" "map_of (ad_senders a) k = Some t" "holds_forwarded n t" for k n t
      using ok that by (auto simp: run_ok_def)
    ultimately have "run_ok (ad_cfg a) (hm_insert ?k s' (ad_senders a)) ?K"
      using ok own'(1) ss_on_lost_inv [OF inv lost] by (auto simp: run_ok_def fine_def)
    then have "loss_inv (record_forwards out (?a\<lparr>ad_senders := hm_insert ?k s' (ad_senders a)\<rparr>))"
      using stamps assms(1) by (simp add: loss_inv_def stamps_frame)
    moreover have "record_forwards out a' = a'" if "\<not> freed" for a' :: "'a Admission"
      using adds that by (simp add: record_forwards_def List.map_filter_simps)
    ultimately show ?thesis using Cons Some lost
      by (cases freed) (simp_all add: expire_forward_def lose_def Let_def)
  qed
qed

lemma loss_inv_senders:
  assumes "loss_inv a" and "run_ok (ad_cfg a) m (mark_keys (ad_forwards a))"
    and "ad_senders a' = m" "ad_forwards a' = ad_forwards a" "ad_stamped a' = ad_stamped a"
    and "ad_block a' = ad_block a" "ad_cfg a' = ad_cfg a"
  shows "loss_inv a'"
  using assms stamps_frame [of a a'] by (simp add: loss_inv_def)

lemma expire_front_run:
  assumes "run_ok cfg m K"
  shows "run_ok cfg (snd (expire_front mark m)) K"
proof (cases "map_of m (pm_sender mark)")
  case (Some s)
  obtain taken s' where unpark: "unpark (pm_nonce mark) (pm_unit mark) s = (taken, s')" by fastforce
  have s: "sender_entry (pm_sender mark) m = s" using Some by (simp add: sender_entry_def)
  have inv: "ss_inv cfg s" using run_ok_entry(1) [OF assms, of "pm_sender mark"] s by simp
  have "ss_inv cfg s'" using ss_small_inv(1) [OF inv, of "pm_nonce mark" "pm_unit mark"] unpark by simp
  moreover have "keyed (ss_parked s)" using inv by (simp add: ss_inv_def)
  note unpark_conserves [OF this unpark]
  moreover have "ss_first s' = ss_first s \<and> ss_forwarded s' = ss_forwarded s"
    using unpark by (auto simp: unpark_def Let_def split: if_splits)
  ultimately have "run_ok cfg (hm_insert (pm_sender mark) s' m) K"
    by (intro run_ok_step [OF assms, where M = "{#}" and
          out = "case taken of None \<Rightarrow> [] | Some c \<Rightarrow> [Reject c (Expired 0)]"])
      (auto simp: s intro: adds_same split: option.splits)
  with Some unpark show ?thesis by (simp add: expire_front_def)
qed (simp add: expire_front_def assms)

lemma expire_marks_run:
  "run_ok cfg m K \<Longrightarrow> run_ok cfg (snd (snd (expire_marks limit h marks m))) K"
  by (induction marks arbitrary: m) (simp_all add: split_beta expire_front_run)

lemma expire_images_run:
  "run_ok cfg m K \<Longrightarrow> run_ok cfg (snd (snd (expire_images limit images m))) K"
  by (induction images arbitrary: m) (simp_all add: split_paired_all split_beta expire_marks_run)

lemma relook_front_loss: "loss_inv a \<Longrightarrow> loss_inv (snd (relook_front a))"
proof (cases "ad_relooks a")
  case (Cons r rest)
  assume inv: "loss_inv a"
  show ?thesis
  proof (cases "map_of (ad_senders a) (rl_sender r)")
    case None
    with Cons inv show ?thesis by (auto simp: relook_front_def intro: loss_inv_frame)
  next
    case (Some s)
    let ?a = "a\<lparr>ad_relooks := rest, ad_senders := hm_insert (rl_sender r) (snd (ss_relook s)) (ad_senders a)\<rparr>"
    have "loss_inv ?a"
      by (rule loss_inv_touch [OF inv Some, of "snd (ss_relook s)"])
        (simp_all add: ss_small_inv, simp_all add: ss_relook_def Let_def)
    with Cons Some show ?thesis by (simp add: relook_front_def split_beta Let_def)
  qed
qed (simp add: relook_front_def)

lemma relook_due_loss: "loss_inv a \<Longrightarrow> loss_inv (snd (relook_due now a))"
proof (induction now a rule: relook_due.induct)
  case (1 now a)
  show ?case
  proof (cases "ad_relooks a \<noteq> [] \<and> rl_due (hd (ad_relooks a)) \<le> now")
    case True
    from 1(1) [OF True refl prod.collapse relook_front_loss [OF 1(2)]] True show ?thesis
      by (subst relook_due.simps) (simp add: split_beta)
  next
    case False
    with 1(2) show ?thesis by (subst relook_due.simps) auto
  qed
qed

lemma saturating_add_mono:
  "a \<le> (b :: 'a::len word) \<Longrightarrow> saturating_add a w \<le> saturating_add b w"
  by (simp add: word_le_nat_alt unat_saturating_add)

text \<open>After the loop every stamped mark is within the window.\<close>

definition within_window :: "'t Admission \<Rightarrow> bool" where
  "within_window a \<longleftrightarrow> (\<forall>m \<in> set (take (ad_stamped a) (ad_forwards a)).
     ad_block a < saturating_add (fm_block m) (ac_loss_blocks (ad_cfg a)))"

lemma expire_forwards_loss:
  "loss_inv a \<Longrightarrow> loss_inv (snd (expire_forwards a)) \<and> within_window (snd (expire_forwards a))"
proof (induction a rule: expire_forwards.induct)
  case (1 a)
  show ?case
  proof (cases "ad_stamped a > 0 \<and> ad_forwards a \<noteq> [] \<and>
      saturating_add (fm_block (hd (ad_forwards a))) (ac_loss_blocks (ad_cfg a)) \<le> ad_block a")
    case True
    have "loss_inv (snd (expire_forward a))" using 1(2) True by (intro expire_forward_loss) simp_all
    from 1(1) [OF True refl prod.collapse this] True show ?thesis
      by (subst (1 2) expire_forwards.simps) (simp add: split_beta)
  next
    case False
    have "within_window a"
    proof (cases "take (ad_stamped a) (ad_forwards a)")
      case (Cons m ms)
      then have front: "ad_stamped a > 0" "ad_forwards a \<noteq> []" "hd (ad_forwards a) = m"
        by (auto simp: take_eq_Nil hd_take [symmetric] simp del: hd_take) (metis hd_take list.sel(1) gr0I take_eq_Nil list.simps(3))+
      have "sorted (map fm_block (m # ms))" using 1(2) Cons by (simp add: loss_inv_def stamps_ok_def)
      then have "fm_block m \<le> fm_block x" if "x \<in> set (m # ms)" for x using that by auto
      moreover have "ad_block a < saturating_add (fm_block m) (ac_loss_blocks (ad_cfg a))"
        using False front by auto
      ultimately show ?thesis unfolding within_window_def Cons
        using saturating_add_mono less_le_trans by blast
    next
      case Nil
      then show ?thesis unfolding within_window_def by (simp only: Nil) simp
    qed
    with False 1(2) show ?thesis by (subst (1 2) expire_forwards.simps) auto
  qed
qed

lemma run_ok_filter: "run_ok cfg m K \<Longrightarrow> run_ok cfg (filter P m) K"
  using map_of_filter_sub [of m P] by (auto simp: run_ok_def fine_filter) (auto simp: fine_def)

lemma expire_forwards_frame [simp]: "ad_cfg (snd (expire_forwards a)) = ad_cfg a"
  using expire_forwards_sound [of a] by (simp add: sound_def)

lemma relook_front_frame [simp]:
  "ad_forwards (snd (relook_front a)) = ad_forwards a" "ad_stamped (snd (relook_front a)) = ad_stamped a"
  "ad_block (snd (relook_front a)) = ad_block a" "ad_cfg (snd (relook_front a)) = ad_cfg a"
  "ad_images (snd (relook_front a)) = ad_images a" "ad_now (snd (relook_front a)) = ad_now a"
  by (simp_all add: relook_front_def Let_def split_beta split: list.splits option.splits)

lemma relook_due_frame [simp]:
  "ad_forwards (snd (relook_due now a)) = ad_forwards a" "ad_stamped (snd (relook_due now a)) = ad_stamped a"
  "ad_block (snd (relook_due now a)) = ad_block a" "ad_cfg (snd (relook_due now a)) = ad_cfg a"
  "ad_images (snd (relook_due now a)) = ad_images a" "ad_now (snd (relook_due now a)) = ad_now a"
proof (induction now a rule: relook_due.induct)
  case (1 now a)
  note IH = 1 [OF _ refl prod.collapse]
  {
    case 1
    with IH(1) show ?case by (subst relook_due.simps) (auto simp: split_beta)
  next
    case 2
    with IH(2) show ?case by (subst relook_due.simps) (auto simp: split_beta)
  next
    case 3
    with IH(3) show ?case by (subst relook_due.simps) (auto simp: split_beta)
  next
    case 4
    with IH(4) show ?case by (subst relook_due.simps) (auto simp: split_beta)
  next
    case 5
    with IH(5) show ?case by (subst relook_due.simps) (auto simp: split_beta)
  next
    case 6
    with IH(6) show ?case by (subst relook_due.simps) (auto simp: split_beta)
  }
qed

text \<open>A sweep as its four stages.\<close>

lemma adm_sweep_stages:
  obtains a1 out1 out2 m out3 a3 images where "expire_forwards (a\<lparr>ad_now := now\<rparr>) = (out1, a1)"
    "expire_images (park_limit (ad_cfg a) now) (ad_images a1) (ad_senders a1) = (out2, images, m)"
    "relook_due now (a1\<lparr>ad_images := images, ad_senders := m\<rparr>) = (out3, a3)"
    "fst (adm_sweep now a) = out1 @ out2 @ out3"
    "snd (adm_sweep now a) = (if ac_max_senders (ad_cfg a3) < length (ad_senders a3)
      then a3\<lparr>ad_senders := filter (\<lambda>(_, s). \<not> is_idle s) (ad_senders a3)\<rparr> else a3)"
proof -
  obtain out1 a1 where 1: "expire_forwards (a\<lparr>ad_now := now\<rparr>) = (out1, a1)" by fastforce
  have cfg: "ad_cfg a1 = ad_cfg a" using expire_forwards_frame [of "a\<lparr>ad_now := now\<rparr>"] 1 by simp
  obtain out2 images m where 2:
    "expire_images (park_limit (ad_cfg a) now) (ad_images a1) (ad_senders a1) = (out2, images, m)"
    by (metis prod_cases3)
  obtain out3 a3 where 3: "relook_due now (a1\<lparr>ad_images := images, ad_senders := m\<rparr>) = (out3, a3)"
    by fastforce
  show thesis
    by (rule that [OF 1 2 3]) (simp_all add: adm_sweep_def 1 cfg 2 3)
qed

lemma adm_sweep_loss:
  assumes "loss_inv a"
  shows "loss_inv (snd (adm_sweep now a)) \<and> within_window (snd (adm_sweep now a))"
proof (rule adm_sweep_stages [where a = a and now = now])
  fix out1 a1 out2 images m out3 a3
  assume 1: "expire_forwards (a\<lparr>ad_now := now\<rparr>) = (out1, a1)"
    and 2: "expire_images (park_limit (ad_cfg a) now) (ad_images a1) (ad_senders a1) = (out2, images, m)"
    and 3: "relook_due now (a1\<lparr>ad_images := images, ad_senders := m\<rparr>) = (out3, a3)"
    and swept: "snd (adm_sweep now a) = (if ac_max_senders (ad_cfg a3) < length (ad_senders a3)
      then a3\<lparr>ad_senders := filter (\<lambda>(_, s). \<not> is_idle s) (ad_senders a3)\<rparr> else a3)"
  let ?a2 = "a1\<lparr>ad_images := images, ad_senders := m\<rparr>"
  have "loss_inv (a\<lparr>ad_now := now\<rparr>)" by (rule loss_inv_frame [OF assms]) simp_all
  from expire_forwards_loss [OF this] 1 have one: "loss_inv a1" "within_window a1" by simp_all
  then have "run_ok (ad_cfg a1) m (mark_keys (ad_forwards a1))"
    using expire_images_run [of "ad_cfg a1" "ad_senders a1" _ "park_limit (ad_cfg a) now" "ad_images a1"] 2
    by (simp add: loss_inv_def)
  then have two: "loss_inv ?a2" by (intro loss_inv_senders [OF one(1)]) simp_all
  from relook_due_loss [OF this, of now] 3 have three: "loss_inv a3" by simp
  have "within_window a3" using one(2) relook_due_frame [of now ?a2] 3 by (simp add: within_window_def)
  moreover have "loss_inv (a3\<lparr>ad_senders := filter P (ad_senders a3)\<rparr>)" for P
    by (rule loss_inv_senders [OF three]) (use three in \<open>simp_all add: loss_inv_def run_ok_filter\<close>)
  ultimately show ?thesis using three swept by (simp add: within_window_def)
qed

lemma adm_on_rollback_loss: "loss_inv a \<Longrightarrow> loss_inv (adm_on_rollback a)"
proof -
  assume inv: "loss_inv a"
  let ?m = "map (\<lambda>(k, s). (k, forget_state s)) (ad_senders a)"
  have "fine (ad_cfg a) ?m"
    using adm_on_rollback_sound [of a] inv
    by (simp add: sound_def conserves_def loss_inv_def run_ok_def adm_on_rollback_def)
  moreover have "owned k (forget_state s) = owned k s" "holds_forwarded n (forget_state s) = holds_forwarded n s"
    for k n and s :: "'a SenderState"
    by (simp_all add: owned_def) (simp add: holds_forwarded_def forget_state_def)
  ultimately have "run_ok (ad_cfg a) ?m (mark_keys (ad_forwards a))"
    using inv by (auto simp: loss_inv_def run_ok_def map_of_map)
  then show ?thesis by (intro loss_inv_senders [OF inv]) (simp_all add: adm_on_rollback_def)
qed

fun rows_ascend :: "'t FilterEvent \<Rightarrow> 't Admission \<Rightarrow> bool" where
  "rows_ascend (Rows block _) a \<longleftrightarrow> ad_block a \<le> block"
| "rows_ascend _ a \<longleftrightarrow> True"

lemma adm_on_lookup_loss: "loss_inv a \<Longrightarrow> loss_inv (snd (adm_on_lookup address st a))"
  by (simp add: adm_on_lookup_def split_beta apply_state_loss adm_queue_relook_loss)

interpretation losing: invariant_machine filter_next rows_ascend loss_inv
proof
  fix a :: "'t Admission" and e
  assume "loss_inv a" "rows_ascend e a"
  then show "loss_inv (filter_next e a)"
    by (cases e) (simp_all add: filter_next_def adm_offer_loss adm_on_rows_loss adm_on_lookup_loss
        adm_on_rollback_loss adm_on_refused_def lose_loss adm_sweep_loss)
qed

lemma filter_next_cfg: "ad_cfg (filter_next e a) = ad_cfg a"
  using filter_step_sound [of e a] by (simp add: sound_def filter_next_def)

lemma filter_run_cfg: "ad_cfg (fold filter_next es a) = ad_cfg a"
  by (induction es arbitrary: a) (simp_all add: filter_next_cfg)

lemma admissible_prefix: "admissible_run step ok (xs @ ys) s \<Longrightarrow> admissible_run step ok xs s"
  by (induction xs arbitrary: s) auto



end
