(* ===== verification/Admission_Park.thy ===== *)
theory Admission_Park
  imports Admission
begin

text \<open>
  The expiry of parked transactions in \<open>crates/sequencer/src/admission/mod.rs\<close>: every parked
  transaction has a mark in the queue of its image, the marks of an image are in the order of
  their units and times, and so a sweep leaves nothing parked past its width or its time.
\<close>

section \<open>Marks and parked candidates\<close>

type_synonym park_key = "image_key \<times> u64 \<times> address \<times> u64"

definition candidate_key :: "'t Candidate \<Rightarrow> park_key" where
  "candidate_key c = (image_key (cd_image c), ip_unit (cd_image c), cd_sender c, cd_nonce c)"

definition mark_key :: "image_key \<Rightarrow> ParkMark \<Rightarrow> park_key" where
  "mark_key key m = (key, pm_unit m, pm_sender m, pm_nonce m)"

definition park_keys :: "(image_key, ImageMarks) hash_map \<Rightarrow> park_key set" where
  "park_keys images = (\<Union>(key, marks) \<in> set images. mark_key key ` set (im_parked marks))"

lemma candidate_key_plain [simp]: "candidate_key (plain c) = candidate_key c"
  by (simp add: candidate_key_def plain_def)

definition all_owned :: "'t senders \<Rightarrow> bool" where
  "all_owned m \<longleftrightarrow> (\<forall>(k, s) \<in> set m. owned k s)"

definition covers :: "park_key set \<Rightarrow> 't senders \<Rightarrow> bool" where
  "covers K m \<longleftrightarrow> (\<forall>c \<in># held_by m. candidate_key c \<in> K)"

lemma in_held_by: "c \<in># held_by m \<longleftrightarrow> (\<exists>(k, s) \<in> set m. c \<in># ss_held s)"
  by (induction m) (auto simp: held_by_def)

lemma covers_conserved:
  "conserves cfg M m out m' \<Longrightarrow> fine cfg m \<Longrightarrow> covers K m \<Longrightarrow> (\<And>c. c \<in># M \<Longrightarrow> candidate_key c \<in> K) \<Longrightarrow> covers K m'"
proof -
  assume "conserves cfg M m out m'" "fine cfg m" and K: "covers K m" "\<And>c. c \<in># M \<Longrightarrow> candidate_key c \<in> K"
  then have "mset (settled out) + held_by m' = M + held_by m" by (simp add: conserves_def)
  then have "held_by m' \<subseteq># M + held_by m" by (metis mset_subset_eq_add_right)
  with K show "covers K m'" unfolding covers_def by (metis mset_subset_eqD union_iff)
qed

lemma run_ok_owned: "run_ok cfg m K \<Longrightarrow> all_owned m"
  by (auto simp: run_ok_def all_owned_def fine_def hm_inv_def intro: map_of_is_SomeI)

lemma in_ss_held: "c \<in># ss_held s \<longleftrightarrow> (\<exists>(n, d) \<in> set (ss_parked s). c = plain d)"
  by (simp add: ss_held_def image_iff split_beta)

lemma unpark_gone:
  assumes "ss_inv cfg s" and "c \<in># ss_held (snd (unpark n u s))" and "cd_nonce c = n"
  shows "ip_unit (cd_image c) \<noteq> u"
proof
  assume u: "ip_unit (cd_image c) = u"
  have keyed: "keyed (ss_parked s)" using assms(1) by (simp add: ss_inv_def)
  obtain k d where d: "(k, d) \<in> set (ss_parked (snd (unpark n u s)))" "c = plain d"
    using assms(2) by (auto simp: in_ss_held)
  then have "(k, d) \<in> set (ss_parked s)" by (auto simp: unpark_def Let_def map_remove_def split: if_splits)
  moreover from this have "k = n" using keyed d(2) assms(3) by (auto simp: keyed_def plain_def)
  ultimately have "map_of (ss_parked s) n = Some d"
    using keyed by (auto simp: keyed_def intro: map_of_is_SomeI dest: bt_inv_distinct)
  then have "ss_parked (snd (unpark n u s)) = map_remove n (ss_parked s)"
    using u d(2) by (simp add: unpark_def plain_def)
  with d(1) \<open>k = n\<close> show False by (auto simp: map_remove_def)
qed

lemma hm_insert_set:
  "hm_inv m \<Longrightarrow> (k', s') \<in> set (hm_insert k s m) \<longleftrightarrow> (if k' = k then s' = s else (k', s') \<in> set m)"
  using map_of_eq_Some_iff [of "hm_insert k s m" k' s'] map_of_eq_Some_iff [of m k' s']
  by (auto simp: hm_inv_def distinct_update)

text \<open>An expired mark leaves no candidate with its key.\<close>

lemma expire_front_gone:
  assumes "fine cfg m" and "all_owned m" and "c \<in># held_by (snd (expire_front mark m))"
  shows "candidate_key c \<noteq> mark_key key mark"
proof
  assume key: "candidate_key c = mark_key key mark"
  let ?k = "pm_sender mark" and ?n = "pm_nonce mark" and ?u = "pm_unit mark"
  have c: "cd_sender c = ?k" "cd_nonce c = ?n" "ip_unit (cd_image c) = ?u"
    using key by (simp_all add: candidate_key_def mark_key_def)
  have inv: "hm_inv m" "all_senders (ss_inv cfg) m" using assms(1) by (simp_all add: fine_def)
  obtain k s' where s': "(k, s') \<in> set (snd (expire_front mark m))" "c \<in># ss_held s'"
    using assms(3) by (auto simp: in_held_by)
  show False
  proof (cases "map_of m ?k")
    case None
    then have "snd (expire_front mark m) = m" by (simp add: expire_front_def)
    then have "(k, s') \<in> set m" "k \<noteq> ?k"
      using s'(1) None by (auto simp: map_of_eq_None_iff image_iff)
    with assms(2) s'(2) c(1) show False by (auto simp: all_owned_def owned_def)
  next
    case (Some s)
    then have m': "snd (expire_front mark m) = hm_insert ?k (snd (unpark ?n ?u s)) m"
      by (simp add: expire_front_def split_beta)
    show False
    proof (cases "k = ?k")
      case True
      then have "s' = snd (unpark ?n ?u s)" using s'(1) m' inv(1) by (simp add: hm_insert_set)
      with s'(2) unpark_gone [of cfg s c ?n ?u] c inv(2) Some show False by (simp add: all_senders_at)
    next
      case False
      then have "(k, s') \<in> set m" using s'(1) m' inv(1) by (simp add: hm_insert_set)
      with False assms(2) s'(2) c(1) show False by (auto simp: all_owned_def owned_def)
    qed
  qed
qed

lemma expire_front_keeps:
  assumes "fine cfg m" and "all_owned m"
  shows "fine cfg (snd (expire_front mark m))" and "all_owned (snd (expire_front mark m))"
    and "covers K m \<Longrightarrow> covers K (snd (expire_front mark m))"
proof -
  note cons = expire_front_conserves [of cfg m mark]
  show "fine cfg (snd (expire_front mark m))" using cons assms(1) by (simp add: conserves_def)
  show "covers K (snd (expire_front mark m))" if "covers K m"
    by (rule covers_conserved [OF cons assms(1) that]) simp
  have "run_ok cfg m UNIV"
    using assms by (auto simp: run_ok_def all_owned_def dest: map_of_SomeD)
  then show "all_owned (snd (expire_front mark m))" by (intro run_ok_owned) (rule expire_front_run)
qed

lemma expire_marks_covers:
  assumes "fine cfg m" and "all_owned m" and "covers (K \<union> mark_key key ` set marks) m"
    and "expire_marks limit h marks m = (out, marks', m')"
  shows "fine cfg m' \<and> all_owned m' \<and> covers (K \<union> mark_key key ` set marks') m'"
  using assms
proof (induction marks arbitrary: m out m')
  case (Cons mark marks)
  show ?case
  proof (cases "passed limit mark h")
    case False
    with Cons.prems show ?thesis by auto
  next
    case True
    let ?m = "snd (expire_front mark m)"
    note keeps = expire_front_keeps [OF Cons.prems(1,2), where mark = mark]
    have "covers (K \<union> mark_key key ` set marks) ?m"
      using keeps(3) [OF Cons.prems(3)] expire_front_gone [OF Cons.prems(1,2), of _ mark key]
      by (auto simp: covers_def)
    moreover obtain out1 where "expire_marks limit h marks ?m = (out1, marks', m')"
      using Cons.prems(4) True by (cases "expire_marks limit h marks ?m") (auto simp: split_beta)
    ultimately show ?thesis using Cons.IH keeps(1,2) by blast
  qed
qed auto

lemma expire_images_covers:
  assumes "fine cfg m" and "all_owned m" and "covers (K \<union> park_keys images) m"
    and "expire_images limit images m = (out, images', m')"
  shows "fine cfg m' \<and> all_owned m' \<and> covers (K \<union> park_keys images') m'"
  using assms
proof (induction images arbitrary: m out m' K images')
  case (Cons e images)
  obtain key marks where e: "e = (key, marks)" by fastforce
  obtain out1 parked m1 where one: "expire_marks limit (im_highest marks) (im_parked marks) m = (out1, parked, m1)"
    by (metis prod_cases3)
  obtain out2 images2 where two: "expire_images limit images m1 = (out2, images2, m')"
    and images': "images' = (key, marks\<lparr>im_parked := parked\<rparr>) # images2"
    using Cons.prems(4) e one by (cases "expire_images limit images m1") auto
  have "covers ((K \<union> park_keys images) \<union> mark_key key ` set (im_parked marks)) m"
    using Cons.prems(3) e by (simp add: park_keys_def Un_ac)
  from expire_marks_covers [OF Cons.prems(1,2) this one]
  have "fine cfg m1" "all_owned m1" "covers ((K \<union> mark_key key ` set parked) \<union> park_keys images) m1"
    by (simp_all add: Un_ac)
  from Cons.IH [OF this two] images' show ?case by (simp add: park_keys_def Un_ac)
qed auto

section \<open>The order of the marks\<close>

definition marks_ok :: "instant \<Rightarrow> ImageMarks \<Rightarrow> bool" where
  "marks_ok now im \<longleftrightarrow>
     sorted_wrt (\<lambda>m m'. pm_unit m \<le> pm_unit m' \<and> pm_at m \<le> pm_at m') (im_parked im) \<and>
     (\<forall>m \<in> set (im_parked im). pm_unit m \<le> im_highest im \<and> pm_at m \<le> now)"

lemma passed_antimono:
  assumes "pm_unit m \<le> pm_unit m'" and "pm_unit m' \<le> h" and "pm_at m \<le> pm_at m'" and "passed limit m' h"
  shows "passed limit m h"
proof -
  have "pm_unit m \<le> h" using assms(1,2) by (rule order.trans)
  then have "h - pm_unit m' \<le> h - pm_unit m"
    using assms(1,2) by (simp add: word_le_nat_alt unat_diff_le)
  with assms(3,4) show ?thesis by (auto simp: passed_def split: option.splits)
qed

lemma expire_marks_rest:
  assumes "expire_marks limit h marks m = (out, marks', m')"
    and "sorted_wrt (\<lambda>m m'. pm_unit m \<le> pm_unit m' \<and> pm_at m \<le> pm_at m') marks"
    and "\<forall>m \<in> set marks. pm_unit m \<le> h"
  shows "(\<exists>i. marks' = drop i marks) \<and> (\<forall>m \<in> set marks'. \<not> passed limit m h)"
  using assms
proof (induction marks arbitrary: m out m')
  case (Cons mark marks)
  show ?case
  proof (cases "passed limit mark h")
    case True
    with Cons.prems obtain out1 where "expire_marks limit h marks (snd (expire_front mark m)) = (out1, marks', m')"
      by (cases "expire_marks limit h marks (snd (expire_front mark m))") (auto simp: split_beta)
    from Cons.IH [OF this] Cons.prems(2,3) obtain i where "marks' = drop i marks"
      "\<forall>m \<in> set marks'. \<not> passed limit m h" by auto
    then show ?thesis by (metis drop_Suc_Cons)
  next
    case False
    with Cons.prems(1) have "marks' = mark # marks" by simp
    moreover have "\<not> passed limit m h" if "m \<in> set marks" for m
      using passed_antimono [of mark m h limit] Cons.prems(2,3) that False by auto
    ultimately show ?thesis using False by (metis drop0 set_ConsD)
  qed
qed simp

lemma expire_images_ok:
  assumes "expire_images limit images m = (out, images', m')" and "\<forall>(key, im) \<in> set images. marks_ok now im"
  shows "keys images' = keys images \<and>
    (\<forall>(key, im) \<in> set images'. marks_ok now im \<and> (\<forall>mark \<in> set (im_parked im). \<not> passed limit mark (im_highest im)))"
  using assms
proof (induction images arbitrary: m out m' images')
  case (Cons e images)
  obtain key marks where e: "e = (key, marks)" by fastforce
  obtain out1 parked m1 where one: "expire_marks limit (im_highest marks) (im_parked marks) m = (out1, parked, m1)"
    by (metis prod_cases3)
  obtain out2 images2 where two: "expire_images limit images m1 = (out2, images2, m')"
    and images': "images' = (key, marks\<lparr>im_parked := parked\<rparr>) # images2"
    using Cons.prems(1) e one by (cases "expire_images limit images m1") auto
  have ok: "marks_ok now marks" using Cons.prems(2) e by simp
  with expire_marks_rest [OF one] obtain i where rest: "parked = drop i (im_parked marks)"
    "\<forall>m \<in> set parked. \<not> passed limit m (im_highest marks)"
    by (auto simp: marks_ok_def)
  have "marks_ok now (marks\<lparr>im_parked := parked\<rparr>)"
    using ok by (auto simp: marks_ok_def rest(1) sorted_wrt_drop dest: in_set_dropD)
  with rest(2) Cons.IH [OF two] Cons.prems(2) e images' show ?case by simp
qed simp

section \<open>The invariant of the park\<close>

definition park_inv :: "'t Admission \<Rightarrow> bool" where
  "park_inv a \<longleftrightarrow> loss_inv a \<and> hm_inv (ad_images a) \<and> (\<forall>(key, im) \<in> set (ad_images a). marks_ok (ad_now a) im) \<and>
     covers (park_keys (ad_images a)) (ad_senders a)"

lemma loss_inv_fine: "loss_inv a \<Longrightarrow> fine (ad_cfg a) (ad_senders a) \<and> all_owned (ad_senders a)"
  by (auto simp: loss_inv_def run_ok_owned) (simp add: run_ok_def)

lemma park_inv_sound:
  assumes "park_inv a" and "sound {#} a r" and "loss_inv (snd r)"
    and "ad_images (snd r) = ad_images a" and "ad_now (snd r) = ad_now a"
  shows "park_inv (snd r)"
proof -
  have "conserves (ad_cfg a) {#} (ad_senders a) (fst r) (ad_senders (snd r))"
    using assms(2) by (simp add: sound_def)
  moreover have "fine (ad_cfg a) (ad_senders a)" "covers (park_keys (ad_images a)) (ad_senders a)"
    using assms(1) loss_inv_fine [of a] by (simp_all add: park_inv_def)
  ultimately have "covers (park_keys (ad_images a)) (ad_senders (snd r))"
    by (rule covers_conserved) simp
  with assms(1,3-5) show ?thesis by (simp add: park_inv_def)
qed

lemma images_frame [simp]:
  "ad_images (snd (apply_state address st fl a)) = ad_images a" "ad_now (snd (apply_state address st fl a)) = ad_now a"
  "ad_images (snd (lose sender nonce a)) = ad_images a" "ad_now (snd (lose sender nonce a)) = ad_now a"
  "ad_images (adm_queue_relook sender a) = ad_images a" "ad_now (adm_queue_relook sender a) = ad_now a"
  by (simp_all add: apply_state_def lose_def adm_queue_relook_def split_beta Let_def split: option.splits)

lemma images_frame_rows [simp]:
  "ad_images (snd (apply_rows rows a)) = ad_images a" "ad_now (snd (apply_rows rows a)) = ad_now a"
  by (induction rows arbitrary: a) (simp_all add: split_paired_all split_beta)

lemma images_frame_events [simp]:
  "ad_images (snd (adm_on_rows block rows a)) = ad_images a" "ad_now (snd (adm_on_rows block rows a)) = ad_now a"
  "ad_images (snd (adm_on_lookup address st a)) = ad_images a" "ad_now (snd (adm_on_lookup address st a)) = ad_now a"
  by (simp_all add: adm_on_rows_def adm_on_lookup_def split_beta Let_def)

lemma images_frame_expire [simp]:
  "ad_images (snd (expire_forward a)) = ad_images a" "ad_now (snd (expire_forward a)) = ad_now a"
  by (simp_all add: expire_forward_def split: list.splits)

lemma images_frame_forwards [simp]:
  "ad_images (snd (expire_forwards a)) = ad_images a \<and> ad_now (snd (expire_forwards a)) = ad_now a"
proof (induction a rule: expire_forwards.induct)
  case (1 a)
  show ?case
    using 1 [OF _ refl prod.collapse] by (subst (1 2) expire_forwards.simps) (auto simp: split_beta)
qed

text \<open>A submission that does not park leaves the park of its sender as it was, or smaller.\<close>

lemma forward_or_park_shrinks:
  assumes "forward_or_park c st cfg s = (False, out, s')"
  shows "ss_held s' \<subseteq># ss_held s"
  using assms
proof (cases rule: forward_or_park_cases)
  case busy
  then show ?thesis by (auto simp: park_def Let_def split: if_splits prod.splits)
qed (simp_all add: ss_held_def)

lemma ss_offer_shrinks:
  assumes "ss_offer c cfg s = (False, out, s')"
  shows "ss_held s' \<subseteq># ss_held s"
proof (cases "ss_state s")
  case None
  with assms show ?thesis
    by (auto simp: ss_offer_def park_for_lookup_def park_def Let_def split: if_splits prod.splits)
next
  case (Some st)
  obtain p o1 s1 o2 s2 where f: "forward_or_park c st cfg s = (p, o1, s1)" "release_run cfg s1 = (o2, s2)"
    by (metis prod_cases3 surj_pair)
  have "ss_held s2 \<subseteq># ss_held s1" using release_run_conserves [OF f(2)] by (metis mset_subset_eq_add_right)
  with forward_or_park_shrinks [of c st cfg s o1 s1] f assms Some show ?thesis
    by (auto simp: ss_offer_def Let_def park_def intro: subset_mset.order_trans split: if_splits prod.splits)
qed

lemma held_by_mono:
  assumes "hm_inv m" and "ss_held s' \<subseteq># M + ss_held (sender_entry k m)"
  shows "held_by (hm_insert k s' m) \<subseteq># M + held_by m"
proof -
  have "held_by (hm_insert k s' m) + ss_held (sender_entry k m) \<subseteq># (M + held_by m) + ss_held (sender_entry k m)"
    using held_by_insert [OF assms(1), of k s'] assms(2) by (simp add: ac_simps)
  then show ?thesis by simp
qed

text \<open>
  The events of streams: an image is read in the order of its units, the rows come in the order of
  their blocks, and the clock does not go back.
\<close>

fun stream_order :: "'t FilterEvent \<Rightarrow> 't Admission \<Rightarrow> bool" where
  "stream_order (Offer c) a \<longleftrightarrow>
     im_highest (image_entry (image_key (cd_image c)) (ad_images a)) \<le> ip_unit (cd_image c)"
| "stream_order (Rows block _) a \<longleftrightarrow> ad_block a \<le> block"
| "stream_order (Sweep now) a \<longleftrightarrow> ad_now a \<le> now"
| "stream_order _ a \<longleftrightarrow> True"

lemma park_keys_insert:
  assumes "hm_inv images"
  shows "mark_key key ` set (im_parked (image_entry key images)) \<subseteq> mark_key key ` set (im_parked im) \<Longrightarrow>
    park_keys images \<subseteq> park_keys (hm_insert key im images)"
  and "mark_key key ` set (im_parked im) \<subseteq> park_keys (hm_insert key im images)"
proof -
  show "mark_key key ` set (im_parked im) \<subseteq> park_keys (hm_insert key im images)"
  proof -
    have "(key, im) \<in> set (hm_insert key im images)" using assms by (simp add: hm_insert_set)
    then show ?thesis unfolding park_keys_def by blast
  qed
  then show "park_keys images \<subseteq> park_keys (hm_insert key im images)"
    if sub: "mark_key key ` set (im_parked (image_entry key images)) \<subseteq> mark_key key ` set (im_parked im)"
  proof -
    have "mark_key k m \<in> park_keys (hm_insert key im images)" if "(k, marks) \<in> set images" "m \<in> set (im_parked marks)" for k marks m
    proof (cases "k = key")
      case True
      then have "image_entry key images = marks" using that(1) assms by (simp add: image_entry_def hm_inv_def)
      then have "mark_key k m \<in> mark_key key ` set (im_parked im)" using sub that(2) True by blast
      with \<open>mark_key key ` set (im_parked im) \<subseteq> _\<close> show ?thesis by blast
    next
      case False
      then have "(k, marks) \<in> set (hm_insert key im images)" using that(1) assms by (simp add: hm_insert_set)
      with that(2) show ?thesis unfolding park_keys_def by blast
    qed
    then show ?thesis unfolding park_keys_def [of images] by blast
  qed
qed

lemma marks_ok_entry:
  assumes "hm_inv images" and "\<forall>(key, im) \<in> set images. marks_ok now im"
  shows "marks_ok now (image_entry key images)"
proof (cases "map_of images key")
  case (Some im)
  then have "(key, im) \<in> set images" by (rule map_of_SomeD)
  with assms(2) Some show ?thesis by (auto simp: image_entry_def)
qed (simp add: image_entry_def marks_ok_def)

lemma marks_ok_raise: "marks_ok now im \<Longrightarrow> im_highest im \<le> unit \<Longrightarrow> marks_ok now (im\<lparr>im_highest := unit, im_parked := im_parked im\<rparr>)"
  unfolding marks_ok_def by (auto intro: order.trans)

lemma marks_ok_push:
  assumes "marks_ok now im" and "im_highest im \<le> unit"
  shows "marks_ok now (im\<lparr>im_highest := unit,
    im_parked := im_parked im @ [\<lparr>pm_unit = unit, pm_at = now, pm_sender = k, pm_nonce = n\<rparr>]\<rparr>)"
proof -
  have "pm_unit m \<le> unit" "pm_at m \<le> now" if "m \<in> set (im_parked im)" for m
    using assms that unfolding marks_ok_def by (blast intro: order.trans)+
  with assms(1) show ?thesis by (simp add: marks_ok_def sorted_wrt_append)
qed

lemma adm_offer_park:
  assumes "park_inv a" and "stream_order (Offer c) a"
  shows "park_inv (snd (adm_offer c a))"
proof -
  let ?key = "image_key (cd_image c)" and ?a = "snd (adm_offer c a)"
  let ?mark = "\<lparr>pm_unit = ip_unit (cd_image c), pm_at = ad_now a, pm_sender = cd_sender c, pm_nonce = cd_nonce c\<rparr>"
  let ?old = "image_entry ?key (ad_images a)"
  obtain parked out s where offer:
    "ss_offer c (ad_cfg a) (sender_entry (cd_sender c) (ad_senders a)) = (parked, out, s)"
    by (metis prod_cases3)
  define im where "im = ?old\<lparr>im_highest := ip_unit (cd_image c),
    im_parked := (if parked then im_parked ?old @ [?mark] else im_parked ?old)\<rparr>"
  have inv: "loss_inv a" "hm_inv (ad_images a)" "\<forall>(key, im) \<in> set (ad_images a). marks_ok (ad_now a) im"
      "covers (park_keys (ad_images a)) (ad_senders a)" using assms(1) by (simp_all add: park_inv_def)
  have old: "marks_ok (ad_now a) ?old" by (rule marks_ok_entry [OF inv(2,3)])
  have high: "im_highest ?old \<le> ip_unit (cd_image c)" using assms(2) by simp
  then have images: "ad_images ?a = hm_insert ?key im (ad_images a)" and now: "ad_now ?a = ad_now a"
    by (simp_all add: adm_offer_def offer Let_def im_def max_def)
  have "marks_ok (ad_now a) im"
    using marks_ok_raise [OF old high] marks_ok_push [OF old high] by (simp add: im_def)
  then have marks: "\<forall>(key, im) \<in> set (ad_images ?a). marks_ok (ad_now ?a) im"
    using inv(2,3) unfolding images now by (auto simp: hm_insert_set split: if_splits)
  have grow: "park_keys (ad_images a) \<subseteq> park_keys (ad_images ?a)"
    unfolding images by (rule park_keys_insert(1) [OF inv(2)]) (auto simp: im_def)
  then have wider: "covers (park_keys (ad_images ?a)) (ad_senders a)" using inv(4) by (auto simp: covers_def)
  have kept: "conserves (ad_cfg a) {#plain c#} (ad_senders a) (fst (adm_offer c a)) (ad_senders ?a)"
    using adm_offer_sound [of c a] by (simp add: sound_def)
  have "covers (park_keys (ad_images ?a)) (ad_senders ?a)"
  proof (cases parked)
    case True
    have "candidate_key c = mark_key ?key ?mark" by (simp add: candidate_key_def mark_key_def)
    then have "candidate_key c \<in> park_keys (ad_images ?a)"
      using park_keys_insert(2) [OF inv(2), of ?key im] True unfolding images by (auto simp: im_def)
    then show ?thesis
      by (intro covers_conserved [OF kept conjunct1 [OF loss_inv_fine [OF inv(1)]] wider]) simp
  next
    case False
    have "ss_held s \<subseteq># {#} + ss_held (sender_entry (cd_sender c) (ad_senders a))"
      using ss_offer_shrinks [of c "ad_cfg a" _ out s] offer False by simp
    moreover have "hm_inv (ad_senders a)" using loss_inv_fine [OF inv(1)] by (simp add: fine_def)
    ultimately have "held_by (hm_insert (cd_sender c) s (ad_senders a)) \<subseteq># held_by (ad_senders a)"
      using held_by_mono [of "ad_senders a" s "{#}" "cd_sender c"] by simp
    moreover have "ad_senders ?a = hm_insert (cd_sender c) s (ad_senders a)"
      using False by (simp add: adm_offer_def offer Let_def)
    ultimately show ?thesis using wider by (simp add: covers_def) (blast dest: mset_subset_eqD)
  qed
  moreover have "loss_inv ?a" by (rule adm_offer_loss [OF inv(1)])
  ultimately show ?thesis using marks inv(2) by (simp add: park_inv_def images)
qed

lemma marks_ok_later: "marks_ok now im \<Longrightarrow> now \<le> later \<Longrightarrow> marks_ok later im"
  by (auto simp: marks_ok_def)

lemma held_by_filter: "c \<in># held_by (filter P m) \<Longrightarrow> c \<in># held_by m"
  by (auto simp: in_held_by)

text \<open>Nothing is parked past the limit.\<close>

definition park_within :: "ParkLimit \<Rightarrow> 't Admission \<Rightarrow> bool" where
  "park_within limit a \<longleftrightarrow>
     (\<forall>(key, im) \<in> set (ad_images a). \<forall>mark \<in> set (im_parked im). \<not> passed limit mark (im_highest im))"

lemma adm_sweep_park:
  assumes "park_inv a" and "ad_now a \<le> now"
  shows "park_inv (snd (adm_sweep now a)) \<and> park_within (park_limit (ad_cfg a) now) (snd (adm_sweep now a))"
proof (rule adm_sweep_stages [where a = a and now = now])
  fix out1 a1 out2 images m out3 a3
  assume 1: "expire_forwards (a\<lparr>ad_now := now\<rparr>) = (out1, a1)"
    and 2: "expire_images (park_limit (ad_cfg a) now) (ad_images a1) (ad_senders a1) = (out2, images, m)"
    and 3: "relook_due now (a1\<lparr>ad_images := images, ad_senders := m\<rparr>) = (out3, a3)"
    and swept: "snd (adm_sweep now a) = (if ac_max_senders (ad_cfg a3) < length (ad_senders a3)
      then a3\<lparr>ad_senders := filter (\<lambda>(_, s). \<not> is_idle s) (ad_senders a3)\<rparr> else a3)"
  let ?a0 = "a\<lparr>ad_now := now\<rparr>" and ?a2 = "a1\<lparr>ad_images := images, ad_senders := m\<rparr>"
  have inv: "loss_inv a" "hm_inv (ad_images a)" "\<forall>(key, im) \<in> set (ad_images a). marks_ok (ad_now a) im"
      "covers (park_keys (ad_images a)) (ad_senders a)" using assms(1) by (simp_all add: park_inv_def)
  have "loss_inv ?a0" by (rule loss_inv_frame [OF inv(1)]) simp_all
  then have "park_inv ?a0" using inv assms(2) by (auto simp: park_inv_def intro: marks_ok_later)
  then have "park_inv (snd (expire_forwards ?a0))"
    by (rule park_inv_sound) (simp_all add: expire_forwards_sound expire_forwards_loss \<open>loss_inv ?a0\<close>)
  then have one: "park_inv a1" and now1: "ad_now a1 = now"
    using 1 images_frame_forwards [of ?a0] by simp_all
  then have inv1: "loss_inv a1" "hm_inv (ad_images a1)" "\<forall>(key, im) \<in> set (ad_images a1). marks_ok now im"
      "covers ({} \<union> park_keys (ad_images a1)) (ad_senders a1)" by (simp_all add: park_inv_def)
  note cov = expire_images_covers [OF _ _ inv1(4) 2, of "ad_cfg a1"]
  note imgs = expire_images_ok [OF 2 inv1(3)]
  have "loss_inv ?a2"
    using expire_images_run [of "ad_cfg a1" "ad_senders a1" "mark_keys (ad_forwards a1)"
        "park_limit (ad_cfg a) now" "ad_images a1"] 2 inv1(1)
    by (intro loss_inv_senders [OF inv1(1)]) (simp_all add: loss_inv_def)
  moreover have "hm_inv images" using imgs inv1(2) by (simp add: hm_inv_def)
  moreover have "covers (park_keys images) m" using cov loss_inv_fine [OF inv1(1)] by simp
  ultimately have "park_inv ?a2" using imgs now1 by (auto simp: park_inv_def)
  then have "park_inv (snd (relook_due now ?a2))"
    by (rule park_inv_sound) (simp_all add: relook_due_sound relook_due_loss \<open>loss_inv ?a2\<close>)
  then have three: "park_inv a3" using 3 by simp
  have "park_within (park_limit (ad_cfg a) now) a3"
    using imgs relook_due_frame(5) [of now ?a2] 3 by (auto simp: park_within_def)
  moreover have "covers (park_keys (ad_images a3)) (filter (\<lambda>(_, s). \<not> is_idle s) (ad_senders a3))"
    using three held_by_filter unfolding park_inv_def covers_def by blast
  then have "park_inv (snd (adm_sweep now a))"
    using three adm_sweep_loss [OF inv(1), of now] swept by (auto simp: park_inv_def)
  ultimately show ?thesis using swept by (simp add: park_within_def)
qed

lemma admissible_last: "admissible_run step ok (xs @ [e]) s \<Longrightarrow> ok e (fold step xs s)"
  by (induction xs arbitrary: s) auto

lemma filter_next_park:
  assumes "park_inv a" and "stream_order e a"
  shows "park_inv (filter_next e a)"
proof -
  have inv: "loss_inv a" using assms(1) by (simp add: park_inv_def)
  have quiet: "park_inv (snd r)" if "sound {#} a r" "loss_inv (snd r)"
    "ad_images (snd r) = ad_images a" "ad_now (snd r) = ad_now a" for r
    by (rule park_inv_sound [OF assms(1) that])
  show ?thesis
  proof (cases e)
    case (Rows block rows)
    with assms(2) show ?thesis
      using quiet [OF adm_on_rows_sound adm_on_rows_loss [OF inv]] by (simp add: filter_next_def)
  next
    case (Answered address st)
    then show ?thesis
      using quiet [OF adm_on_lookup_sound adm_on_lookup_loss [OF inv]] by (simp add: filter_next_def)
  next
    case Rollback
    then show ?thesis
      using quiet [of "([], adm_on_rollback a)"] adm_on_rollback_sound [of a] adm_on_rollback_loss [OF inv]
      by (simp add: filter_next_def adm_on_rollback_def)
  next
    case (Refused sender nonce)
    then show ?thesis
      using quiet [OF lose_sound lose_loss [OF inv]] by (simp add: filter_next_def adm_on_refused_def)
  qed (use assms in \<open>simp_all add: filter_next_def adm_offer_park adm_sweep_park\<close>)
qed

interpretation parking: invariant_machine filter_next stream_order park_inv
  by unfold_locales (rule filter_next_park)

lemma park_keys_mark:
  assumes "hm_inv images" and "candidate_key c \<in> park_keys images"
  obtains im mark where "map_of images (image_key (cd_image c)) = Some im" and "mark \<in> set (im_parked im)"
    and "pm_unit mark = ip_unit (cd_image c)" and "pm_sender mark = cd_sender c" and "pm_nonce mark = cd_nonce c"
proof -
  from assms(2) obtain key im mark where m: "(key, im) \<in> set images" "mark \<in> set (im_parked im)"
    "candidate_key c = mark_key key mark" by (auto simp: park_keys_def)
  then have "map_of images (image_key (cd_image c)) = Some im"
    using assms(1) by (simp add: hm_inv_def candidate_key_def mark_key_def)
  with m show thesis by (intro that [of im mark]) (simp_all add: candidate_key_def mark_key_def)
qed

text \<open>
  C12. No transaction stays parked past its limits, so a park cannot be filled for good by senders
  that never close their nonce gap.  After a sweep, every parked candidate is less than the park
  width behind the highest unit read from its image, and it has a mark whose parking time plus the
  time to live is still ahead.  The hypothesis is what the streams give: each image is read in the
  order of its units, the rows come in the order of their blocks, and the clock does not go back.
\<close>

theorem parked_within_limits:
  assumes "ac_max_forwarded cfg < 2 ^ 64"
    and "admissible_run filter_next stream_order (es @ [Sweep now]) (adm_new cfg start)"
    and "a = fold filter_next (es @ [Sweep now]) (adm_new cfg start)"
    and "c \<in># held_by (ad_senders a)"
  shows "\<exists>im mark. map_of (ad_images a) (image_key (cd_image c)) = Some im \<and> mark \<in> set (im_parked im) \<and>
    pm_unit mark = ip_unit (cd_image c) \<and> pm_sender mark = cd_sender c \<and> pm_nonce mark = cd_nonce c \<and>
    ip_unit (cd_image c) \<le> im_highest im \<and> im_highest im - ip_unit (cd_image c) < ac_park_width cfg \<and>
    now < pm_at mark + ac_park_ttl cfg"
proof -
  let ?before = "fold filter_next es (adm_new cfg start)"
  have new: "park_inv (adm_new cfg start)"
    using assms(1) by (simp add: park_inv_def loss_inv_def stamps_ok_def run_ok_def fine_def all_senders_def
        adm_new_def covers_def held_by_def hm_inv_def)
  have "park_inv ?before" by (rule parking.run_inv [OF new admissible_prefix [OF assms(2)]])
  moreover have "ad_now ?before \<le> now" using admissible_last [OF assms(2)] by simp
  ultimately have swept: "park_inv a" "park_within (park_limit cfg now) a"
    using adm_sweep_park [of ?before now] assms(3) filter_run_cfg [of es "adm_new cfg start"]
    by (simp_all add: filter_next_def adm_new_def)
  then have "hm_inv (ad_images a)" "candidate_key c \<in> park_keys (ad_images a)"
    using assms(4) by (simp_all add: park_inv_def covers_def)
  then obtain im mark where m: "map_of (ad_images a) (image_key (cd_image c)) = Some im" "mark \<in> set (im_parked im)"
    "pm_unit mark = ip_unit (cd_image c)" "pm_sender mark = cd_sender c" "pm_nonce mark = cd_nonce c"
    by (rule park_keys_mark)
  have im: "(image_key (cd_image c), im) \<in> set (ad_images a)" by (rule map_of_SomeD [OF m(1)])
  then have "\<not> passed (park_limit cfg now) mark (im_highest im)" "marks_ok (ad_now a) im"
    using swept m(2) by (auto simp: park_within_def park_inv_def)
  then have "im_highest im - ip_unit (cd_image c) < ac_park_width cfg" "now < pm_at mark + ac_park_ttl cfg"
      "ip_unit (cd_image c) \<le> im_highest im"
    using m(2,3) by (auto simp: passed_def park_limit_def marks_ok_def split: if_splits)
  with m show ?thesis by blast
qed

theorem parked_within_limits_witness:
  "let a = fold filter_next ([Answered 7 (funds 5 100 1), Offer (transfer 6 10 1), Offer (transfer 7 10 3)] @ [Sweep 9])
          (adm_new small_config 0)
   in \<exists>im mark. map_of (ad_images a) (image_key (cd_image (transfer 6 10 1))) = Some im \<and> mark \<in> set (im_parked im) \<and>
     pm_unit mark = 1 \<and> pm_sender mark = 7 \<and> pm_nonce mark = 6 \<and>
     1 \<le> im_highest im \<and> im_highest im - 1 < 100 \<and> 9 < pm_at mark + 50"
proof -
  let ?es = "[Answered 7 (funds 5 100 1), Offer (transfer 6 10 1), Offer (transfer 7 10 3)]"
  let ?a = "fold filter_next (?es @ [Sweep 9]) (adm_new small_config 0)"
  have 1: "ac_max_forwarded small_config < 2 ^ 64" by (simp add: small_config_def)
  have 2: "admissible_run filter_next stream_order (?es @ [Sweep 9]) (adm_new small_config 0)" by code_simp
  have 3: "plain (transfer 6 10 1) \<in># held_by (ad_senders ?a)" by code_simp
  show ?thesis
    using parked_within_limits [OF 1 2 refl 3] by (simp add: Let_def plain_def transfer_def small_config_def del: fold_simps)
qed

end
