(* ===== verification/Resync_Floor.thy ===== *)
theory Resync_Floor
  imports Receipt
begin

text \<open>
  \<open>crates/sequencer/src/resync/floor.rs\<close>: what one receipt or one lookup answer proves about the
  nonce of its sender, and when a rollback voids the evidence.  The lemmas say what each outcome
  means for the chain nonce: only an outcome that used its nonce raises a floor, and a release
  never goes below the receipt floor.
\<close>

datatype Evidence =
    ReceiptOf (ev_block: u64)
  | LookupAt (ev_generation: u64)

definition stale_at :: "u64 \<Rightarrow> Evidence \<Rightarrow> bool" where
  "stale_at generation e =
     (case e of LookupAt asked \<Rightarrow> asked < generation | ReceiptOf _ \<Rightarrow> False)"

datatype Outcome =
    Executed u64
  | Skipped u64 SkipReason
  | Deposit

record FloorUpdate =
  fu_sender :: address
  fu_outcome :: Outcome
  fu_evidence :: Evidence

datatype FloorEvent =
    Update FloorUpdate
  | RolledBack ReceiptRollback

definition confirmed :: "Outcome \<Rightarrow> u64 option" where
  "confirmed o1 = (case o1 of Executed nonce \<Rightarrow> Some nonce | Skipped nonce _ \<Rightarrow> Some nonce | Deposit \<Rightarrow> None)"

definition floor_of :: "Outcome \<Rightarrow> u64 option" where
  "floor_of o1 = (case o1 of Executed nonce \<Rightarrow> Some (saturating_add nonce 1) | Skipped _ _ \<Rightarrow> None | Deposit \<Rightarrow> None)"

definition released :: "u64 \<Rightarrow> Outcome \<Rightarrow> u64 option" where
  "released floor o1 =
     (case o1 of
        Executed _ \<Rightarrow> None
      | Deposit \<Rightarrow> None
      | Skipped nonce reason \<Rightarrow>
          if nonce < floor then None
          else case reason of
              NonceTooLow \<Rightarrow> None
            | NonceTooHigh \<Rightarrow> Some floor
            | _ \<Rightarrow> Some nonce)"

definition of_receipt :: "Receipt \<Rightarrow> FloorUpdate" where
  "of_receipt receipt =
     \<lparr>fu_sender = rc_from receipt,
      fu_outcome =
        (if is_deposit receipt then Deposit
         else case rc_skip_reason receipt of
             Some reason \<Rightarrow>
               if \<not> burns_nonce receipt then Skipped (rc_nonce receipt) reason
               else Executed (rc_nonce receipt)
           | None \<Rightarrow> Executed (rc_nonce receipt)),
      fu_evidence = ReceiptOf (rc_block_number receipt)\<rparr>"

definition executed :: "address \<Rightarrow> u64 \<Rightarrow> FloorUpdate" where
  "executed sender nonce =
     \<lparr>fu_sender = sender, fu_outcome = Executed nonce, fu_evidence = LookupAt 0\<rparr>"

definition skip :: "address \<Rightarrow> u64 \<Rightarrow> SkipReason \<Rightarrow> FloorUpdate" where
  "skip sender nonce reason =
     \<lparr>fu_sender = sender, fu_outcome = Skipped nonce reason, fu_evidence = LookupAt 0\<rparr>"

definition with_evidence :: "Evidence \<Rightarrow> FloorUpdate \<Rightarrow> FloorUpdate" where
  "with_evidence evidence u = u\<lparr>fu_evidence := evidence\<rparr>"

definition deposit :: "address \<Rightarrow> FloorUpdate" where
  "deposit sender = \<lparr>fu_sender = sender, fu_outcome = Deposit, fu_evidence = LookupAt 0\<rparr>"

section \<open>What an outcome proves\<close>

lemma floor_of_positive: "floor_of o1 = Some floor \<Longrightarrow> 0 < floor"
  by (auto simp: floor_of_def saturating_add_1 word_gt_0 split: Outcome.splits if_splits)
    (metis add_eq_0_iff2)

lemma floor_of_Some: "floor_of o1 = Some floor \<longleftrightarrow> (\<exists>n. o1 = Executed n \<and> floor = saturating_add n 1)"
  by (auto simp: floor_of_def split: Outcome.splits)

lemma released_at_least_floor: "released floor o1 = Some chain \<Longrightarrow> floor \<le> chain"
  by (auto simp: released_def split: Outcome.splits SkipReason.splits if_splits)

lemma released_confirmed:
  "released floor o1 = Some chain \<Longrightarrow> \<exists>n. confirmed o1 = Some n \<and> chain \<le> n"
  by (auto simp: released_def confirmed_def split: Outcome.splits SkipReason.splits if_splits)

lemma of_receipt_executed:
  "fu_outcome (of_receipt r) = Executed n \<longleftrightarrow>
     n = rc_nonce r \<and> \<not> is_deposit r \<and> (rc_skip_reason r = None \<or> burns_nonce r)"
  by (auto simp: of_receipt_def split: option.splits)

text \<open>
  A receipt raises the floor of its sender exactly when its transaction used its nonce, for the
  receipts an executor writes: one with a skip reason is a skip, and one with none is not.
\<close>

theorem receipt_floor_iff_uses_nonce:
  assumes "rc_skip_reason r = None \<longleftrightarrow> \<not> is_invalid_skip r"
  shows "floor_of (fu_outcome (of_receipt r)) =
    (if uses_nonce r then Some (saturating_add (rc_nonce r) 1) else None)"
  using assms
  by (auto simp: of_receipt_def floor_of_def uses_nonce_def burns_nonce_def split: option.splits)

theorem receipt_floor_iff_uses_nonce_witness:
  "floor_of (fu_outcome (of_receipt (Receipt_default\<lparr>rc_status := True, rc_nonce := 4\<rparr>))) = Some 5"
proof -
  let ?r = "Receipt_default\<lparr>rc_status := True, rc_nonce := 4\<rparr>"
  have "rc_skip_reason ?r = None \<longleftrightarrow> \<not> is_invalid_skip ?r"
    by (simp add: is_invalid_skip_def Receipt_default_def)
  from receipt_floor_iff_uses_nonce [OF this] show ?thesis
    by (simp add: uses_nonce_def is_invalid_skip_def is_deposit_def Receipt_default_def
        TX_TYPE_LEGACY_def TX_TYPE_DEPOSIT_def saturating_add_def)
qed

end
