(* ===== verification/Resync.thy ===== *)
theory Resync
  imports Resync_Floor Fees Unconfirmed
begin

text \<open>
  \<open>crates/sequencer/src/resync/mod.rs\<close> and \<open>answers.rs\<close>: the controller of the resync mode.  It
  keeps the executed-truth floor of each sender with the evidence that set it, drains the answers
  of the sealer, and runs the state machine that enters and leaves the resync mode.

  A channel of \<open>crossbeam_channel\<close> is the list of the results that the next calls of
  \<open>try_recv\<close> give; at the end of the list a call gives \<open>Empty\<close>.  So a theorem holds for every
  behaviour of the channel.  The atomics of the shared watermark are read and written by the calls
  below, in the order of the calls.  A tick of an instant is a nanosecond here.
\<close>

section \<open>Time\<close>

definition saturating_mul :: "'a::len word \<Rightarrow> 'a word \<Rightarrow> 'a word" where
  "saturating_mul a b = (case checked_mul a b of Some c \<Rightarrow> c | None \<Rightarrow> - 1)"

definition duration_to_ms_saturating :: "duration \<Rightarrow> u64" where
  "duration_to_ms_saturating d =
     saturating_add (saturating_mul (of_nat (d div 1000000000)) 1000) (of_nat (d mod 1000000000 div 1000000))"

definition elapsed_ms_saturating :: "instant \<Rightarrow> instant \<Rightarrow> u64" where
  "elapsed_ms_saturating now since = duration_to_ms_saturating (now - since)"

section \<open>Configuration\<close>

record ResyncConfig =
  rcfg_dedup_capacity :: u64
  rcfg_enter_percent :: u64
  rcfg_boundary_silence_ms :: u64
  rcfg_publish_stall_ms :: u64
  rcfg_exit_hold_ms :: u64
  rcfg_confirm_timeout_ms :: u64
  rcfg_nonce_ahead_settle_ms :: u64

definition DEFAULT_DEDUP_CAPACITY :: u64 where
  "DEFAULT_DEDUP_CAPACITY = push_bit 17 1"

definition DEFAULT_ENTER_PERCENT :: u64 where
  "DEFAULT_ENTER_PERCENT = 25"

definition ResyncConfig_default :: ResyncConfig where
  "ResyncConfig_default = \<lparr>
     rcfg_dedup_capacity = DEFAULT_DEDUP_CAPACITY,
     rcfg_enter_percent = DEFAULT_ENTER_PERCENT,
     rcfg_boundary_silence_ms = 10000,
     rcfg_publish_stall_ms = 10000,
     rcfg_exit_hold_ms = 2000,
     rcfg_confirm_timeout_ms = 15000,
     rcfg_nonce_ahead_settle_ms = 15000\<rparr>"

datatype ResyncConfigError =
    ThresholdOverflow u64 u64
  | ThresholdTooSmall u64 u64
  | CapacityNotUsize u64

definition rcfg_enter_threshold :: "ResyncConfig \<Rightarrow> ResyncConfigError + u64" where
  "rcfg_enter_threshold cfg =
     (case checked_mul (rcfg_dedup_capacity cfg) (rcfg_enter_percent cfg) of
        None \<Rightarrow> Inl (ThresholdOverflow (rcfg_dedup_capacity cfg) (rcfg_enter_percent cfg))
      | Some product \<Rightarrow>
          if product div 100 = 0
          then Inl (ThresholdTooSmall (rcfg_dedup_capacity cfg) (rcfg_enter_percent cfg))
          else Inr (product div 100))"

definition rcfg_validate :: "nat \<Rightarrow> ResyncConfig \<Rightarrow> ResyncConfigError + unit" where
  "rcfg_validate usize_max cfg =
     (case rcfg_enter_threshold cfg of
        Inl e \<Rightarrow> Inl e
      | Inr _ \<Rightarrow>
          if usize_max < unat (rcfg_dedup_capacity cfg)
          then Inl (CapacityNotUsize (rcfg_dedup_capacity cfg))
          else Inr ())"

section \<open>Channels\<close>

datatype 'a poll = Ready 'a | Empty | Disconnected

definition drain_bounded_step :: "'a poll list \<Rightarrow> bool \<Rightarrow> 'a option \<times> 'a poll list \<times> bool" where
  "drain_bounded_step rx dead =
     (case rx of
        [] \<Rightarrow> (None, [], dead)
      | Ready item # rx' \<Rightarrow> (Some item, rx', dead)
      | Empty # rx' \<Rightarrow> (None, rx', dead)
      | Disconnected # rx' \<Rightarrow> (None, rx', True))"

fun drain_bounded :: "nat \<Rightarrow> 'a poll list \<Rightarrow> bool \<Rightarrow> 'a list \<times> 'a poll list \<times> bool" where
  "drain_bounded 0 rx dead = ([], rx, dead)"
| "drain_bounded (Suc n) rx dead =
     (case drain_bounded_step rx dead of
        (None, rx', dead') \<Rightarrow> ([], rx', dead')
      | (Some item, rx', dead') \<Rightarrow>
          let (items, rest, dead'') = drain_bounded n rx' dead' in (item # items, rest, dead''))"

definition FLOOR_DRAIN_PER_ITER :: nat where
  "FLOOR_DRAIN_PER_ITER = 1024"

section \<open>The shared watermark\<close>

record SharedWatermark =
  sw_count :: u64
  sw_lag_gap_ms :: u64

definition sw_store :: "u64 \<Rightarrow> SharedWatermark \<Rightarrow> SharedWatermark" where
  "sw_store count w = w\<lparr>sw_count := count\<rparr>"

definition sw_load :: "SharedWatermark \<Rightarrow> u64" where
  "sw_load w = sw_count w"

definition flag_lag :: "u64 \<Rightarrow> SharedWatermark \<Rightarrow> SharedWatermark" where
  "flag_lag gap_ms w = w\<lparr>sw_lag_gap_ms := max (sw_lag_gap_ms w) gap_ms\<rparr>"

definition take_lag :: "SharedWatermark \<Rightarrow> u64 option \<times> SharedWatermark" where
  "take_lag w =
     (if sw_lag_gap_ms w = 0 then None else Some (sw_lag_gap_ms w), w\<lparr>sw_lag_gap_ms := 0\<rparr>)"

section \<open>The controller\<close>

datatype EnterReason =
    Startup
  | WatermarkJump u64
  | BoundarySilence u64
  | PublishStall u64

record Floor =
  fl_nonce :: u64
  fl_evidence :: Evidence

record Cut =
  cut_to_block :: "u64 option"
  cut_generation :: u64

definition voided_by :: "Cut \<Rightarrow> Floor \<Rightarrow> bool" where
  "voided_by mark floor =
     (case fl_evidence floor of
        ReceiptOf block \<Rightarrow> (case cut_to_block mark of None \<Rightarrow> False | Some to_block \<Rightarrow> to_block < block)
      | LookupAt _ \<Rightarrow> stale_at (cut_generation mark) (fl_evidence floor))"

record SealerRefusal =
  sr_sender :: address
  sr_nonce :: u64
  sr_reason :: TxErrorReason

datatype SealerAnswer =
    ContiguityReject address u64 u64
  | WindowFull address u64

record ResyncController =
  rs_cfg :: ResyncConfig
  rs_enter_threshold :: u64
  rs_partition :: u32
  rs_active :: bool
  rs_floors :: "(address, Floor) hash_map"
  rs_generation :: u64
  rs_rollbacks :: AppliedRollbacks
  rs_floor_rx :: "FloorEvent poll list"
  rs_floor_rx_dead :: bool
  rs_answer_rx :: "SealerAnswer poll list"
  rs_answer_rx_dead :: bool
  rs_deadline_rx :: "SealerRefusal poll list"
  rs_deadline_rx_dead :: bool
  rs_watermark :: SharedWatermark
  rs_last_watermark :: u64
  rs_watermark_seen :: bool
  rs_stall_since :: "instant option"
  rs_calm_since :: "instant option"

record ReceiptDrain =
  rd_raised :: "(address \<times> u64) list"
  rd_confirmations :: "(address \<times> u64) list"
  rd_released :: "(address \<times> u64) list"
  rd_forgotten :: "address list"
  rd_stale_lookups :: "address list"

definition ReceiptDrain_default :: ReceiptDrain where
  "ReceiptDrain_default =
     \<lparr>rd_raised = [], rd_confirmations = [], rd_released = [], rd_forgotten = [], rd_stale_lookups = []\<rparr>"

definition rs_enter :: "EnterReason \<Rightarrow> ResyncController \<Rightarrow> ResyncController" where
  "rs_enter reason c =
     (let c = c\<lparr>rs_calm_since := None\<rparr>
      in if rs_active c then c else c\<lparr>rs_active := True\<rparr>)"

definition rs_new :: "ResyncConfig \<Rightarrow> u32 \<Rightarrow> FloorEvent poll list \<Rightarrow> SealerAnswer poll list
    \<Rightarrow> SealerRefusal poll list \<Rightarrow> SharedWatermark \<Rightarrow> ResyncConfigError + ResyncController" where
  "rs_new cfg part floor_rx answer_rx deadline_rx watermark =
     (case rcfg_enter_threshold cfg of
        Inl e \<Rightarrow> Inl e
      | Inr enter_threshold \<Rightarrow>
          Inr (rs_enter Startup \<lparr>
            rs_cfg = cfg, rs_enter_threshold = enter_threshold, rs_partition = part,
            rs_active = False, rs_floors = [], rs_generation = 0, rs_rollbacks = [],
            rs_floor_rx = floor_rx, rs_floor_rx_dead = False,
            rs_answer_rx = answer_rx, rs_answer_rx_dead = False,
            rs_deadline_rx = deadline_rx, rs_deadline_rx_dead = False,
            rs_watermark = watermark, rs_last_watermark = 0, rs_watermark_seen = False,
            rs_stall_since = None, rs_calm_since = None\<rparr>))"

definition rs_open :: "nat \<Rightarrow> ResyncConfig \<Rightarrow> u32 \<Rightarrow> ResyncConfigError + ResyncController" where
  "rs_open usize_max cfg part =
     (if usize_max < unat (rcfg_dedup_capacity cfg)
      then Inl (CapacityNotUsize (rcfg_dedup_capacity cfg))
      else rs_new cfg part [] [] [] \<lparr>sw_count = 0, sw_lag_gap_ms = 0\<rparr>)"

definition rs_floor :: "address \<Rightarrow> ResyncController \<Rightarrow> u64 option" where
  "rs_floor sender c = map_option fl_nonce (map_of (rs_floors c) sender)"

section \<open>The receipt drain\<close>

definition take_floor_event :: "FloorEvent list \<Rightarrow> ResyncController
    \<Rightarrow> unit ControlFlow \<times> FloorEvent list \<times> ResyncController" where
  "take_floor_event events c =
     (case drain_bounded_step (rs_floor_rx c) (rs_floor_rx_dead c) of
        (None, rx, dead) \<Rightarrow> (Break, events, c\<lparr>rs_floor_rx := rx, rs_floor_rx_dead := dead\<rparr>)
      | (Some event, rx, dead) \<Rightarrow>
          (case event of RolledBack _ \<Rightarrow> Break | Update _ \<Rightarrow> Continue (),
           events @ [event], c\<lparr>rs_floor_rx := rx, rs_floor_rx_dead := dead\<rparr>))"

text \<open>The \<open>while\<close> loop of \<open>take_floor_events\<close>: the first argument is the room that is left.\<close>

fun take_floor_events :: "nat \<Rightarrow> FloorEvent list \<Rightarrow> ResyncController \<Rightarrow> FloorEvent list \<times> ResyncController" where
  "take_floor_events 0 events c = (events, c)"
| "take_floor_events (Suc room) events c =
     (case take_floor_event events c of
        (Break, events', c') \<Rightarrow> (events', c')
      | (Continue _, events', c') \<Rightarrow> take_floor_events room events' c')"

definition roll_back :: "ReceiptRollback \<Rightarrow> ReceiptDrain \<times> ResyncController \<Rightarrow> ReceiptDrain \<times> ResyncController" where
  "roll_back rollback = (\<lambda>(drain, c).
     let generation = saturating_add (rs_generation c) 1;
         (first, rollbacks) = first_time rollback (rs_rollbacks c);
         mark = \<lparr>cut_to_block = (if first then Some (rollback_to_block rollback) else None),
                cut_generation = generation\<rparr>;
         void = filter (\<lambda>(_, floor). voided_by mark floor) (rs_floors c);
         kept = filter (\<lambda>(_, floor). \<not> voided_by mark floor) (rs_floors c)
     in (drain\<lparr>rd_forgotten := rd_forgotten drain @ map fst void\<rparr>,
         c\<lparr>rs_generation := generation, rs_rollbacks := rollbacks, rs_floors := kept\<rparr>))"

definition fold_floor_update :: "FloorUpdate \<Rightarrow> ReceiptDrain \<times> ResyncController \<Rightarrow> ReceiptDrain \<times> ResyncController" where
  "fold_floor_update u = (\<lambda>(drain, c).
     if stale_at (rs_generation c) (fu_evidence u) then
       (drain\<lparr>rd_stale_lookups := rd_stale_lookups drain @ [fu_sender u]\<rparr>, c)
     else case confirmed (fu_outcome u) of
         None \<Rightarrow> (drain, c)
       | Some nonce \<Rightarrow>
           let drain = drain\<lparr>rd_confirmations := rd_confirmations drain @ [(fu_sender u, nonce)]\<rparr>;
               known = rs_floor (fu_sender u) c;
               drain = (case released (case known of None \<Rightarrow> 0 | Some f \<Rightarrow> f) (fu_outcome u) of
                          None \<Rightarrow> drain
                        | Some chain \<Rightarrow> drain\<lparr>rd_released := rd_released drain @ [(fu_sender u, chain)]\<rparr>)
           in case floor_of (fu_outcome u) of
                None \<Rightarrow> (drain, c)
              | Some floor \<Rightarrow>
                  let e = (case map_of (rs_floors c) (fu_sender u) of
                             None \<Rightarrow> \<lparr>fl_nonce = 0, fl_evidence = fu_evidence u\<rparr>
                           | Some e \<Rightarrow> e)
                  in if fl_nonce e < floor then
                       (drain\<lparr>rd_raised := rd_raised drain @ [(fu_sender u, floor)]\<rparr>,
                        c\<lparr>rs_floors := hm_insert (fu_sender u)
                             \<lparr>fl_nonce = floor, fl_evidence = fu_evidence u\<rparr> (rs_floors c)\<rparr>)
                     else (drain, c\<lparr>rs_floors := hm_insert (fu_sender u) e (rs_floors c)\<rparr>))"

definition floor_event :: "FloorEvent \<Rightarrow> ReceiptDrain \<times> ResyncController \<Rightarrow> ReceiptDrain \<times> ResyncController" where
  "floor_event event =
     (case event of Update u \<Rightarrow> fold_floor_update u | RolledBack rollback \<Rightarrow> roll_back rollback)"

definition drain_floor_updates :: "ResyncController \<Rightarrow> ReceiptDrain \<times> ResyncController" where
  "drain_floor_updates c =
     (let (events, c') = take_floor_events FLOOR_DRAIN_PER_ITER [] c
      in fold floor_event events (ReceiptDrain_default, c'))"

section \<open>The answers of the sealer\<close>

record AnswerDrain =
  an_drops :: "(address \<times> u64 \<times> u64) list"
  an_gaps :: "(address, u64) hash_map"
  an_window_full :: "(address \<times> u64) list"

definition AnswerDrain_default :: AnswerDrain where
  "AnswerDrain_default = \<lparr>an_drops = [], an_gaps = [], an_window_full = []\<rparr>"

definition add_reject :: "address \<Rightarrow> u64 \<Rightarrow> u64 \<Rightarrow> AnswerDrain \<Rightarrow> AnswerDrain" where
  "add_reject sender nonce expected d =
     (if nonce < expected then d\<lparr>an_drops := an_drops d @ [(sender, nonce, expected)]\<rparr>
      else d\<lparr>an_gaps := hm_insert sender
               (case map_of (an_gaps d) sender of None \<Rightarrow> expected | Some e \<Rightarrow> min e expected) (an_gaps d)\<rparr>)"

definition fold_answer :: "ResyncController \<Rightarrow> SealerAnswer \<Rightarrow> AnswerDrain \<Rightarrow> AnswerDrain" where
  "fold_answer c answer drain =
     (case answer of
        ContiguityReject sender nonce expected \<Rightarrow>
          let floor = (case rs_floor sender c of None \<Rightarrow> 0 | Some f \<Rightarrow> f)
          in add_reject sender nonce (max floor expected) drain
      | WindowFull sender nonce \<Rightarrow> drain\<lparr>an_window_full := an_window_full drain @ [(sender, nonce)]\<rparr>)"

definition drain_deadline_rejects :: "ResyncController \<Rightarrow> SealerRefusal list \<times> ResyncController" where
  "drain_deadline_rejects c =
     (let (items, rx, dead) = drain_bounded FLOOR_DRAIN_PER_ITER (rs_deadline_rx c) (rs_deadline_rx_dead c)
      in (items, c\<lparr>rs_deadline_rx := rx, rs_deadline_rx_dead := dead\<rparr>))"

definition drain_answers :: "ResyncController \<Rightarrow> AnswerDrain \<times> ResyncController" where
  "drain_answers c =
     (let (items, rx, dead) = drain_bounded FLOOR_DRAIN_PER_ITER (rs_answer_rx c) (rs_answer_rx_dead c);
          c = c\<lparr>rs_answer_rx := rx, rs_answer_rx_dead := dead\<rparr>
      in (fold (fold_answer c) items AnswerDrain_default, c))"

section \<open>The triggers\<close>

definition check_watermark_jump :: "u64 \<Rightarrow> ResyncController \<Rightarrow> ResyncController" where
  "check_watermark_jump jump c =
     (if rs_watermark_seen c \<and> rs_enter_threshold c \<le> jump then rs_enter (WatermarkJump jump) c else c)"

definition observe_watermark_change :: "u64 \<Rightarrow> ResyncController \<Rightarrow> ResyncController" where
  "observe_watermark_change w c =
     (let c = (if rs_last_watermark c \<le> w then check_watermark_jump (w - rs_last_watermark c) c else c)
      in c\<lparr>rs_last_watermark := w, rs_watermark_seen := True\<rparr>)"

definition maybe_exit :: "instant \<Rightarrow> ResyncController \<Rightarrow> ResyncController" where
  "maybe_exit now c =
     (if \<not> rs_active c then c
      else if \<not> (rs_watermark_seen c \<and> rs_stall_since c = None) then c\<lparr>rs_calm_since := None\<rparr>
      else
        let since = (case rs_calm_since c of None \<Rightarrow> now | Some t \<Rightarrow> t);
            c = c\<lparr>rs_calm_since := Some since\<rparr>
        in if rcfg_exit_hold_ms (rs_cfg c) \<le> elapsed_ms_saturating now since
           then c\<lparr>rs_active := False, rs_calm_since := None\<rparr>
           else c)"

definition rs_observe :: "instant \<Rightarrow> ResyncController \<Rightarrow> ResyncController" where
  "rs_observe now c =
     (let w = sw_load (rs_watermark c);
          (lag, watermark) = take_lag (rs_watermark c);
          c = c\<lparr>rs_watermark := watermark\<rparr>;
          c = (case lag of None \<Rightarrow> c | Some gap_ms \<Rightarrow> rs_enter (BoundarySilence gap_ms) c);
          c = (if w \<noteq> rs_last_watermark c then observe_watermark_change w c else c)
      in maybe_exit now c)"

definition note_publish_stall :: "instant \<Rightarrow> ResyncController \<Rightarrow> ResyncController" where
  "note_publish_stall now c =
     (let since = (case rs_stall_since c of None \<Rightarrow> now | Some t \<Rightarrow> t);
          c = c\<lparr>rs_stall_since := Some since\<rparr>;
          stalled_ms = elapsed_ms_saturating now since
      in if rcfg_publish_stall_ms (rs_cfg c) \<le> stalled_ms
         then (rs_enter (PublishStall stalled_ms) c)\<lparr>rs_stall_since := Some now\<rparr>
         else c)"

definition note_publish_ok :: "ResyncController \<Rightarrow> ResyncController" where
  "note_publish_ok c = c\<lparr>rs_stall_since := None\<rparr>"

end
