(* ===== verification/Resync_Safety.thy ===== *)
theory Resync_Safety
  imports Resync
begin

text \<open>
  The resync controller over its runs.  A floor of a sender is always backed by an executed
  nonce in the stream of floor events that no later rollback voids; the answers of the sealer are
  split by the receipt floors; and the resync mode ends only after a calm spell.
\<close>

section \<open>Floor events, one at a time\<close>

definition floor_next :: "FloorEvent \<Rightarrow> ResyncController \<Rightarrow> ResyncController" where
  "floor_next e c = snd (floor_event e (ReceiptDrain_default, c))"

lemma floor_event_snd: "snd (floor_event e (d, c)) = floor_next e c"
  by (cases e) (auto simp: floor_next_def floor_event_def roll_back_def fold_floor_update_def Let_def
      split: option.splits prod.splits if_splits)

lemma fold_floor_event_snd: "snd (fold floor_event es (d, c)) = fold floor_next es c"
proof (induction es arbitrary: d c)
  case (Cons e es)
  obtain d' c' where e: "floor_event e (d, c) = (d', c')" by (metis surj_pair)
  then have "c' = floor_next e c" using floor_event_snd [of e d c] by simp
  with e Cons.IH [of d' c'] show ?case by simp
qed simp

fun rollback_of :: "FloorEvent \<Rightarrow> ReceiptRollback option" where
  "rollback_of (RolledBack rb) = Some rb"
| "rollback_of (Update _) = None"

abbreviation rollbacks_in :: "FloorEvent list \<Rightarrow> ReceiptRollback list" where
  "rollbacks_in \<equiv> List.map_filter rollback_of"

abbreviation ids_in :: "FloorEvent list \<Rightarrow> b256 set" where
  "ids_in hist \<equiv> rollback_id ` set (rollbacks_in hist)"

text \<open>
  Evidence that entered after the events \<open>pre\<close> and that the events \<open>post\<close> followed is live: no
  new rollback among them went below the block of a receipt, and no rollback of any kind came
  after the request of a lookup.
\<close>

definition evidence_live :: "FloorEvent list \<Rightarrow> FloorEvent list \<Rightarrow> Evidence \<Rightarrow> bool" where
  "evidence_live pre post e \<longleftrightarrow>
     (case e of
        ReceiptOf block \<Rightarrow>
          \<forall>mid rb rest. post = mid @ RolledBack rb # rest \<longrightarrow>
            block \<le> rollback_to_block rb \<or> rollback_id rb \<in> ids_in (pre @ mid)
      | LookupAt asked \<Rightarrow> min (length (rollbacks_in (pre @ post))) (2 ^ 64 - 1) \<le> unat asked)"

definition backed :: "FloorEvent list \<Rightarrow> address \<Rightarrow> Floor \<Rightarrow> bool" where
  "backed hist a fl \<longleftrightarrow>
     (\<exists>pre u post n. hist = pre @ Update u # post \<and> fu_sender u = a \<and> fu_outcome u = Executed n \<and>
        fl_nonce fl = saturating_add n 1 \<and> fl_evidence fl = fu_evidence u \<and>
        evidence_live pre post (fu_evidence u))"

definition floors_ok :: "FloorEvent list \<Rightarrow> ResyncController \<Rightarrow> bool" where
  "floors_ok hist c \<longleftrightarrow>
     unat (rs_generation c) = min (length (rollbacks_in hist)) (2 ^ 64 - 1) \<and>
     rollback_id ` set (rs_rollbacks c) \<subseteq> ids_in hist \<and> hm_inv (rs_floors c) \<and>
     (\<forall>a fl. map_of (rs_floors c) a = Some fl \<longrightarrow> backed hist a fl)"

lemma rollbacks_in_simps [simp]:
  "rollbacks_in (xs @ ys) = rollbacks_in xs @ rollbacks_in ys"
  "rollbacks_in [RolledBack rb] = [rb]" "rollbacks_in [Update u] = []"
  "rollbacks_in (Update u # xs) = rollbacks_in xs" "rollbacks_in (RolledBack rb # xs) = rb # rollbacks_in xs"
  by (simp_all add: List.map_filter_def)

lemma backed_update: "backed hist a fl \<Longrightarrow> backed (hist @ [Update u]) a fl"
proof -
  assume "backed hist a fl"
  then obtain pre v post n where b: "hist = pre @ Update v # post" "fu_sender v = a" "fu_outcome v = Executed n"
    "fl_nonce fl = saturating_add n 1" "fl_evidence fl = fu_evidence v" "evidence_live pre post (fu_evidence v)"
    unfolding backed_def by blast
  have "evidence_live pre (post @ [Update u]) (fu_evidence v)"
  proof (cases "fu_evidence v")
    case (ReceiptOf block)
    have "block \<le> rollback_to_block rb \<or> rollback_id rb \<in> ids_in (pre @ mid)"
      if "post @ [Update u] = mid @ RolledBack rb # rest" for mid rb rest
    proof (cases rest rule: rev_cases)
      case (snoc rest' e)
      with that have "post = mid @ RolledBack rb # rest'" by simp
      with b(6) ReceiptOf show ?thesis by (simp add: evidence_live_def)
    qed (use that in simp)
    then show ?thesis using ReceiptOf by (simp add: evidence_live_def)
  qed (use b(6) in \<open>simp add: evidence_live_def\<close>)
  with b show ?thesis unfolding backed_def by (metis append_Cons append_assoc)
qed

lemma backed_rollback:
  assumes "backed hist a fl" and "fl_evidence fl = e"
    and "\<And>block. e = ReceiptOf block \<Longrightarrow> block \<le> rollback_to_block rb \<or> rollback_id rb \<in> ids_in hist"
    and "\<And>asked. e = LookupAt asked \<Longrightarrow> min (Suc (length (rollbacks_in hist))) (2 ^ 64 - 1) \<le> unat asked"
  shows "backed (hist @ [RolledBack rb]) a fl"
proof -
  obtain pre v post n where b: "hist = pre @ Update v # post" "fu_sender v = a" "fu_outcome v = Executed n"
    "fl_nonce fl = saturating_add n 1" "fl_evidence fl = fu_evidence v" "evidence_live pre post (fu_evidence v)"
    using assms(1) unfolding backed_def by blast
  have "evidence_live pre (post @ [RolledBack rb]) (fu_evidence v)"
  proof (cases "fu_evidence v")
    case (ReceiptOf block)
    have "block \<le> rollback_to_block rb' \<or> rollback_id rb' \<in> ids_in (pre @ mid)"
      if "post @ [RolledBack rb] = mid @ RolledBack rb' # rest" for mid rb' rest
    proof (cases rest rule: rev_cases)
      case Nil
      with that have "mid = post" "rb' = rb" by auto
      with assms(2,3) b(1,5) ReceiptOf show ?thesis by auto
    next
      case (snoc rest' e)
      with that have "post = mid @ RolledBack rb' # rest'" by simp
      with b(6) ReceiptOf show ?thesis by (simp add: evidence_live_def)
    qed
    then show ?thesis using ReceiptOf by (simp add: evidence_live_def)
  next
    case (LookupAt asked)
    with assms(2) b(5) have "e = LookupAt asked" by simp
    from assms(4) [OF this] b(1) LookupAt show ?thesis by (simp add: evidence_live_def)
  qed
  with b show ?thesis unfolding backed_def by (metis append_Cons append_assoc)
qed

lemma floors_ok_update:
  assumes "floors_ok hist c"
  shows "floors_ok (hist @ [Update u]) (floor_next (Update u) c)"
proof -
  let ?c = "floor_next (Update u) c"
  have same: "rs_generation ?c = rs_generation c" "rs_rollbacks ?c = rs_rollbacks c"
    by (simp_all add: floor_next_def floor_event_def fold_floor_update_def Let_def split: option.splits)
  have keep: "hm_inv (rs_floors ?c)" using assms
    by (auto simp: floors_ok_def floor_next_def floor_event_def fold_floor_update_def Let_def split: option.splits)
  have old: "backed (hist @ [Update u]) a fl" if "map_of (rs_floors c) a = Some fl" for a fl
    using assms that by (auto simp: floors_ok_def intro: backed_update)
  have "backed (hist @ [Update u]) a fl" if at: "map_of (rs_floors ?c) a = Some fl" for a fl
  proof (cases "map_of (rs_floors c) a = Some fl")
    case False
    then have fresh: "\<not> stale_at (rs_generation c) (fu_evidence u) \<and> fu_sender u = a \<and> fl_evidence fl = fu_evidence u \<and>
        floor_of (fu_outcome u) = Some (fl_nonce fl)"
      using at floor_of_positive [of "fu_outcome u"]
      by (auto simp: floor_next_def floor_event_def fold_floor_update_def Let_def
          split: option.splits if_splits)
    then obtain n where n: "fu_outcome u = Executed n" "fl_nonce fl = saturating_add n 1"
      by (auto simp: floor_of_Some)
    have "evidence_live hist [] (fu_evidence u)"
    proof (cases "fu_evidence u")
      case (LookupAt asked)
      then have "unat (rs_generation c) \<le> unat asked"
        using fresh by (simp add: stale_at_def word_le_nat_alt word_less_nat_alt not_less)
      with LookupAt assms show ?thesis by (simp add: evidence_live_def floors_ok_def)
    qed (simp add: evidence_live_def)
    with n fresh show ?thesis unfolding backed_def by blast
  qed (rule old)
  with same keep assms show ?thesis by (simp add: floors_ok_def)
qed

lemma map_of_filter_hm:
  "hm_inv m \<Longrightarrow> map_of (filter P m) k = (case map_of m k of None \<Rightarrow> None | Some v \<Rightarrow> if P (k, v) then Some v else None)"
proof (induction m)
  case (Cons e m)
  then have "hm_inv m" "fst e \<notin> fst ` set m" by (simp_all add: hm_inv_def)
  with Cons.IH show ?case by (cases e) (auto simp: map_of_eq_None_iff split: option.splits)
qed simp

lemma first_time_ids: "rollback_id ` set (snd (first_time rb rs)) \<subseteq> insert (rollback_id rb) (rollback_id ` set rs)"
  by (cases rs) (auto simp: first_time_def)

lemma floors_ok_rollback:
  assumes "floors_ok hist c"
  shows "floors_ok (hist @ [RolledBack rb]) (floor_next (RolledBack rb) c)"
proof -
  let ?c = "floor_next (RolledBack rb) c"
  let ?first = "fst (first_time rb (rs_rollbacks c))"
  let ?mark = "\<lparr>cut_to_block = (if ?first then Some (rollback_to_block rb) else None),
    cut_generation = saturating_add (rs_generation c) 1\<rparr>"
  have c: "rs_generation ?c = saturating_add (rs_generation c) 1"
    "rs_rollbacks ?c = snd (first_time rb (rs_rollbacks c))"
    "rs_floors ?c = filter (\<lambda>(_, fl). \<not> voided_by ?mark fl) (rs_floors c)"
    by (simp_all add: floor_next_def floor_event_def roll_back_def Let_def split_beta)
  have inv: "hm_inv (rs_floors c)" using assms by (simp add: floors_ok_def)
  have gen: "unat (rs_generation ?c) = min (length (rollbacks_in (hist @ [RolledBack rb]))) (2 ^ 64 - 1)"
    using assms by (simp add: c unat_saturating_add floors_ok_def)
  have "backed (hist @ [RolledBack rb]) a fl" if at: "map_of (rs_floors ?c) a = Some fl" for a fl
  proof -
    have held: "map_of (rs_floors c) a = Some fl" "\<not> voided_by ?mark fl"
      using at inv by (auto simp: c map_of_filter_hm split: option.splits if_splits)
    then have "backed hist a fl" using assms by (simp add: floors_ok_def)
    moreover have "block \<le> rollback_to_block rb \<or> rollback_id rb \<in> ids_in hist" if "fl_evidence fl = ReceiptOf block" for block
    proof (cases ?first)
      case True
      with that held(2) show ?thesis by (simp add: voided_by_def not_less)
    next
      case False
      then obtain rb' where "rb' \<in> set (rs_rollbacks c)" "rollback_id rb' = rollback_id rb"
        by (auto simp: first_time_def ar_contains_def split: if_splits)
      then have "rollback_id rb \<in> rollback_id ` set (rs_rollbacks c)" by (metis imageI)
      with assms show ?thesis by (auto simp: floors_ok_def)
    qed
    moreover have "min (Suc (length (rollbacks_in hist))) (2 ^ 64 - 1) \<le> unat asked"
      if "fl_evidence fl = LookupAt asked" for asked
      using that held(2) gen by (simp add: voided_by_def stale_at_def c(1) word_less_nat_alt not_less)
    ultimately show ?thesis by (intro backed_rollback [OF _ refl]) simp_all
  qed
  moreover have "rollback_id ` set (rs_rollbacks ?c) \<subseteq> ids_in (hist @ [RolledBack rb])"
    using first_time_ids [of rb "rs_rollbacks c"] assms by (auto simp: floors_ok_def c)
  ultimately show ?thesis using gen inv by (simp add: floors_ok_def c hm_inv_filter)
qed

section \<open>Runs of the controller\<close>

text \<open>
  The calls of the publish loop and of the feed threads.  A drain carries the results that its
  channel gives to it, and an observation the shared watermark it reads.
\<close>

datatype ResyncStep =
    DrainFloors "FloorEvent poll list"
  | DrainAnswers "SealerAnswer poll list"
  | DrainRefusals "SealerRefusal poll list"
  | Observed SharedWatermark instant
  | Stalled instant
  | Published

fun resync_step :: "ResyncStep \<Rightarrow> ResyncController \<Rightarrow> ResyncController" where
  "resync_step (DrainFloors rx) c = snd (drain_floor_updates (c\<lparr>rs_floor_rx := rx\<rparr>))"
| "resync_step (DrainAnswers rx) c = snd (drain_answers (c\<lparr>rs_answer_rx := rx\<rparr>))"
| "resync_step (DrainRefusals rx) c = snd (drain_deadline_rejects (c\<lparr>rs_deadline_rx := rx\<rparr>))"
| "resync_step (Observed w now) c = rs_observe now (c\<lparr>rs_watermark := w\<rparr>)"
| "resync_step (Stalled now) c = note_publish_stall now c"
| "resync_step Published c = note_publish_ok c"

fun events_of :: "ResyncStep \<Rightarrow> ResyncController \<Rightarrow> FloorEvent list" where
  "events_of (DrainFloors rx) c = fst (take_floor_events FLOOR_DRAIN_PER_ITER [] (c\<lparr>rs_floor_rx := rx\<rparr>))"
| "events_of _ c = []"

definition tracked_step :: "ResyncStep \<Rightarrow> FloorEvent list \<times> ResyncController \<Rightarrow> FloorEvent list \<times> ResyncController" where
  "tracked_step e = (\<lambda>(hist, c). (hist @ events_of e c, resync_step e c))"

lemma tracked_run:
  "fold tracked_step es (hist, c) = (hist @ outputs resync_step events_of es c, fold resync_step es c)"
  by (induction es arbitrary: hist c) (simp_all add: tracked_step_def)

lemma take_floor_events_frame:
  obtains rx dead where "snd (take_floor_events room events c) = c\<lparr>rs_floor_rx := rx, rs_floor_rx_dead := dead\<rparr>"
proof -
  have "\<exists>rx dead. snd (take_floor_events room events c) = c\<lparr>rs_floor_rx := rx, rs_floor_rx_dead := dead\<rparr>"
  proof (induction room arbitrary: events c)
    case 0
    show ?case by (rule exI [of _ "rs_floor_rx c"], rule exI [of _ "rs_floor_rx_dead c"]) simp
  next
    case (Suc room)
    obtain flow events' rx dead where
      t: "take_floor_event events c = (flow, events', c\<lparr>rs_floor_rx := rx, rs_floor_rx_dead := dead\<rparr>)"
      by (cases "drain_bounded_step (rs_floor_rx c) (rs_floor_rx_dead c)"; cases "fst (drain_bounded_step (rs_floor_rx c) (rs_floor_rx_dead c))")
        (auto simp: take_floor_event_def)
    then show ?case using Suc.IH [of events' "c\<lparr>rs_floor_rx := rx, rs_floor_rx_dead := dead\<rparr>"]
      by (cases flow) auto
  qed
  then show thesis using that by blast
qed

lemma drain_floor_updates_snd:
  "snd (drain_floor_updates c) =
     fold floor_next (fst (take_floor_events FLOOR_DRAIN_PER_ITER [] c)) (snd (take_floor_events FLOOR_DRAIN_PER_ITER [] c))"
  by (simp add: drain_floor_updates_def split_beta fold_floor_event_snd)

lemma floors_ok_events: "floors_ok hist c \<Longrightarrow> floors_ok (hist @ es) (fold floor_next es c)"
proof (induction es arbitrary: hist c)
  case (Cons e es)
  then have "floors_ok (hist @ [e]) (floor_next e c)"
    by (cases e) (simp_all add: floors_ok_update floors_ok_rollback)
  from Cons.IH [OF this] show ?case by simp
qed simp

lemma trigger_frame [simp]:
  "rs_generation (rs_enter r c) = rs_generation c" "rs_rollbacks (rs_enter r c) = rs_rollbacks c"
  "rs_floors (rs_enter r c) = rs_floors c"
  "rs_generation (rs_observe now c) = rs_generation c" "rs_rollbacks (rs_observe now c) = rs_rollbacks c"
  "rs_floors (rs_observe now c) = rs_floors c"
  "rs_generation (note_publish_stall now c) = rs_generation c"
  "rs_rollbacks (note_publish_stall now c) = rs_rollbacks c"
  "rs_floors (note_publish_stall now c) = rs_floors c"
  by (auto simp: rs_enter_def rs_observe_def maybe_exit_def observe_watermark_change_def check_watermark_jump_def
      note_publish_stall_def take_lag_def Let_def split: option.splits)

lemma answer_frame [simp]:
  "rs_generation (snd (drain_answers c)) = rs_generation c" "rs_rollbacks (snd (drain_answers c)) = rs_rollbacks c"
  "rs_floors (snd (drain_answers c)) = rs_floors c"
  "rs_generation (snd (drain_deadline_rejects c)) = rs_generation c"
  "rs_rollbacks (snd (drain_deadline_rejects c)) = rs_rollbacks c"
  "rs_floors (snd (drain_deadline_rejects c)) = rs_floors c"
  by (simp_all add: drain_answers_def drain_deadline_rejects_def split_beta Let_def)

interpretation tracking: invariant_machine tracked_step "\<lambda>_ _. True" "\<lambda>(hist, c). floors_ok hist c"
proof
  fix s e
  assume "case s of (hist, c) \<Rightarrow> floors_ok hist c"
  then obtain hist c where s: "s = (hist, c)" and ok: "floors_ok hist c" by (cases s) simp
  show "case tracked_step e s of (hist, c) \<Rightarrow> floors_ok hist c"
  proof (cases e)
    case (DrainFloors rx)
    let ?c = "c\<lparr>rs_floor_rx := rx\<rparr>"
    have "floors_ok hist (snd (take_floor_events FLOOR_DRAIN_PER_ITER [] ?c))"
    proof -
      obtain rx' dead where "snd (take_floor_events FLOOR_DRAIN_PER_ITER [] ?c) =
          ?c\<lparr>rs_floor_rx := rx', rs_floor_rx_dead := dead\<rparr>" by (rule take_floor_events_frame)
      with ok show ?thesis by (simp add: floors_ok_def)
    qed
    from floors_ok_events [OF this] show ?thesis
      by (simp add: s DrainFloors tracked_step_def drain_floor_updates_snd)
  qed (use ok in \<open>simp_all add: s tracked_step_def note_publish_ok_def floors_ok_def\<close>)
qed

lemma rs_new_Inr:
  assumes "rs_new cfg part rx1 rx2 rx3 w = Inr c"
  shows "rs_floors c = []" "rs_generation c = 0" "rs_rollbacks c = []" "rs_calm_since c = None" "rs_stall_since c = None"
    "rs_cfg c = cfg" "rs_active c"
  using assms by (auto simp: rs_new_def rs_enter_def split: sum.splits)

lemma floors_ok_new: "rs_new cfg part rx1 rx2 rx3 w = Inr c \<Longrightarrow> floors_ok [] c"
  by (simp add: floors_ok_def rs_new_Inr hm_inv_def List.map_filter_def)

text \<open>
  C28. A receipt floor is proof.  Over every run of the controller, whatever its channels give, the
  floor of a sender comes from an update of the floor stream that executed the nonce below it, and
  the evidence still stands: no later new rollback went below the block of the receipt, and no
  rollback at all came after the request of the lookup.  So the sequencer never skips a publish
  for a nonce that a rollback put back.
\<close>

theorem floors_have_live_evidence:
  assumes "rs_new cfg part rx1 rx2 rx3 w = Inr c"
    and "map_of (rs_floors (fold resync_step steps c)) a = Some fl"
  shows "\<exists>pre u post n. outputs resync_step events_of steps c = pre @ Update u # post \<and>
    fu_sender u = a \<and> fu_outcome u = Executed n \<and> fl_nonce fl = saturating_add n 1 \<and>
    fl_evidence fl = fu_evidence u \<and> evidence_live pre post (fu_evidence u)"
proof -
  have "floors_ok (outputs resync_step events_of steps c) (fold resync_step steps c)"
    using tracking.run_inv [of "([], c)" steps] floors_ok_new [OF assms(1)]
    by (simp add: tracked_run admissible_True)
  with assms(2) show ?thesis by (simp add: floors_ok_def backed_def)
qed

definition small_controller :: ResyncController where
  "small_controller = (case rs_new ResyncConfig_default 0 [] [] [] \<lparr>sw_count = 0, sw_lag_gap_ms = 0\<rparr> of Inr c \<Rightarrow> c)"

lemma small_controller_new:
  "rs_new ResyncConfig_default 0 [] [] [] \<lparr>sw_count = 0, sw_lag_gap_ms = 0\<rparr> = Inr small_controller"
  by code_simp

lemma small_controller_fields:
  "rs_last_watermark small_controller = 0" "rs_watermark_seen small_controller = False"
  "rs_enter_threshold small_controller = 32768"
  by code_simp+

definition executed_in :: "address \<Rightarrow> u64 \<Rightarrow> u64 \<Rightarrow> FloorEvent" where
  "executed_in sender nonce block = Update (with_evidence (ReceiptOf block) (executed sender nonce))"

definition rolled_back_to :: "u64 \<Rightarrow> b256 \<Rightarrow> FloorEvent" where
  "rolled_back_to block i = RolledBack \<lparr>rollback_to_block = block, rollback_id = i\<rparr>"

theorem floors_have_live_evidence_witness:
  "\<exists>pre u post n. outputs resync_step events_of
      [DrainFloors [Ready (executed_in 7 4 10), Ready (executed_in 8 2 30)],
       DrainFloors [Ready (rolled_back_to 20 1)]] small_controller = pre @ Update u # post \<and>
    fu_sender u = 7 \<and> fu_outcome u = Executed n \<and> 5 = saturating_add n 1 \<and>
    fu_evidence u = ReceiptOf 10 \<and> evidence_live pre post (ReceiptOf 10)"
proof -
  let ?steps = "[DrainFloors [Ready (executed_in 7 4 10), Ready (executed_in 8 2 30)],
    DrainFloors [Ready (rolled_back_to 20 1)]]"
  have "map_of (rs_floors (fold resync_step ?steps small_controller)) 7 =
      Some \<lparr>fl_nonce = 5, fl_evidence = ReceiptOf 10\<rparr>" by code_simp
  from floors_have_live_evidence [OF small_controller_new this] show ?thesis
    unfolding Floor.select_convs by metis
qed

section \<open>Without rollbacks a floor is the highest proof\<close>

definition proofs_of :: "address \<Rightarrow> FloorEvent list \<Rightarrow> u64 list" where
  "proofs_of a hist = List.map_filter (\<lambda>e. case e of
     Update u \<Rightarrow> if fu_sender u = a then floor_of (fu_outcome u) else None | RolledBack _ \<Rightarrow> None) hist"

definition highest :: "u64 list \<Rightarrow> u64 option" where
  "highest ns = (if ns = [] then None else Some (Max (set ns)))"

lemma highest_snoc: "highest (ns @ [n]) = Some (case highest ns of None \<Rightarrow> n | Some m \<Rightarrow> max m n)"
  by (auto simp: highest_def max.commute)

definition floors_top :: "FloorEvent list \<Rightarrow> ResyncController \<Rightarrow> bool" where
  "floors_top hist c \<longleftrightarrow> rs_generation c = 0 \<and> (\<forall>a. rs_floor a c = highest (proofs_of a hist))"

lemma proofs_of_snoc [simp]:
  "proofs_of a (hist @ [Update u]) =
     proofs_of a hist @ (if fu_sender u = a then (case floor_of (fu_outcome u) of None \<Rightarrow> [] | Some f \<Rightarrow> [f]) else [])"
  by (auto simp: proofs_of_def List.map_filter_def split: option.splits)

lemma floor_of_confirmed: "floor_of o1 = Some f \<Longrightarrow> \<exists>n. confirmed o1 = Some n \<and> f = saturating_add n 1"
  by (auto simp: floor_of_Some confirmed_def)

lemma floor_next_floor:
  assumes "\<not> stale_at (rs_generation c) (fu_evidence u)"
  shows "rs_floor a (floor_next (Update u) c) =
    (case floor_of (fu_outcome u) of
       None \<Rightarrow> rs_floor a c
     | Some f \<Rightarrow> if fu_sender u = a then Some (case rs_floor a c of None \<Rightarrow> f | Some g \<Rightarrow> max g f) else rs_floor a c)"
proof (cases "floor_of (fu_outcome u)")
  case None
  then show ?thesis
    by (auto simp: rs_floor_def floor_next_def floor_event_def fold_floor_update_def Let_def split: option.splits)
next
  case (Some f)
  then obtain n where "confirmed (fu_outcome u) = Some n" using floor_of_confirmed by blast
  moreover have "0 < f" using Some by (rule floor_of_positive)
  ultimately show ?thesis using assms Some
    by (auto simp: rs_floor_def floor_next_def floor_event_def fold_floor_update_def Let_def max_def not_less
        split: option.splits)
qed

lemma floors_top_update: "floors_top hist c \<Longrightarrow> floors_top (hist @ [Update u]) (floor_next (Update u) c)"
proof -
  assume top: "floors_top hist c"
  have "rs_generation (floor_next (Update u) c) = rs_generation c"
    by (simp add: floor_next_def floor_event_def fold_floor_update_def Let_def split: option.splits)
  moreover have "\<not> stale_at (rs_generation c) (fu_evidence u)"
    using top by (simp add: floors_top_def stale_at_def split: Evidence.splits)
  ultimately show ?thesis using top
    by (simp add: floors_top_def floor_next_floor highest_snoc split: option.splits)
qed

lemma floors_top_events: "rollbacks_in es = [] \<Longrightarrow> floors_top hist c \<Longrightarrow> floors_top (hist @ es) (fold floor_next es c)"
proof (induction es arbitrary: hist c)
  case (Cons e es)
  then obtain u where "e = Update u" by (cases e) simp_all
  with Cons.prems have "floors_top (hist @ [e]) (floor_next e c)" "rollbacks_in es = []"
    by (simp_all add: floors_top_update)
  with Cons.IH show ?case by fastforce
qed simp

lemma floors_top_step:
  assumes "floors_top hist c" and "rollbacks_in (events_of e c) = []"
  shows "floors_top (hist @ events_of e c) (resync_step e c)"
proof (cases e)
  case (DrainFloors rx)
  let ?c = "c\<lparr>rs_floor_rx := rx\<rparr>"
  obtain rx' dead where "snd (take_floor_events FLOOR_DRAIN_PER_ITER [] ?c) =
      ?c\<lparr>rs_floor_rx := rx', rs_floor_rx_dead := dead\<rparr>" by (rule take_floor_events_frame)
  then have "floors_top hist (snd (take_floor_events FLOOR_DRAIN_PER_ITER [] ?c))"
    using assms(1) by (simp add: floors_top_def rs_floor_def)
  from floors_top_events [OF _ this] assms(2) show ?thesis
    by (simp add: DrainFloors drain_floor_updates_snd)
qed (use assms in \<open>simp_all add: floors_top_def rs_floor_def note_publish_ok_def\<close>)

lemma floors_top_run:
  "floors_top hist c \<Longrightarrow> rollbacks_in (outputs resync_step events_of steps c) = [] \<Longrightarrow>
    floors_top (hist @ outputs resync_step events_of steps c) (fold resync_step steps c)"
proof (induction steps arbitrary: hist c)
  case (Cons e steps)
  then have "floors_top (hist @ events_of e c) (resync_step e c)" by (simp add: floors_top_step)
  with Cons.IH [of "hist @ events_of e c" "resync_step e c"] Cons.prems(2) show ?case by simp
qed simp

text \<open>
  C29. While no rollback comes, the receipt floor of a sender is exactly the highest nonce that the
  stream proves executed, plus one, and it is unknown while the stream proves none: no proof is
  lost, whatever the order of the updates and however the drains split the stream.
\<close>

theorem floor_is_highest_proof:
  assumes "rs_new cfg part rx1 rx2 rx3 w = Inr c"
    and "rollbacks_in (outputs resync_step events_of steps c) = []"
  shows "rs_floor a (fold resync_step steps c) = highest (proofs_of a (outputs resync_step events_of steps c))"
proof -
  have "floors_top [] c" using assms(1)
    by (simp add: floors_top_def rs_floor_def rs_new_Inr highest_def proofs_of_def List.map_filter_def)
  from floors_top_run [OF this assms(2)] show ?thesis by (simp add: floors_top_def)
qed

theorem floor_is_highest_proof_witness:
  "rs_floor 7 (fold resync_step [DrainFloors [Ready (executed_in 7 4 10), Ready (executed_in 7 2 30)], Published] small_controller)
    = Some 5"
proof -
  let ?steps = "[DrainFloors [Ready (executed_in 7 4 10), Ready (executed_in 7 2 30)], Published]"
  have "rollbacks_in (outputs resync_step events_of ?steps small_controller) = []" by code_simp
  from floor_is_highest_proof [OF small_controller_new this, of 7]
  show ?thesis by (rule trans) code_simp
qed

section \<open>The split of the answers\<close>

definition expected_of :: "ResyncController \<Rightarrow> address \<Rightarrow> u64 \<Rightarrow> u64" where
  "expected_of c sender expected = max (case rs_floor sender c of None \<Rightarrow> 0 | Some f \<Rightarrow> f) expected"

definition gaps_of :: "ResyncController \<Rightarrow> address \<Rightarrow> SealerAnswer list \<Rightarrow> u64 list" where
  "gaps_of c a answers = List.map_filter (\<lambda>answer. case answer of
     ContiguityReject s n e \<Rightarrow> if s = a \<and> expected_of c s e \<le> n then Some (expected_of c s e) else None
   | WindowFull _ _ \<Rightarrow> None) answers"

definition drops_of :: "ResyncController \<Rightarrow> SealerAnswer list \<Rightarrow> (address \<times> u64 \<times> u64) list" where
  "drops_of c answers = List.map_filter (\<lambda>answer. case answer of
     ContiguityReject s n e \<Rightarrow> if n < expected_of c s e then Some (s, n, expected_of c s e) else None
   | WindowFull _ _ \<Rightarrow> None) answers"

definition windows_of :: "SealerAnswer list \<Rightarrow> (address \<times> u64) list" where
  "windows_of answers = List.map_filter (\<lambda>answer. case answer of
     ContiguityReject _ _ _ \<Rightarrow> None | WindowFull s n \<Rightarrow> Some (s, n)) answers"

definition lowest :: "u64 list \<Rightarrow> u64 option" where
  "lowest ns = (if ns = [] then None else Some (Min (set ns)))"

lemma lowest_snoc: "lowest (ns @ [n]) = Some (case lowest ns of None \<Rightarrow> n | Some m \<Rightarrow> min m n)"
  by (auto simp: lowest_def min.commute)

lemma fold_answer_simps:
  "fold_answer c (ContiguityReject s n e) d = add_reject s n (expected_of c s e) d"
  "fold_answer c (WindowFull s n) d = d\<lparr>an_window_full := an_window_full d @ [(s, n)]\<rparr>"
  by (simp_all add: fold_answer_def expected_of_def)

lemma fold_answers_spec:
  "an_drops (fold (fold_answer c) answers AnswerDrain_default) = drops_of c answers \<and>
   an_window_full (fold (fold_answer c) answers AnswerDrain_default) = windows_of answers \<and>
   (\<forall>a. map_of (an_gaps (fold (fold_answer c) answers AnswerDrain_default)) a = lowest (gaps_of c a answers))"
proof (induction answers rule: rev_induct)
  case Nil
  show ?case by (simp add: AnswerDrain_default_def drops_of_def windows_of_def gaps_of_def lowest_def List.map_filter_def)
next
  case (snoc answer answers)
  show ?case
  proof (cases answer)
    case (ContiguityReject s n e)
    have "gaps_of c a (answers @ [answer]) = gaps_of c a answers @
        (if s = a \<and> expected_of c s e \<le> n then [expected_of c s e] else [])" for a
      by (auto simp: ContiguityReject gaps_of_def List.map_filter_def)
    moreover have "drops_of c (answers @ [answer]) = drops_of c answers @
        (if n < expected_of c s e then [(s, n, expected_of c s e)] else [])"
      by (simp add: ContiguityReject drops_of_def List.map_filter_def)
    moreover have "windows_of (answers @ [answer]) = windows_of answers"
      by (simp add: ContiguityReject windows_of_def List.map_filter_def)
    ultimately show ?thesis using snoc
      by (auto simp: ContiguityReject fold_answer_simps add_reject_def lowest_snoc not_less)
  next
    case (WindowFull s n)
    with snoc show ?thesis
      by (simp add: fold_answer_simps drops_of_def windows_of_def gaps_of_def List.map_filter_def)
  qed
qed

lemma expected_of_rx [simp]:
  "expected_of (c\<lparr>rs_answer_rx := rx, rs_answer_rx_dead := dead\<rparr>) = expected_of c"
  by (simp add: expected_of_def rs_floor_def fun_eq_iff)

text \<open>
  C30. The drain splits the answers of the sealer by the receipt floor.  The expected nonce of a
  reject is first raised to the receipt floor of its sender.  A reject below it is a drop, in
  order; the other rejects of a sender collapse to the lowest expected nonce; and the window-full
  answers stay in order.  So no gap that the sequencer rewinds to is below the receipt floor.
\<close>

theorem drain_answers_split:
  "let answers = fst (drain_bounded FLOOR_DRAIN_PER_ITER (rs_answer_rx c) (rs_answer_rx_dead c));
       drain = fst (drain_answers c)
   in an_drops drain = drops_of c answers \<and> an_window_full drain = windows_of answers \<and>
      (\<forall>a. map_of (an_gaps drain) a = lowest (gaps_of c a answers))"
proof -
  obtain answers rx dead where d: "drain_bounded FLOOR_DRAIN_PER_ITER (rs_answer_rx c) (rs_answer_rx_dead c) = (answers, rx, dead)"
    by (metis prod_cases3)
  let ?c = "c\<lparr>rs_answer_rx := rx, rs_answer_rx_dead := dead\<rparr>"
  have "drops_of ?c = drops_of c" "gaps_of ?c = gaps_of c" 
    unfolding drops_of_def gaps_of_def expected_of_rx by (rule refl)+
  then show ?thesis using fold_answers_spec [of ?c answers] by (simp add: drain_answers_def d Let_def)
qed

lemma gaps_of_floor: "e \<in> set (gaps_of c a answers) \<Longrightarrow> rs_floor a c = Some f \<Longrightarrow> f \<le> e"
  by (induction answers)
    (auto simp: gaps_of_def List.map_filter_simps expected_of_def split: SealerAnswer.splits if_splits)

lemma gaps_above_floor:
  assumes "map_of (an_gaps (fst (drain_answers c))) a = Some e" and "rs_floor a c = Some f"
  shows "f \<le> e"
proof -
  let ?answers = "fst (drain_bounded FLOOR_DRAIN_PER_ITER (rs_answer_rx c) (rs_answer_rx_dead c))"
  obtain answers rx dead where d: "drain_bounded FLOOR_DRAIN_PER_ITER (rs_answer_rx c) (rs_answer_rx_dead c) = (answers, rx, dead)"
    by (metis prod_cases3)
  let ?c = "c\<lparr>rs_answer_rx := rx, rs_answer_rx_dead := dead\<rparr>"
  have "gaps_of ?c = gaps_of c" unfolding gaps_of_def expected_of_rx by (rule refl)
  then have "lowest (gaps_of c a answers) = Some e"
    using assms(1) fold_answers_spec [of ?c answers] by (simp add: drain_answers_def d Let_def)
  then have "e \<in> set (gaps_of c a answers)" by (auto simp: lowest_def split: if_splits)
  then show ?thesis using assms(2) by (rule gaps_of_floor)
qed

section \<open>Leaving the resync mode\<close>

definition observation_disturbs :: "SharedWatermark \<Rightarrow> ResyncController \<Rightarrow> bool" where
  "observation_disturbs w c \<longleftrightarrow>
     sw_lag_gap_ms w \<noteq> 0 \<or> rs_stall_since c \<noteq> None \<or>
     (sw_count w \<noteq> rs_last_watermark c \<and> rs_last_watermark c \<le> sw_count w \<and> rs_watermark_seen c \<and>
      rs_enter_threshold c \<le> sw_count w - rs_last_watermark c)"

text \<open>What breaks a calm spell: a lag, a jump of the watermark, an open stall, or a stall past its limit.\<close>

fun disturbs_calm :: "ResyncStep \<Rightarrow> ResyncController \<Rightarrow> bool" where
  "disturbs_calm (Observed w now) c \<longleftrightarrow> observation_disturbs w c"
| "disturbs_calm (Stalled now) c \<longleftrightarrow>
     rcfg_publish_stall_ms (rs_cfg c) \<le> elapsed_ms_saturating now (case rs_stall_since c of None \<Rightarrow> now | Some t \<Rightarrow> t)"
| "disturbs_calm _ c \<longleftrightarrow> False"

definition calm_along :: "ResyncStep list \<Rightarrow> ResyncController \<Rightarrow> bool" where
  "calm_along steps c \<longleftrightarrow> admissible_run resync_step (\<lambda>e c. \<not> disturbs_calm e c) steps c"

text \<open>A calm spell that began at \<open>t\<close>: nothing after the observation at \<open>t\<close> disturbed it.\<close>

definition calm_spell :: "ResyncController \<Rightarrow> ResyncStep list \<Rightarrow> instant \<Rightarrow> bool" where
  "calm_spell c steps t \<longleftrightarrow>
     (\<exists>pre w mid. steps = pre @ Observed w t # mid \<and> calm_along mid (fold resync_step (pre @ [Observed w t]) c))"

lemma calm_along_snoc:
  "calm_along (steps @ [e]) c \<longleftrightarrow> calm_along steps c \<and> \<not> disturbs_calm e (fold resync_step steps c)"
  unfolding calm_along_def by (induction steps arbitrary: c) auto

lemma calm_spell_snoc:
  assumes "calm_spell c steps t" and "\<not> disturbs_calm e (fold resync_step steps c)"
  shows "calm_spell c (steps @ [e]) t"
proof -
  obtain pre w mid where s: "steps = pre @ Observed w t # mid" "calm_along mid (fold resync_step (pre @ [Observed w t]) c)"
    using assms(1) unfolding calm_spell_def by blast
  then have "calm_along (mid @ [e]) (fold resync_step (pre @ [Observed w t]) c)"
    unfolding calm_along_snoc using assms(2) by simp
  with s(1) show ?thesis unfolding calm_spell_def by fastforce
qed

lemma calm_spell_start: "calm_spell c (steps @ [Observed w t]) t"
  unfolding calm_spell_def calm_along_def by (rule exI [of _ steps], rule exI [of _ w], rule exI [of _ "[]"]) simp

lemma saturating_mul_le: "unat (saturating_mul (a::'a::len word) b) \<le> unat a * unat b"
proof (cases "checked_mul a b")
  case None
  then have "2 ^ LENGTH('a) \<le> unat a * unat b" by (simp add: checked_mul_def split: if_splits)
  moreover have "unat (- 1 :: 'a word) < 2 ^ LENGTH('a)" by (rule unsigned_less)
  ultimately show ?thesis unfolding saturating_mul_def None option.case by linarith
qed (simp add: saturating_mul_def checked_mul_Some)

lemma duration_to_ms_le: "unat (duration_to_ms_saturating d) \<le> d div 1000000"
proof -
  let ?s = "of_nat (d div 1000000000) :: u64" and ?m = "of_nat (d mod 1000000000 div 1000000) :: u64"
  have of_nat_le: "unat (of_nat k :: u64) \<le> k" for k by (simp add: unsigned_of_nat take_bit_eq_mod)
  have "unat (saturating_mul ?s 1000) \<le> unat ?s * unat (1000 :: u64)" by (rule saturating_mul_le)
  also have "\<dots> \<le> d div 1000000000 * 1000" using of_nat_le [of "d div 1000000000"] by simp
  finally have "unat (duration_to_ms_saturating d) \<le> d div 1000000000 * 1000 + d mod 1000000000 div 1000000"
    using of_nat_le [of "d mod 1000000000 div 1000000"] unfolding duration_to_ms_saturating_def unat_saturating_add
    by (intro min.coboundedI1 add_mono)
  also have "\<dots> = (d mod 1000000000 + (d div 1000000000 * 1000) * 1000000) div 1000000"
    by (subst div_mult_self1) simp_all
  also have "d mod 1000000000 + (d div 1000000000 * 1000) * 1000000 = d"
    using mod_div_mult_eq [of d 1000000000] by simp
  finally show ?thesis .
qed

lemma rs_enter_simps [simp]:
  "rs_calm_since (rs_enter r c) = None" "rs_active (rs_enter r c)" "rs_stall_since (rs_enter r c) = rs_stall_since c"
  "rs_cfg (rs_enter r c) = rs_cfg c" "rs_watermark_seen (rs_enter r c) = rs_watermark_seen c"
  "rs_last_watermark (rs_enter r c) = rs_last_watermark c" "rs_enter_threshold (rs_enter r c) = rs_enter_threshold c"
  by (simp_all add: rs_enter_def Let_def)

text \<open>The controller of an observation just before \<open>maybe_exit\<close>.\<close>

definition observed :: "SharedWatermark \<Rightarrow> ResyncController \<Rightarrow> ResyncController" where
  "observed w c =
     (let (lag, watermark) = take_lag w;
          c = c\<lparr>rs_watermark := watermark\<rparr>;
          c = (case lag of None \<Rightarrow> c | Some gap_ms \<Rightarrow> rs_enter (BoundarySilence gap_ms) c)
      in if sw_load w \<noteq> rs_last_watermark c then observe_watermark_change (sw_load w) c else c)"

lemma rs_observe_eq: "rs_observe now (c\<lparr>rs_watermark := w\<rparr>) = maybe_exit now (observed w c)"
  by (simp add: rs_observe_def observed_def split_beta Let_def)

lemma observed_cases:
  "rs_cfg (observed w c) = rs_cfg c \<and> rs_stall_since (observed w c) = rs_stall_since c \<and>
   (rs_calm_since (observed w c) = rs_calm_since c \<and> rs_active (observed w c) = rs_active c \<and>
      (observation_disturbs w c \<longrightarrow> rs_stall_since c \<noteq> None)
    \<or> rs_calm_since (observed w c) = None \<and> rs_active (observed w c))"
proof (cases "sw_lag_gap_ms w = 0")
  case True
  then show ?thesis
    by (auto simp: observed_def take_lag_def sw_load_def observe_watermark_change_def check_watermark_jump_def
        observation_disturbs_def Let_def)
next
  case False
  then show ?thesis
    by (auto simp: observed_def take_lag_def sw_load_def observe_watermark_change_def check_watermark_jump_def Let_def)
qed

lemma observe_calm:
  assumes "rs_calm_since c \<noteq> None \<longrightarrow> rs_active c" and "rs_calm_since (resync_step (Observed w now) c) = Some t"
  shows "rs_active (resync_step (Observed w now) c)"
    and "rs_calm_since c = Some t \<and> \<not> observation_disturbs w c \<or> t = now"
  using assms observed_cases [of w c]
  by (auto simp: rs_observe_eq maybe_exit_def Let_def split: if_splits option.splits)

lemma observe_exit:
  assumes "rs_active c" and "\<not> rs_active (resync_step (Observed w now) c)"
  obtains t where "rs_calm_since c = Some t \<and> \<not> observation_disturbs w c \<or> t = now"
    and "rcfg_exit_hold_ms (rs_cfg c) \<le> elapsed_ms_saturating now t"
  using assms observed_cases [of w c]
  by (auto simp: rs_observe_eq maybe_exit_def Let_def split: if_splits option.splits)
    metis

text \<open>A pending calm spell: the mode is on, and nothing disturbed it since its first observation.\<close>

definition spell_ok :: "ResyncController \<Rightarrow> ResyncStep list \<Rightarrow> bool" where
  "spell_ok c0 steps \<longleftrightarrow>
     (\<forall>t. rs_calm_since (fold resync_step steps c0) = Some t \<longrightarrow>
        rs_active (fold resync_step steps c0) \<and> calm_spell c0 steps t)"

lemma floor_next_trigger_frame [simp]:
  "rs_calm_since (floor_next e c) = rs_calm_since c" "rs_active (floor_next e c) = rs_active c"
  "rs_cfg (floor_next e c) = rs_cfg c" "rs_stall_since (floor_next e c) = rs_stall_since c"
  by (cases e; simp add: floor_next_def floor_event_def roll_back_def fold_floor_update_def Let_def split_beta
      split: option.splits)+

lemma drain_trigger_frame [simp]:
  "rs_calm_since (snd (drain_floor_updates c)) = rs_calm_since c" "rs_active (snd (drain_floor_updates c)) = rs_active c"
  "rs_cfg (snd (drain_floor_updates c)) = rs_cfg c"
  "rs_calm_since (snd (drain_answers c)) = rs_calm_since c" "rs_active (snd (drain_answers c)) = rs_active c"
  "rs_cfg (snd (drain_answers c)) = rs_cfg c"
  "rs_calm_since (snd (drain_deadline_rejects c)) = rs_calm_since c"
  "rs_active (snd (drain_deadline_rejects c)) = rs_active c" "rs_cfg (snd (drain_deadline_rejects c)) = rs_cfg c"
proof -
  have run: "rs_calm_since (fold floor_next es c') = rs_calm_since c' \<and> rs_active (fold floor_next es c') = rs_active c' \<and>
      rs_cfg (fold floor_next es c') = rs_cfg c'" for es c'
    by (induction es arbitrary: c') simp_all
  obtain rx dead where "snd (take_floor_events FLOOR_DRAIN_PER_ITER [] c) = c\<lparr>rs_floor_rx := rx, rs_floor_rx_dead := dead\<rparr>"
    by (rule take_floor_events_frame)
  then show "rs_calm_since (snd (drain_floor_updates c)) = rs_calm_since c" "rs_active (snd (drain_floor_updates c)) = rs_active c"
    "rs_cfg (snd (drain_floor_updates c)) = rs_cfg c" by (simp_all add: drain_floor_updates_snd run)
qed (simp_all add: drain_answers_def drain_deadline_rejects_def split_beta Let_def)

lemma stalled_calm:
  "rs_calm_since (note_publish_stall now c) = Some t \<Longrightarrow>
    \<not> disturbs_calm (Stalled now) c \<and> rs_calm_since c = Some t \<and> rs_active (note_publish_stall now c) = rs_active c"
  "rs_active c \<Longrightarrow> rs_active (note_publish_stall now c)"
  by (auto simp: note_publish_stall_def Let_def split: if_splits)

lemma spell_ok_snoc: "spell_ok c0 steps \<Longrightarrow> spell_ok c0 (steps @ [e])"
proof -
  let ?c = "fold resync_step steps c0"
  assume ok: "spell_ok c0 steps"
  then have act: "rs_calm_since ?c \<noteq> None \<longrightarrow> rs_active ?c" by (auto simp: spell_ok_def)
  have keep: "calm_spell c0 (steps @ [e]) t" if "rs_calm_since ?c = Some t" "\<not> disturbs_calm e ?c" for t
    using ok that by (simp add: spell_ok_def calm_spell_snoc)
  have "rs_active (resync_step e ?c) \<and> calm_spell c0 (steps @ [e]) t" if t: "rs_calm_since (resync_step e ?c) = Some t" for t
  proof (cases e)
    case (Observed w now)
    with t have "rs_active (resync_step e ?c)"
      "rs_calm_since ?c = Some t \<and> \<not> observation_disturbs w ?c \<or> t = now"
      using observe_calm [OF act, of w now t] by simp_all
    with keep Observed show ?thesis by (auto intro: calm_spell_start)
  next
    case (Stalled now)
    with stalled_calm(1) [of now ?c t] t keep act show ?thesis by simp
  qed (use t act keep in \<open>simp_all add: note_publish_ok_def\<close>)
  then show ?thesis by (simp add: spell_ok_def)
qed

lemma spell_ok_run: "rs_calm_since c0 = None \<Longrightarrow> spell_ok c0 steps"
  by (induction steps rule: rev_induct) (simp_all add: spell_ok_snoc, simp add: spell_ok_def)

lemma observed_cfg [simp]: "rs_cfg (observed w c) = rs_cfg c"
  using observed_cases by blast

lemma resync_step_cfg [simp]: "rs_cfg (resync_step e c) = rs_cfg c"
  by (cases e) (simp_all add: rs_observe_eq maybe_exit_def note_publish_stall_def note_publish_ok_def Let_def)

lemma resync_run_cfg [simp]: "rs_cfg (fold resync_step steps c) = rs_cfg c"
  by (induction steps arbitrary: c) simp_all

text \<open>
  C31. The resync mode ends only after a calm spell of the hold time.  When a call leaves the mode,
  it is an observation at some instant \<open>now\<close>, and there was an observation at an instant \<open>t\<close>, at
  least the hold time before, after which nothing disturbed the calm: no lag flag, no jump of the
  watermark past the threshold, no open stall at an observation, and no stall past its limit.
\<close>

theorem resync_ends_after_calm_spell:
  assumes "rs_new cfg part rx1 rx2 rx3 w = Inr c"
    and "rs_active (fold resync_step steps c)"
    and "\<not> rs_active (fold resync_step (steps @ [e]) c)"
  shows "\<exists>w now t. e = Observed w now \<and> calm_spell c (steps @ [e]) t \<and>
    unat (rcfg_exit_hold_ms cfg) \<le> (now - t) div 1000000"
proof -
  let ?c = "fold resync_step steps c"
  have off: "\<not> rs_active (resync_step e ?c)" using assms(3) by simp
  then obtain w now where e: "e = Observed w now"
    using assms(2) stalled_calm(2) by (cases e) (auto simp: note_publish_ok_def)
  obtain t where t: "rs_calm_since ?c = Some t \<and> \<not> observation_disturbs w ?c \<or> t = now"
      "rcfg_exit_hold_ms (rs_cfg ?c) \<le> elapsed_ms_saturating now t"
    using observe_exit [of ?c w now] assms(2) off e by blast
  have "spell_ok c steps" by (rule spell_ok_run) (rule rs_new_Inr(4) [OF assms(1)])
  then have "calm_spell c (steps @ [e]) t"
    using t(1) by (auto simp: e spell_ok_def calm_spell_start calm_spell_snoc)
  moreover have "unat (rcfg_exit_hold_ms cfg) \<le> (now - t) div 1000000"
    using t(2) duration_to_ms_le [of "now - t"] rs_new_Inr(6) [OF assms(1)]
    by (simp add: elapsed_ms_saturating_def word_le_nat_alt)
  ultimately show ?thesis using e by blast
qed

theorem resync_ends_after_calm_spell_witness:
  "\<exists>w now t. Observed \<lparr>sw_count = 5, sw_lag_gap_ms = 0\<rparr> 9000000000 = Observed w now \<and>
    calm_spell small_controller ([Observed \<lparr>sw_count = 4, sw_lag_gap_ms = 0\<rparr> 1000000000, Published]
      @ [Observed \<lparr>sw_count = 5, sw_lag_gap_ms = 0\<rparr> 9000000000]) t \<and>
    unat (rcfg_exit_hold_ms ResyncConfig_default) \<le> (now - t) div 1000000"
proof -
  let ?steps = "[Observed \<lparr>sw_count = 4, sw_lag_gap_ms = 0\<rparr> 1000000000, Published]"
  let ?e = "Observed \<lparr>sw_count = 5, sw_lag_gap_ms = 0\<rparr> 9000000000"
  note defs = rs_observe_def maybe_exit_def observe_watermark_change_def check_watermark_jump_def note_publish_ok_def
    take_lag_def sw_load_def rs_new_Inr [OF small_controller_new] small_controller_fields
  have "elapsed_ms_saturating 9000000000 1000000000 = 8000" "elapsed_ms_saturating 1000000000 1000000000 = 0"
    by (simp_all add: elapsed_ms_saturating_def duration_to_ms_saturating_def saturating_mul_def checked_mul_def
        saturating_add_def)
  note defs = defs this
  have small: "\<not> (32768 :: u64) \<le> 1" by code_simp
  have "rs_active (fold resync_step ?steps small_controller)"
    by (simp add: defs ResyncConfig_default_def Let_def)
  moreover have "\<not> rs_active (fold resync_step (?steps @ [?e]) small_controller)"
    by (simp add: defs small ResyncConfig_default_def Let_def)
  ultimately show ?thesis by (rule resync_ends_after_calm_spell [OF small_controller_new])
qed

end
