(* ===== verification/Sequencer_Config.thy ===== *)
theory Sequencer_Config
  imports Shard_Map Resync
begin

text \<open>
  \<open>crates/sequencer/src/config.rs\<close> and \<open>partition.rs\<close>: the settings that the publish loop reads,
  and the checks of the parse-once boundary.  The nested settings of other parts (the cluster client,
  the lookup, the fees, the caches, the second loop) are not fields here: no operation below reads them.  A duration is a
  number of nanoseconds.
\<close>

datatype ConfigError =
    IndexOutOfRange u32 u32
  | PartitionOffsetOverflow u32 u32
  | PartitionIndexNotU8 u32
  | LaneOutOfPlane u8
  | ExtraLaneIsOwn u8
  | ShadowNotSubset
  | ShadowWithoutOldLane
  | ShadowWarmBelowTtl u64 u64
  | LanePlane ShardMapError
  | ResyncSettings ResyncConfigError

datatype BackpressurePolicy = ReturnImmediately

record SequencerConfig =
  sc_partition_count :: u32
  sc_partition_index :: u32
  sc_sequencer_id :: u8
  sc_max_pending_per_sender :: nat
  sc_tx_ttl_ms :: u64
  sc_nonce_floor_lag_ms :: "u64 option"
  sc_core_id :: "nat option"
  sc_backpressure_policy :: BackpressurePolicy
  sc_resync :: ResyncConfig
  sc_receipts_from_egress :: bool
  sc_lane :: "u8 option"
  sc_vslots :: "VslotSet option"
  sc_extra_lanes :: "u8 list"
  sc_shadow_vslots :: VslotSet
  sc_shadow_warm_ms :: "u64 option"

definition SHADOW_WARM_MARGIN_MS :: u64 where
  "SHADOW_WARM_MARGIN_MS = 5000"

definition SequencerConfig_default :: SequencerConfig where
  "SequencerConfig_default = \<lparr>
     sc_partition_count = 8, sc_partition_index = 0, sc_sequencer_id = 0, sc_max_pending_per_sender = 16,
     sc_tx_ttl_ms = 30000, sc_nonce_floor_lag_ms = None, sc_core_id = None, sc_backpressure_policy = ReturnImmediately,
     sc_resync = ResyncConfig_default, sc_receipts_from_egress = False, sc_lane = None, sc_vslots = None,
     sc_extra_lanes = [], sc_shadow_vslots = VslotSet_EMPTY, sc_shadow_warm_ms = None\<rparr>"

definition from_millis :: "u64 \<Rightarrow> duration" where
  "from_millis ms = unat ms * 1000000"

definition pc_identity_map :: "u32 \<Rightarrow> ShardMapError + ShardMap" where
  "pc_identity_map count =
     (case validate_shard_count count of Inl e \<Rightarrow> Inl e | Inr lanes \<Rightarrow> identity_map (ucast lanes))"

definition cfg_lane :: "SequencerConfig \<Rightarrow> u8" where
  "cfg_lane cfg = (case sc_lane cfg of None \<Rightarrow> sc_sequencer_id cfg | Some l \<Rightarrow> l)"

definition cfg_lanes :: "SequencerConfig \<Rightarrow> u8 list" where
  "cfg_lanes cfg = cfg_lane cfg # sc_extra_lanes cfg"

definition cfg_tx_ttl :: "SequencerConfig \<Rightarrow> duration" where
  "cfg_tx_ttl cfg = from_millis (sc_tx_ttl_ms cfg)"

definition u8_try_from :: "u32 \<Rightarrow> u8 option" where
  "u8_try_from n = (if n < 256 then Some (ucast n) else None)"

definition cfg_vslot_set :: "SequencerConfig \<Rightarrow> ConfigError + VslotSet" where
  "cfg_vslot_set cfg =
     (case sc_vslots cfg of
        Some s \<Rightarrow> Inr s
      | None \<Rightarrow>
          (case pc_identity_map (sc_partition_count cfg) of
             Inl e \<Rightarrow> Inl (LanePlane e)
           | Inr m \<Rightarrow>
               (case u8_try_from (sc_partition_index cfg) of
                  None \<Rightarrow> Inl (PartitionIndexNotU8 (sc_partition_index cfg))
                | Some lane \<Rightarrow> Inr (vslot_set m lane))))"

definition shadow_warm :: "SequencerConfig \<Rightarrow> duration" where
  "shadow_warm cfg =
     from_millis (case sc_shadow_warm_ms cfg of
       None \<Rightarrow> saturating_add (sc_tx_ttl_ms cfg) SHADOW_WARM_MARGIN_MS | Some ms \<Rightarrow> ms)"

definition validate_identity_layout :: "SequencerConfig \<Rightarrow> ConfigError + unit" where
  "validate_identity_layout cfg =
     (if sc_vslots cfg \<noteq> None then Inr ()
      else case pc_identity_map (sc_partition_count cfg) of
          Inl e \<Rightarrow> Inl (LanePlane e)
        | Inr _ \<Rightarrow>
            if sc_partition_count cfg \<le> sc_partition_index cfg
            then Inl (IndexOutOfRange (sc_partition_index cfg) (sc_partition_count cfg))
            else Inr ())"

definition validate_lanes :: "SequencerConfig \<Rightarrow> ConfigError + unit" where
  "validate_lanes cfg =
     (case List.find (\<lambda>l. of_nat LANE_COUNT \<le> l) (cfg_lanes cfg) of
        Some bad \<Rightarrow> Inl (LaneOutOfPlane bad)
      | None \<Rightarrow>
          if cfg_lane cfg \<in> set (sc_extra_lanes cfg) then Inl (ExtraLaneIsOwn (cfg_lane cfg)) else Inr ())"

definition validate_shadow :: "SequencerConfig \<Rightarrow> ConfigError + unit" where
  "validate_shadow cfg =
     (case cfg_vslot_set cfg of
        Inl e \<Rightarrow> Inl e
      | Inr vslots \<Rightarrow>
          if \<not> vs_is_subset_of (sc_shadow_vslots cfg) vslots then Inl ShadowNotSubset
          else if \<not> vs_is_empty (sc_shadow_vslots cfg) \<and> sc_extra_lanes cfg = [] then Inl ShadowWithoutOldLane
          else case sc_shadow_warm_ms cfg of
              Some warm_ms \<Rightarrow>
                if warm_ms < sc_tx_ttl_ms cfg then Inl (ShadowWarmBelowTtl warm_ms (sc_tx_ttl_ms cfg)) else Inr ()
            | None \<Rightarrow> Inr ())"

definition cfg_validate :: "nat \<Rightarrow> SequencerConfig \<Rightarrow> ConfigError + unit" where
  "cfg_validate usize_max cfg =
     (case validate_identity_layout cfg of Inl e \<Rightarrow> Inl e | Inr _ \<Rightarrow>
      case validate_lanes cfg of Inl e \<Rightarrow> Inl e | Inr _ \<Rightarrow>
      case validate_shadow cfg of Inl e \<Rightarrow> Inl e | Inr _ \<Rightarrow>
      case rcfg_validate usize_max (sc_resync cfg) of Inl e \<Rightarrow> Inl (ResyncSettings e) | Inr _ \<Rightarrow> Inr ())"

text \<open>The result and the settings after the call: an index that is no wire byte is kept.\<close>

definition rotate_partition :: "u32 \<Rightarrow> SequencerConfig \<Rightarrow> (ConfigError + unit) \<times> SequencerConfig" where
  "rotate_partition offset cfg =
     (case checked_add (sc_partition_index cfg) offset of
        None \<Rightarrow> (Inl (PartitionOffsetOverflow (sc_partition_index cfg) offset), cfg)
      | Some shifted \<Rightarrow>
          let cfg = cfg\<lparr>sc_partition_index := shifted mod sc_partition_count cfg\<rparr>
          in case u8_try_from (sc_partition_index cfg) of
               None \<Rightarrow> (Inl (PartitionIndexNotU8 (sc_partition_index cfg)), cfg)
             | Some i \<Rightarrow> (Inr (), cfg\<lparr>sc_sequencer_id := i\<rparr>))"

section \<open>What a validated configuration guarantees\<close>

definition config_wf :: "nat \<Rightarrow> SequencerConfig \<Rightarrow> VslotSet \<Rightarrow> bool" where
  "config_wf usize_max cfg vslots \<longleftrightarrow>
     vs_set (sc_shadow_vslots cfg) \<subseteq> vs_set vslots \<and>
     (vs_set (sc_shadow_vslots cfg) \<noteq> {} \<longrightarrow> sc_extra_lanes cfg \<noteq> []) \<and>
     (\<forall>l \<in> set (cfg_lanes cfg). unat l < LANE_COUNT) \<and> cfg_lane cfg \<notin> set (sc_extra_lanes cfg) \<and>
     cfg_tx_ttl cfg \<le> shadow_warm cfg \<and>
     (\<exists>t. rcfg_enter_threshold (sc_resync cfg) = Inr t \<and> 0 < t) \<and> unat (rcfg_dedup_capacity (sc_resync cfg)) \<le> usize_max"

lemma rcfg_enter_threshold_Inr:
  "rcfg_enter_threshold cfg = Inr t \<longleftrightarrow>
     unat (rcfg_dedup_capacity cfg) * unat (rcfg_enter_percent cfg) < 2 ^ 64 \<and> 0 < t \<and>
     t = rcfg_dedup_capacity cfg * rcfg_enter_percent cfg div 100"
  by (auto simp: rcfg_enter_threshold_def checked_mul_def word_gt_0)

lemma validate_lanes_ok:
  "validate_lanes cfg = Inr u \<Longrightarrow> (\<forall>l \<in> set (cfg_lanes cfg). unat l < LANE_COUNT) \<and> cfg_lane cfg \<notin> set (sc_extra_lanes cfg)"
  by (auto simp: validate_lanes_def find_None_iff word_le_nat_alt cfg_lanes_def split: option.splits if_splits)

text \<open>The types of the source keep a set well formed; here that is an assumption.\<close>

definition config_sets_inv :: "SequencerConfig \<Rightarrow> bool" where
  "config_sets_inv cfg \<longleftrightarrow>
     vs_inv (sc_shadow_vslots cfg) \<and> (case sc_vslots cfg of None \<Rightarrow> True | Some s \<Rightarrow> vs_inv s)"

lemma vslot_set_inv: "vs_inv (vslot_set m lane)"
  by (simp add: vslot_set_def fold_vs_insert)

lemma cfg_vslot_set_inv:
  "config_sets_inv cfg \<Longrightarrow> cfg_vslot_set cfg = Inr vslots \<Longrightarrow> vs_inv vslots"
  by (auto simp: config_sets_inv_def cfg_vslot_set_def vslot_set_inv split: option.splits sum.splits)

lemma unat_le_max_64: "unat (w :: u64) \<le> 18446744073709551615"
proof -
  have "unat w < 2 ^ LENGTH(64)" by (rule unat_bound)
  then have "unat w < 18446744073709551616" by (simp del: unsigned_less)
  then show ?thesis by linarith
qed

lemma warm_covers_ttl:
  "validate_shadow cfg = Inr u \<Longrightarrow> cfg_tx_ttl cfg \<le> shadow_warm cfg"
  by (auto simp: validate_shadow_def cfg_tx_ttl_def shadow_warm_def from_millis_def word_less_nat_alt
      unat_saturating_add min_def unat_le_max_64 split: sum.splits option.splits if_splits)

lemma validate_shadow_ok:
  assumes "config_sets_inv cfg" and "validate_shadow cfg = Inr u"
  obtains vslots where "cfg_vslot_set cfg = Inr vslots"
    and "vs_set (sc_shadow_vslots cfg) \<subseteq> vs_set vslots"
    and "vs_set (sc_shadow_vslots cfg) \<noteq> {} \<longrightarrow> sc_extra_lanes cfg \<noteq> []"
proof -
  obtain vslots where v: "cfg_vslot_set cfg = Inr vslots"
    using assms(2) by (cases "cfg_vslot_set cfg") (auto simp: validate_shadow_def)
  with assms have "vs_is_subset_of (sc_shadow_vslots cfg) vslots"
    and "\<not> vs_is_empty (sc_shadow_vslots cfg) \<longrightarrow> sc_extra_lanes cfg \<noteq> []"
    by (auto simp: validate_shadow_def split: if_splits)
  moreover have "vs_inv vslots" and "vs_inv (sc_shadow_vslots cfg)"
    using cfg_vslot_set_inv [OF assms(1) v] assms(1) by (auto simp: config_sets_inv_def)
  ultimately show thesis
    using that v by (auto simp: vs_is_subset_of_iff vs_is_empty_iff)
qed

text \<open>
  C33.  A configuration that passes \<open>validate\<close> has a served slot set, and it is well typed for the
  loop: the shadow slots lie inside the served ones and need an old lane, every lane that is read is a
  lane of the plane and the own lane is not read twice, the warm-up covers a transaction lifetime, and
  the lag threshold of the resync is positive.
\<close>

theorem validated_config_wf:
  assumes "config_sets_inv cfg" and "cfg_validate usize_max cfg = Inr ()"
  shows "\<exists>vslots. cfg_vslot_set cfg = Inr vslots \<and> vs_inv vslots \<and> config_wf usize_max cfg vslots"
proof -
  from assms(2) have lanes: "validate_lanes cfg = Inr ()" and shadow: "validate_shadow cfg = Inr ()"
    and rs: "rcfg_validate usize_max (sc_resync cfg) = Inr ()"
    by (auto simp: cfg_validate_def split: sum.splits)
  obtain vslots where v: "cfg_vslot_set cfg = Inr vslots"
    and w: "vs_set (sc_shadow_vslots cfg) \<subseteq> vs_set vslots"
           "vs_set (sc_shadow_vslots cfg) \<noteq> {} \<longrightarrow> sc_extra_lanes cfg \<noteq> []"
    by (rule validate_shadow_ok [OF assms(1) shadow])
  obtain t where t: "rcfg_enter_threshold (sc_resync cfg) = Inr t"
    and cap: "unat (rcfg_dedup_capacity (sc_resync cfg)) \<le> usize_max"
    using rs by (auto simp: rcfg_validate_def split: sum.splits if_splits)
  have "config_wf usize_max cfg vslots"
    unfolding config_wf_def
    using w validate_lanes_ok [OF lanes] warm_covers_ttl [OF shadow] t cap
      rcfg_enter_threshold_Inr [of "sc_resync cfg" t] by blast
  with v cfg_vslot_set_inv [OF assms(1) v] show ?thesis by blast
qed

lemma ucast_u8_u32:
  fixes n :: u32
  assumes "n < 256"
  shows "ucast (ucast n :: u8) = n"
proof (rule word_unat_eq_iff [THEN iffD2])
  have "unat n < 256" using assms by (simp add: word_less_nat_alt)
  then show "unat (ucast (ucast n :: u8) :: u32) = unat n" by (simp add: unsigned_ucast_eq unsigned_take_bit_eq take_bit_nat_eq_self)
qed

definition resize_config :: SequencerConfig where
  "resize_config = SequencerConfig_default\<lparr>sc_partition_count := 3, sc_partition_index := 2, sc_sequencer_id := 2,
     sc_lane := Some 2, sc_vslots := Some (fold vs_insert [2, 5, 8] VslotSet_EMPTY), sc_extra_lanes := [0, 1],
     sc_shadow_vslots := fold vs_insert [2, 5] VslotSet_EMPTY\<rparr>"

lemma resize_config_valid:
  "config_sets_inv resize_config" "cfg_validate (2 ^ 64 - 1) resize_config = Inr ()"
proof -
  show "config_sets_inv resize_config"
    by (simp add: config_sets_inv_def resize_config_def SequencerConfig_default_def fold_vs_insert)
  have shadow: "vs_is_subset_of (fold vs_insert [2, 5] VslotSet_EMPTY) (fold vs_insert [2, 5, 8] VslotSet_EMPTY)"
    by (subst vs_is_subset_of_iff) (auto simp: vs_set_insert vs_set_EMPTY)
  show "cfg_validate (2 ^ 64 - 1) resize_config = Inr ()"
    using shadow
    by (simp add: cfg_validate_def validate_identity_layout_def validate_lanes_def validate_shadow_def
        cfg_vslot_set_def cfg_lanes_def cfg_lane_def resize_config_def SequencerConfig_default_def
        rcfg_validate_def rcfg_enter_threshold_def ResyncConfig_default_def checked_mul_def
        DEFAULT_DEDUP_CAPACITY_def DEFAULT_ENTER_PERCENT_def word_le_nat_alt word_unat_eq_iff unat_word_ariths unat_div_distrib)
qed

theorem validated_config_wf_witness:
  "\<exists>vslots. cfg_vslot_set resize_config = Inr vslots \<and> vs_inv vslots \<and> config_wf (2 ^ 64 - 1) resize_config vslots"
  by (rule validated_config_wf [OF resize_config_valid])

text \<open>
   A second replica group is started with offset 1.  Whenever there is more than one partition and
  the index is one of them, the rotation succeeds, the process serves another partition than before
  and its identifier follows the partition.
\<close>

theorem rotation_moves_shard:
  assumes "1 < sc_partition_count cfg" and "sc_partition_index cfg < sc_partition_count cfg"
    and "sc_partition_count cfg \<le> 256"
  shows "\<exists>cfg'. rotate_partition 1 cfg = (Inr (), cfg') \<and> sc_partition_index cfg' < sc_partition_count cfg \<and>
    sc_partition_index cfg' \<noteq> sc_partition_index cfg \<and> ucast (sc_sequencer_id cfg') = sc_partition_index cfg'"
proof -
  define m where "m = unat (sc_partition_count cfg)"
  define i where "i = unat (sc_partition_index cfg)"
  have m: "1 < m" "i < m" "m \<le> 256"
    using assms by (simp_all add: m_def i_def word_less_nat_alt word_le_nat_alt)
  have un: "unat (sc_partition_index cfg + 1) = i + 1"
    using m by (simp add: i_def unat_word_ariths)
  have idx: "unat ((sc_partition_index cfg + 1) mod sc_partition_count cfg) = (i + 1) mod m"
    using un by (simp add: unat_mod m_def)
  have "(i + 1) mod m < m" and "(i + 1) mod m \<noteq> i" using m by (auto simp: mod_Suc)
  then have "unat ((sc_partition_index cfg + 1) mod sc_partition_count cfg) < m"
    and ne: "(sc_partition_index cfg + 1) mod sc_partition_count cfg \<noteq> sc_partition_index cfg"
    and lt: "(sc_partition_index cfg + 1) mod sc_partition_count cfg < sc_partition_count cfg"
    using idx by (auto simp: i_def m_def word_less_nat_alt)
  then have small: "(sc_partition_index cfg + 1) mod sc_partition_count cfg < 256"
    using m(3) by (simp add: word_less_nat_alt)
  have add: "checked_add (sc_partition_index cfg) 1 = Some (sc_partition_index cfg + 1)"
    using m by (simp add: checked_add_def i_def [symmetric])
  show ?thesis
    using ne lt small ucast_u8_u32 [OF small]
    by (simp add: rotate_partition_def add u8_try_from_def Let_def)
qed

theorem rotation_moves_shard_witness:
  "\<exists>cfg'. rotate_partition 1 (SequencerConfig_default\<lparr>sc_partition_index := 7\<rparr>) = (Inr (), cfg') \<and>
     sc_partition_index cfg' < sc_partition_count (SequencerConfig_default\<lparr>sc_partition_index := 7\<rparr>) \<and>
     sc_partition_index cfg' \<noteq> sc_partition_index (SequencerConfig_default\<lparr>sc_partition_index := 7\<rparr>) \<and>
     ucast (sc_sequencer_id cfg') = sc_partition_index cfg'"
  by (rule rotation_moves_shard) (simp_all add: SequencerConfig_default_def)

end
