(* ===== verification/Side_Channels.thy ===== *)
theory Side_Channels
  imports Fees Receipt
begin

text \<open>
  What the sequencer tells the other parts about a transaction: the drop record and its reason
  (\<open>crates/types/src/tx_drop.rs\<close>), the status record and its stage (\<open>tx_status.rs\<close>) and the word of a
  rejection (\<open>tx_error.rs\<close>).  The archived byte layout of the records is not modelled.
\<close>

datatype DropReason =
    DropNonceTooLow
  | DropInsufficientFunds
  | DropReplacementUnderpriced
  | DropTxpoolFull
  | DropFeeCapBelowBaseFee
  | DropExpired
  | DropTipAboveFeeCap
  | DropSealerRefusedReference

record TxDrop =
  td_tx_hash :: b256
  td_sender :: address
  td_nonce :: u64
  td_reason :: DropReason

fun drop_text :: "DropReason \<Rightarrow> string" where
  "drop_text DropNonceTooLow = ''nonce too low''"
| "drop_text DropInsufficientFunds = ''insufficient funds for gas * price + value''"
| "drop_text DropReplacementUnderpriced = ''replacement transaction underpriced''"
| "drop_text DropTxpoolFull = ''txpool is full''"
| "drop_text DropFeeCapBelowBaseFee = ''max fee per gas less than block base fee''"
| "drop_text DropExpired = ''transaction expired''"
| "drop_text DropTipAboveFeeCap = ''max priority fee per gas higher than max fee per gas''"
| "drop_text DropSealerRefusedReference = ''transaction dropped by the sealer, send it again''"

fun drop_label :: "DropReason \<Rightarrow> string" where
  "drop_label DropNonceTooLow = ''nonce_too_low''"
| "drop_label DropInsufficientFunds = ''insufficient_funds''"
| "drop_label DropReplacementUnderpriced = ''replacement_underpriced''"
| "drop_label DropTxpoolFull = ''txpool_full''"
| "drop_label DropFeeCapBelowBaseFee = ''fee_cap_below_base_fee''"
| "drop_label DropExpired = ''expired''"
| "drop_label DropTipAboveFeeCap = ''tip_above_fee_cap''"
| "drop_label DropSealerRefusedReference = ''sealer_refused_reference''"

fun drop_reason :: "TxErrorReason \<Rightarrow> DropReason" where
  "drop_reason (DuplicatedTx _) = DropNonceTooLow"
| "drop_reason (SealerNonceAhead _ _) = DropNonceTooLow"
| "drop_reason (AlreadyKnown _) = DropReplacementUnderpriced"
| "drop_reason (NonceInFlight _) = DropReplacementUnderpriced"
| "drop_reason (Evicted _) = DropTxpoolFull"
| "drop_reason (DaLag _ _ _) = DropTxpoolFull"
| "drop_reason (RecordLag _ _ _) = DropTxpoolFull"
| "drop_reason (Expired _) = DropExpired"
| "drop_reason (PastDeadline _ _) = DropExpired"
| "drop_reason (FeeInvalid _ _) = DropTipAboveFeeCap"
| "drop_reason (FeeTooLow _ _) = DropFeeCapBelowBaseFee"
| "drop_reason (InsufficientFunds _ _) = DropInsufficientFunds"

fun reason_word :: "TxErrorReason \<Rightarrow> string" where
  "reason_word (DuplicatedTx _) = ''duplicated-tx''"
| "reason_word (Evicted _) = ''evicted''"
| "reason_word (Expired _) = ''expired''"
| "reason_word (PastDeadline _ _) = ''past-deadline''"
| "reason_word (FeeInvalid _ _) = ''fee-invalid''"
| "reason_word (FeeTooLow _ _) = ''fee-too-low''"
| "reason_word (InsufficientFunds _ _) = ''insufficient-funds''"
| "reason_word (DaLag _ _ _) = ''da-lag''"
| "reason_word (RecordLag _ _ _) = ''record-lag''"
| "reason_word (SealerNonceAhead _ _) = ''sealer-nonce-ahead''"
| "reason_word (NonceInFlight _) = ''nonce-in-flight''"
| "reason_word (AlreadyKnown _) = ''already-known''"

datatype TxStage =
    StageOffered address u64
  | StageSealed
  | StageExecuted address u64 bool
  | StageRejected address u64 TxErrorReason
  | StageAccepted address u64

record TxStatus =
  ts_tx_hash :: b256
  ts_stage :: TxStage

datatype TxStageKind = KAccepted | KOffered | KSealed | KExecuted | KRejected

definition TxStageKind_ALL :: "TxStageKind list" where
  "TxStageKind_ALL = [KAccepted, KOffered, KSealed, KExecuted, KRejected]"

fun kind_str :: "TxStageKind \<Rightarrow> string" where
  "kind_str KOffered = ''offered''"
| "kind_str KSealed = ''sealed''"
| "kind_str KExecuted = ''executed''"
| "kind_str KRejected = ''rejected''"
| "kind_str KAccepted = ''accepted''"

fun kind_bit :: "TxStageKind \<Rightarrow> u8" where
  "kind_bit KOffered = 1"
| "kind_bit KSealed = 2"
| "kind_bit KExecuted = 4"
| "kind_bit KRejected = 8"
| "kind_bit KAccepted = 16"

fun stage_kind :: "TxStage \<Rightarrow> TxStageKind" where
  "stage_kind (StageOffered _ _) = KOffered"
| "stage_kind StageSealed = KSealed"
| "stage_kind (StageExecuted _ _ _) = KExecuted"
| "stage_kind (StageRejected _ _ _) = KRejected"
| "stage_kind (StageAccepted _ _) = KAccepted"

fun stage_identity :: "TxStage \<Rightarrow> (address \<times> u64) option" where
  "stage_identity (StageOffered sender nonce) = Some (sender, nonce)"
| "stage_identity (StageExecuted sender nonce _) = Some (sender, nonce)"
| "stage_identity (StageRejected sender nonce _) = Some (sender, nonce)"
| "stage_identity (StageAccepted sender nonce) = Some (sender, nonce)"
| "stage_identity StageSealed = None"

definition ts_offered :: "b256 \<Rightarrow> address \<Rightarrow> u64 \<Rightarrow> TxStatus" where
  "ts_offered tx_hash sender nonce = \<lparr>ts_tx_hash = tx_hash, ts_stage = StageOffered sender nonce\<rparr>"

definition ts_sealed :: "b256 \<Rightarrow> TxStatus" where
  "ts_sealed tx_hash = \<lparr>ts_tx_hash = tx_hash, ts_stage = StageSealed\<rparr>"

definition ts_executed :: "Receipt \<Rightarrow> TxStatus" where
  "ts_executed r = \<lparr>ts_tx_hash = rc_tx_hash r, ts_stage = StageExecuted (rc_from r) (rc_nonce r) (rc_status r)\<rparr>"

definition ts_rejected :: "b256 \<Rightarrow> TxError \<Rightarrow> TxStatus" where
  "ts_rejected tx_hash e =
     \<lparr>ts_tx_hash = tx_hash, ts_stage = StageRejected (te_sender e) (te_nonce e) (te_reason e)\<rparr>"

definition ts_accepted :: "b256 \<Rightarrow> address \<Rightarrow> u64 \<Rightarrow> TxStatus" where
  "ts_accepted tx_hash sender nonce = \<lparr>ts_tx_hash = tx_hash, ts_stage = StageAccepted sender nonce\<rparr>"

end
