(* ===== verification/Tx_Decode.thy ===== *)
theory Tx_Decode
  imports Byte_Words Fees Epoch_Pump
begin

text \<open>
  \<open>crates/sequencer/src/tx_decode.rs\<close>: the fields that the sequencer reads from a raw
  transaction, taken from the RLP bytes without a full decode.  The full decode of the alloy
  library is the parameter \<open>full\<close>.  A position is a natural number; the one sum that the code
  checks for overflow is checked here at the 64 bits of a \<open>usize\<close>.
\<close>

record TxFields =
  txf_nonce :: u64
  txf_fees :: FeeFields

datatype Layout = Legacy | AccessList | DynamicFee

record Cursor =
  cur_b :: "u8 list"
  cur_i :: nat

definition get_at :: "u8 list \<Rightarrow> nat \<Rightarrow> u8 option" where
  "get_at b i = (if i < length b then Some (b ! i) else None)"

definition get_range :: "u8 list \<Rightarrow> nat \<Rightarrow> nat \<Rightarrow> u8 list option" where
  "get_range b i j = (if i \<le> j \<and> j \<le> length b then Some (take (j - i) (drop i b)) else None)"

definition enter_list :: "Cursor \<Rightarrow> Cursor option" where
  "enter_list c =
     (case get_at (cur_b c) (cur_i c) of
        None \<Rightarrow> None
      | Some first \<Rightarrow>
          if 0xf8 \<le> first then Some (c\<lparr>cur_i := cur_i c + 1 + unat (first - 0xf7)\<rparr>)
          else if first < 0xc0 then None
          else Some (c\<lparr>cur_i := cur_i c + 1\<rparr>))"

definition cur_uint :: "nat \<Rightarrow> Cursor \<Rightarrow> (u256 \<times> Cursor) option" where
  "cur_uint max_len c =
     (case get_at (cur_b c) (cur_i c) of
        None \<Rightarrow> None
      | Some p \<Rightarrow>
          if p < 0x80 then Some (ucast p, c\<lparr>cur_i := cur_i c + 1\<rparr>)
          else
            let l = unat (p - 0x80)
            in if min max_len 55 < l then None
               else case get_range (cur_b c) (cur_i c + 1) (cur_i c + 1 + l) of
                   None \<Rightarrow> None
                 | Some bytes \<Rightarrow>
                     if bytes \<noteq> [] \<and> hd bytes = 0 then None
                     else Some (from_be bytes, c\<lparr>cur_i := cur_i c + 1 + l\<rparr>))"

definition be_len :: "u8 list \<Rightarrow> u64" where
  "be_len bytes = fold (\<lambda>x l. or (push_bit 8 l) (ucast x)) bytes 0"

definition skip_long :: "nat \<Rightarrow> Cursor \<Rightarrow> Cursor option" where
  "skip_long ll c =
     (case get_range (cur_b c) (cur_i c + 1) (cur_i c + 1 + ll) of
        None \<Rightarrow> None
      | Some bytes \<Rightarrow>
          let i = cur_i c + 1 + ll + unat (be_len bytes)
          in if i < 2 ^ 64 then Some (c\<lparr>cur_i := i\<rparr>) else None)"

definition skip_item :: "Cursor \<Rightarrow> Cursor option" where
  "skip_item c =
     (case get_at (cur_b c) (cur_i c) of
        None \<Rightarrow> None
      | Some p \<Rightarrow>
          if p \<le> 0x7f then Some (c\<lparr>cur_i := cur_i c + 1\<rparr>)
          else if p \<le> 0xb7 then Some (c\<lparr>cur_i := cur_i c + 1 + unat (p - 0x80)\<rparr>)
          else if p \<le> 0xbf then skip_long (unat (p - 0xb7)) c
          else if p \<le> 0xf7 then Some (c\<lparr>cur_i := cur_i c + 1 + unat (p - 0xc0)\<rparr>)
          else skip_long (unat (p - 0xf7)) c)"

text \<open>The fee prices in front of the gas limit: one price, or the tip and the cap.\<close>

definition peek_prices :: "Layout \<Rightarrow> Cursor \<Rightarrow> ((u128 \<times> u128) \<times> Cursor) option" where
  "peek_prices layout c =
     (case layout of
        DynamicFee \<Rightarrow>
          (case cur_uint 16 c of
             None \<Rightarrow> None
           | Some (priority, c) \<Rightarrow>
               (case cur_uint 16 c of
                  None \<Rightarrow> None
                | Some (fee, c) \<Rightarrow> Some ((ucast priority, ucast fee), c)))
      | _ \<Rightarrow>
          (case cur_uint 16 c of
             None \<Rightarrow> None
           | Some (price, c) \<Rightarrow> Some ((ucast price, ucast price), c)))"

definition peek_layout :: "u8 list \<Rightarrow> (nat \<times> Layout) option" where
  "peek_layout b =
     (case get_at b 0 of
        None \<Rightarrow> None
      | Some f \<Rightarrow>
          if f = 0x01 then Some (1, AccessList)
          else if f = 0x02 \<or> f = 0x03 then Some (1, DynamicFee)
          else if 0xc0 \<le> f then Some (0, Legacy)
          else None)"

definition peek_fields :: "u8 list \<Rightarrow> TxFields option" where
  "peek_fields b =
     (case peek_layout b of None \<Rightarrow> None | Some (start, layout) \<Rightarrow>
      case enter_list \<lparr>cur_b = b, cur_i = start\<rparr> of None \<Rightarrow> None | Some c \<Rightarrow>
      case (if layout \<noteq> Legacy then skip_item c else Some c) of None \<Rightarrow> None | Some c \<Rightarrow>
      case cur_uint 8 c of None \<Rightarrow> None | Some (nonce, c) \<Rightarrow>
      case peek_prices layout c of None \<Rightarrow> None | Some ((priority, fee), c) \<Rightarrow>
      case cur_uint 8 c of None \<Rightarrow> None | Some (gas_limit, c) \<Rightarrow>
      case skip_item c of None \<Rightarrow> None | Some c \<Rightarrow>
      case cur_uint 32 c of None \<Rightarrow> None | Some (amount, _) \<Rightarrow>
        Some \<lparr>txf_nonce = ucast nonce,
              txf_fees = \<lparr>ff_fees = \<lparr>tf_gas_limit = ucast gas_limit, tf_max_fee_per_gas = fee,
                            tf_max_priority_fee_per_gas = priority, tf_legacy = (layout \<noteq> DynamicFee)\<rparr>,
                          ff_value = amount\<rparr>\<rparr>)"

definition decode_fields :: "(u8 list \<Rightarrow> string + TxFields) \<Rightarrow> u8 list \<Rightarrow> SequencerError + TxFields" where
  "decode_fields full raw_tx =
     (case peek_fields raw_tx of
        Some found \<Rightarrow> Inr found
      | None \<Rightarrow> (case full raw_tx of Inl e \<Rightarrow> Inl (MalformedFrame e) | Inr found \<Rightarrow> Inr found))"

section \<open>The reference encoding\<close>

text \<open>
  RLP as the Yellow Paper defines it: a byte string, an integer as its shortest big-endian byte
  string, and a list; and the field order of the transaction types.
\<close>

definition be_min :: "'a::len word \<Rightarrow> u8 list" where
  "be_min w = dropWhile (\<lambda>b. b = 0) (be_bytes (LENGTH('a) div 8) w)"

definition rlp_string :: "u8 list \<Rightarrow> u8 list" where
  "rlp_string bs =
     (if length bs = 1 \<and> hd bs < 0x80 then bs
      else if length bs \<le> 55 then (0x80 + of_nat (length bs)) # bs
      else let lb = be_min (of_nat (length bs) :: u64) in (0xb7 + of_nat (length lb)) # lb @ bs)"

definition rlp_uint :: "'a::len word \<Rightarrow> u8 list" where
  "rlp_uint w = rlp_string (be_min w)"

definition rlp_list :: "u8 list \<Rightarrow> u8 list" where
  "rlp_list payload =
     (if length payload \<le> 55 then (0xc0 + of_nat (length payload)) # payload
      else let lb = be_min (of_nat (length payload) :: u64) in (0xf7 + of_nat (length lb)) # lb @ payload)"

record SignedTx =
  stx_layout :: Layout
  stx_blob :: bool
  stx_chain_id :: u64
  stx_nonce :: u64
  stx_priority :: u128
  stx_max_fee :: u128
  stx_gas_limit :: u64
  stx_to :: "u8 list"
  stx_value :: u256
  stx_tail :: "u8 list"

definition stx_prices :: "SignedTx \<Rightarrow> u8 list" where
  "stx_prices t =
     (case stx_layout t of
        DynamicFee \<Rightarrow> rlp_uint (stx_priority t) @ rlp_uint (stx_max_fee t)
      | _ \<Rightarrow> rlp_uint (stx_max_fee t))"

definition stx_payload :: "SignedTx \<Rightarrow> u8 list" where
  "stx_payload t =
     (case stx_layout t of Legacy \<Rightarrow> [] | _ \<Rightarrow> rlp_uint (stx_chain_id t)) @
     rlp_uint (stx_nonce t) @ stx_prices t @ rlp_uint (stx_gas_limit t) @ rlp_string (stx_to t) @
     rlp_uint (stx_value t) @ stx_tail t"

definition stx_encode :: "SignedTx \<Rightarrow> u8 list" where
  "stx_encode t =
     (case stx_layout t of Legacy \<Rightarrow> [] | AccessList \<Rightarrow> [0x01] | DynamicFee \<Rightarrow> [if stx_blob t then 0x03 else 0x02]) @
     rlp_list (stx_payload t)"

definition stx_fields :: "SignedTx \<Rightarrow> TxFields" where
  "stx_fields t =
     \<lparr>txf_nonce = stx_nonce t,
      txf_fees = \<lparr>ff_fees = \<lparr>tf_gas_limit = stx_gas_limit t, tf_max_fee_per_gas = stx_max_fee t,
                    tf_max_priority_fee_per_gas =
                      (if stx_layout t = DynamicFee then stx_priority t else stx_max_fee t),
                    tf_legacy = (stx_layout t \<noteq> DynamicFee)\<rparr>,
                  ff_value = stx_value t\<rparr>\<rparr>"

section \<open>Reading back what was written\<close>

lemma from_be_zero: "from_be (0 # bs) = from_be bs"
  by (simp add: from_be_def)

lemma from_be_dropWhile: "from_be (dropWhile (\<lambda>b. b = 0) bs) = from_be bs"
  by (induction bs) (simp_all add: from_be_zero)

lemma from_be_be_bytes_ucast:
  assumes "LENGTH('a::len) \<le> 8 * n"
  shows "(from_be (be_bytes n (w :: 'a word)) :: 'b::len word) = ucast w"
proof (rule bit_word_eqI)
  fix m
  assume "m < LENGTH('b)"
  then show "bit (from_be (be_bytes n w) :: 'b word) m \<longleftrightarrow> bit (ucast w :: 'b word) m"
  proof (cases "m < 8 * n")
    case True
    then have m: "m div 8 < n" by auto
    have "8 * (n - Suc (n - 1 - m div 8)) + m mod 8 = m" using m by simp
    then show ?thesis using True m \<open>m < LENGTH('b)\<close> by (simp add: bit_from_be be_bytes_def bit_simps)
  next
    case False
    then show ?thesis using assms by (auto simp: bit_from_be bit_simps dest: bit_imp_le_length)
  qed
qed

lemma from_be_min: "LENGTH('a::len) mod 8 = 0 \<Longrightarrow> (from_be (be_min (w :: 'a word)) :: 'b::len word) = ucast w"
  by (simp add: be_min_def from_be_dropWhile from_be_be_bytes_ucast mult_div_mod_eq [symmetric] minus_mod_eq_mult_div [symmetric])

lemma length_be_min: "length (be_min (w :: 'a::len word)) \<le> LENGTH('a) div 8"
  unfolding be_min_def by (rule order.trans [OF length_dropWhile_le]) simp

lemma hd_be_min: "be_min w \<noteq> [] \<Longrightarrow> hd (be_min w) \<noteq> 0"
  unfolding be_min_def by (metis (mono_tags, lifting) hd_dropWhile)

lemma get_at_append [simp]: "get_at (pre @ x # rest) (length pre) = Some x"
  by (simp add: get_at_def)

lemma get_range_append [simp]:
  "get_range (pre @ x # xs @ rest) (length pre + 1) (length pre + 1 + length xs) = Some xs"
  by (simp add: get_range_def)

lemma unat_prefix:
  assumes "l \<le> 55"
  shows "unat (0x80 + of_nat l - 0x80 :: u8) = l" "\<not> (0x80 + of_nat l :: u8) < 0x80" "(0x80 + of_nat l :: u8) \<le> 0xb7"
    "\<not> (0x80 + of_nat l :: u8) \<le> 0x7f"
proof -
  have u: "unat (0x80 + of_nat l :: u8) = 128 + l" using assms by (simp add: unat_word_ariths unsigned_of_nat take_bit_eq_mod)
  then show "\<not> (0x80 + of_nat l :: u8) < 0x80" "(0x80 + of_nat l :: u8) \<le> 0xb7" "\<not> (0x80 + of_nat l :: u8) \<le> 0x7f"
    using assms by (simp_all add: word_less_nat_alt word_le_nat_alt)
  show "unat (0x80 + of_nat l - 0x80 :: u8) = l" using assms by (simp add: unsigned_of_nat take_bit_eq_mod)
qed

lemma cur_uint_rlp:
  assumes "LENGTH('a::len) mod 8 = 0" and "LENGTH('a) div 8 \<le> max_len" and "max_len \<le> 55"
  shows "cur_uint max_len \<lparr>cur_b = pre @ rlp_uint (w :: 'a word) @ rest, cur_i = length pre\<rparr> =
    Some (ucast w, \<lparr>cur_b = pre @ rlp_uint w @ rest, cur_i = length pre + length (rlp_uint w)\<rparr>)"
proof -
  let ?bs = "be_min w"
  have len: "length ?bs \<le> max_len" using length_be_min [of w] assms(2) by simp
  have val: "(from_be ?bs :: u256) = ucast w" by (rule from_be_min [OF assms(1)])
  show ?thesis
  proof (cases "length ?bs = 1 \<and> hd ?bs < 0x80")
    case True
    then obtain b where b: "?bs = [b]" "b < 0x80" by (cases ?bs) auto
    then have "(ucast b :: u256) = ucast w" using val by (simp add: from_be_def)
    with b show ?thesis by (simp add: rlp_uint_def rlp_string_def cur_uint_def)
  next
    case False
    then have enc: "rlp_uint w = (0x80 + of_nat (length ?bs)) # ?bs"
      using len assms(3) by (auto simp: rlp_uint_def rlp_string_def)
    have l55: "length ?bs \<le> 55" using len assms(3) by simp
    show ?thesis unfolding enc
      using unat_prefix [OF l55] len l55 val hd_be_min [of w] get_range_append [of pre _ ?bs rest]
      by (auto simp: cur_uint_def Let_def)
  qed
qed

lemma skip_item_rlp:
  assumes "length bs \<le> 55"
  shows "skip_item \<lparr>cur_b = pre @ rlp_string bs @ rest, cur_i = length pre\<rparr> =
    Some \<lparr>cur_b = pre @ rlp_string bs @ rest, cur_i = length pre + length (rlp_string bs)\<rparr>"
proof (cases "length bs = 1 \<and> hd bs < 0x80")
  case True
  then obtain b where b: "bs = [b]" "b < 0x80" by (cases bs) auto
  then have "b \<le> 0x7f" by (simp add: word_less_nat_alt word_le_nat_alt)
  with b show ?thesis by (simp add: rlp_string_def skip_item_def)
next
  case False
  then have enc: "rlp_string bs = (0x80 + of_nat (length bs)) # bs" using assms by (auto simp: rlp_string_def)
  show ?thesis unfolding enc using unat_prefix [OF assms] by (simp add: skip_item_def)
qed

lemma be_min_nonempty:
  assumes "0 < n" and "n < 2 ^ 64"
  shows "be_min (of_nat n :: u64) \<noteq> []" and "length (be_min (of_nat n :: u64)) \<le> 8"
proof -
  show "length (be_min (of_nat n :: u64)) \<le> 8" using length_be_min [of "of_nat n :: u64"] by simp
  have "unat (of_nat n :: u64) = n" using assms(2) by (simp add: unsigned_of_nat take_bit_eq_mod)
  with assms(1) have "(of_nat n :: u64) \<noteq> 0" by force
  moreover have "(from_be (be_min (of_nat n :: u64)) :: u64) = of_nat n"
    using from_be_min [of "of_nat n :: u64", where 'b = 64] by simp
  ultimately show "be_min (of_nat n :: u64) \<noteq> []" by force
qed

lemma enter_list_rlp:
  assumes "length payload < 2 ^ 64"
  shows "\<exists>header. rlp_list payload = header @ payload \<and> header \<noteq> [] \<and> 0xc0 \<le> hd header \<and>
    enter_list \<lparr>cur_b = pre @ header @ payload, cur_i = length pre\<rparr> =
      Some \<lparr>cur_b = pre @ header @ payload, cur_i = length pre + length header\<rparr>"
proof (cases "length payload \<le> 55")
  case True
  let ?p = "0xc0 + of_nat (length payload) :: u8"
  have "unat ?p = 192 + length payload" using True by (simp add: unat_word_ariths unsigned_of_nat take_bit_eq_mod)
  then have "\<not> 0xf8 \<le> ?p" "0xc0 \<le> ?p" "\<not> ?p < 0xc0" using True by (simp_all add: word_less_nat_alt word_le_nat_alt)
  with True show ?thesis by (intro exI [of _ "[?p]"]) (simp add: rlp_list_def enter_list_def)
next
  case False
  let ?lb = "be_min (of_nat (length payload) :: u64)"
  let ?p = "0xf7 + of_nat (length ?lb) :: u8"
  have lb: "?lb \<noteq> []" "length ?lb \<le> 8" 
  proof -
    have "0 < length payload" using False by linarith
    from be_min_nonempty [OF this assms] show "?lb \<noteq> []" "length ?lb \<le> 8" by simp_all
  qed
  then have pos: "Suc 0 \<le> length ?lb" by (simp add: Suc_le_eq)
  have "unat ?p = 247 + length ?lb" using lb by (simp add: unat_word_ariths unsigned_of_nat take_bit_eq_mod)
  then have big: "0xf8 \<le> ?p" "0xc0 \<le> ?p" using pos by (simp_all only: word_le_nat_alt) (simp_all add: Suc_le_eq)
  have "unat (?p - 0xf7) = length ?lb" using lb(2) by (simp add: unsigned_of_nat take_bit_eq_mod)
  with big False show ?thesis
    by (intro exI [of _ "?p # ?lb"]) (simp add: rlp_list_def enter_list_def Let_def)
qed

lemma cur_uint_at:
  assumes "c = \<lparr>cur_b = pre @ rlp_uint (w :: 'a::len word) @ rest, cur_i = length pre\<rparr>"
    and "LENGTH('a) mod 8 = 0" and "LENGTH('a) div 8 \<le> max_len" and "max_len \<le> 55"
  shows "cur_uint max_len c = Some (ucast w, \<lparr>cur_b = (pre @ rlp_uint w) @ rest, cur_i = length (pre @ rlp_uint w)\<rparr>)"
  using cur_uint_rlp [OF assms(2-4), of pre w rest] assms(1) by simp

lemma skip_item_at:
  assumes "c = \<lparr>cur_b = pre @ rlp_string bs @ rest, cur_i = length pre\<rparr>" and "length bs \<le> 55"
  shows "skip_item c = Some \<lparr>cur_b = (pre @ rlp_string bs) @ rest, cur_i = length (pre @ rlp_string bs)\<rparr>"
  using skip_item_rlp [OF assms(2), of pre rest] assms(1) by simp

lemma ucast_back [simp]: "LENGTH('a) \<le> LENGTH('b) \<Longrightarrow> ucast (ucast (w :: 'a::len word) :: 'b::len word) = w"
  by (rule bit_word_eqI) (simp add: bit_simps)

lemma peek_prices_at:
  assumes "c = \<lparr>cur_b = pre @ stx_prices t @ rest, cur_i = length pre\<rparr>"
  shows "peek_prices (stx_layout t) c =
    Some ((if stx_layout t = DynamicFee then stx_priority t else stx_max_fee t, stx_max_fee t),
      \<lparr>cur_b = (pre @ stx_prices t) @ rest, cur_i = length (pre @ stx_prices t)\<rparr>)"
proof (cases "stx_layout t = DynamicFee")
  case True
  then have c: "c = \<lparr>cur_b = pre @ rlp_uint (stx_priority t) @ rlp_uint (stx_max_fee t) @ rest, cur_i = length pre\<rparr>"
    using assms by (simp add: stx_prices_def)
  have 1: "cur_uint 16 c = Some (ucast (stx_priority t),
      \<lparr>cur_b = (pre @ rlp_uint (stx_priority t)) @ rlp_uint (stx_max_fee t) @ rest,
       cur_i = length (pre @ rlp_uint (stx_priority t))\<rparr>)"
    by (rule cur_uint_at [OF c]) simp_all
  show ?thesis using cur_uint_at [OF refl, where pre = "pre @ rlp_uint (stx_priority t)" and w = "stx_max_fee t" and rest = rest and max_len = 16] True
    by (simp add: peek_prices_def 1 stx_prices_def)
next
  case False
  then have prices: "stx_prices t = rlp_uint (stx_max_fee t)" by (simp add: stx_prices_def split: Layout.splits)
  have "cur_uint 16 c = Some (ucast (stx_max_fee t),
      \<lparr>cur_b = (pre @ rlp_uint (stx_max_fee t)) @ rest, cur_i = length (pre @ rlp_uint (stx_max_fee t))\<rparr>)"
    by (rule cur_uint_at) (simp_all add: assms prices)
  with False show ?thesis by (simp add: peek_prices_def prices split: Layout.splits)
qed

text \<open>The start of an encoded transaction: the cursor stands at the nonce.\<close>

lemma peek_start:
  assumes "length (stx_payload t) < 2 ^ 64"
  obtains start c pre where "peek_layout (stx_encode t) = Some (start, stx_layout t)"
    and "enter_list \<lparr>cur_b = stx_encode t, cur_i = start\<rparr> = Some c"
    and "(if stx_layout t \<noteq> Legacy then skip_item c else Some c) =
      Some \<lparr>cur_b = pre @ rlp_uint (stx_nonce t) @ stx_prices t @ rlp_uint (stx_gas_limit t) @
          rlp_string (stx_to t) @ rlp_uint (stx_value t) @ stx_tail t, cur_i = length pre\<rparr>"
proof -
  let ?type = "case stx_layout t of Legacy \<Rightarrow> [] | AccessList \<Rightarrow> [0x01] | DynamicFee \<Rightarrow> [if stx_blob t then 0x03 else 0x02 :: u8]"
  let ?rest = "rlp_uint (stx_nonce t) @ stx_prices t @ rlp_uint (stx_gas_limit t) @
          rlp_string (stx_to t) @ rlp_uint (stx_value t) @ stx_tail t"
  obtain header where h: "rlp_list (stx_payload t) = header @ stx_payload t" "header \<noteq> []" "0xc0 \<le> hd header"
    "enter_list \<lparr>cur_b = ?type @ header @ stx_payload t, cur_i = length ?type\<rparr> =
      Some \<lparr>cur_b = ?type @ header @ stx_payload t, cur_i = length ?type + length header\<rparr>"
    using enter_list_rlp [OF assms, of ?type] by blast
  have enc: "stx_encode t = ?type @ header @ stx_payload t" by (simp only: stx_encode_def h(1))
  have lay: "peek_layout (stx_encode t) = Some (length ?type, stx_layout t)"
  proof (cases "stx_layout t")
    case Legacy
    obtain p ps where p: "header = p # ps" using h(2) by (cases header) auto
    then have "p \<noteq> 1" "p \<noteq> 2" "p \<noteq> 3" "0xc0 \<le> p" using h(3) by (auto simp: word_le_nat_alt)
    with Legacy p show ?thesis by (simp add: enc peek_layout_def get_at_def)
  qed (simp_all add: enc peek_layout_def get_at_def)
  show thesis
  proof (cases "stx_layout t = Legacy")
    case True
    show thesis by (rule that [OF lay, of _ "?type @ header"])
      (use True h(4) in \<open>simp_all add: enc stx_payload_def\<close>)
  next
    case False
    then have pay: "stx_payload t = rlp_string (be_min (stx_chain_id t)) @ ?rest"
      by (simp add: stx_payload_def rlp_uint_def split: Layout.splits)
    have "length (be_min (stx_chain_id t)) \<le> 55" using length_be_min [of "stx_chain_id t"] by simp
    from skip_item_at [OF refl this, of "?type @ header" ?rest] False h(4) show thesis
      by (intro that [OF lay, of _ "?type @ header @ rlp_string (be_min (stx_chain_id t))"])
        (simp_all add: enc pay)
  qed
qed

text \<open>
  C32. The field reader is exact on every well-formed transaction.  For each transaction type, with
  every nonce, price, gas limit and value of their widths, a recipient of at most 55 bytes and any
  bytes after the value, reading the RLP encoding gives back the fields of the transaction,
  without the full decode.
\<close>

theorem peek_fields_round_trip:
  assumes "length (stx_to t) \<le> 55" and "length (stx_payload t) < 2 ^ 64"
  shows "decode_fields full (stx_encode t) = Inr (stx_fields t)"
proof -
  obtain start c pre where start: "peek_layout (stx_encode t) = Some (start, stx_layout t)"
    "enter_list \<lparr>cur_b = stx_encode t, cur_i = start\<rparr> = Some c"
    "(if stx_layout t \<noteq> Legacy then skip_item c else Some c) =
      Some \<lparr>cur_b = pre @ rlp_uint (stx_nonce t) @ stx_prices t @ rlp_uint (stx_gas_limit t) @
          rlp_string (stx_to t) @ rlp_uint (stx_value t) @ stx_tail t, cur_i = length pre\<rparr>"
    by (rule peek_start [OF assms(2)])
  let ?p1 = "pre @ rlp_uint (stx_nonce t)"
  let ?p2 = "?p1 @ stx_prices t"
  let ?p3 = "?p2 @ rlp_uint (stx_gas_limit t)"
  let ?p4 = "?p3 @ rlp_string (stx_to t)"
  note nonce = cur_uint_at [OF refl, where pre = pre and w = "stx_nonce t" and max_len = 8 and rest =
      "stx_prices t @ rlp_uint (stx_gas_limit t) @ rlp_string (stx_to t) @ rlp_uint (stx_value t) @ stx_tail t"]
  note prices = peek_prices_at [OF refl, where pre = ?p1 and t = t and rest =
      "rlp_uint (stx_gas_limit t) @ rlp_string (stx_to t) @ rlp_uint (stx_value t) @ stx_tail t"]
  note gas = cur_uint_at [OF refl, where pre = ?p2 and w = "stx_gas_limit t" and max_len = 8 and
      rest = "rlp_string (stx_to t) @ rlp_uint (stx_value t) @ stx_tail t"]
  note to = skip_item_at [OF refl assms(1), where pre = ?p3 and rest = "rlp_uint (stx_value t) @ stx_tail t"]
  note amount = cur_uint_at [OF refl, where pre = ?p4 and w = "stx_value t" and rest = "stx_tail t" and max_len = 32]
  have "peek_fields (stx_encode t) = Some (stx_fields t)"
    using nonce prices gas to amount unfolding peek_fields_def start option.case prod.case
    by (simp add: stx_fields_def)
  then show ?thesis by (simp add: decode_fields_def)
qed

definition small_tx :: SignedTx where
  "small_tx = \<lparr>stx_layout = DynamicFee, stx_blob = False, stx_chain_id = 412346, stx_nonce = 7, stx_priority = 2,
     stx_max_fee = 1000, stx_gas_limit = 21000, stx_to = replicate 20 9, stx_value = 128, stx_tail = [0x80, 0xc0, 1, 2, 3]\<rparr>"

theorem peek_fields_round_trip_witness:
  "decode_fields (\<lambda>_. Inl ''not used'') (stx_encode small_tx) = Inr (stx_fields small_tx)"
proof -
  have "length (stx_to small_tx) \<le> 55" by code_simp
  moreover have "length (stx_payload small_tx) < 2 ^ 64"
  proof -
    have "length (stx_payload small_tx) \<le> 100" by code_simp
    then show ?thesis by simp
  qed
  ultimately show ?thesis by (rule peek_fields_round_trip)
qed


end
