(* ===== verification/Sequencer.thy ===== *)
theory Sequencer
  imports Sequencer_Config Side_Channels Tx_Decode Partition_State Unconfirmed Nonce_Ahead Resync Positions
begin

text \<open>
  The publish loop: \<open>crates/sequencer/src/sequencer.rs\<close> with its submodules \<open>sealer_answers.rs\<close> and
  \<open>receipt_floor.rs\<close>, and the ports it uses from \<open>outbound.rs\<close>, \<open>inbound.rs\<close>, \<open>sender.rs\<close>,
  \<open>pause_gate.rs\<close> and \<open>lookup.rs\<close>.

  The loop state is the record \<open>Sequencer\<close>.  Its extension \<open>SequencerWorld\<close> adds the ports of one run: the
  readings of the clock, the results of the next polls, the state \<open>'p\<close> of the publisher of refs, and
  what the loop wrote so far.  Every method is a function on the world.  Three parameters stand for code
  outside the sources: \<open>k\<close> is keccak256, \<open>full\<close> is the complete decode of an envelope, and \<open>publish\<close> is
  the batch publication of the transport.  Metrics, logs and the sleeps of the idle backoff are dropped.
\<close>

section \<open>Data\<close>

record RefMetadata =
  rm_correlation_id :: u64
  rm_tx_hash :: b256
  rm_lane :: u8
  rm_tx_data_position :: BPosition
  rm_tx_data_session_id :: i32
  rm_max_inclusion_block :: u64
  rm_tip :: u128

record Observed =
  ob_sender :: address
  ob_nonce :: u64
  ob_tx_hash :: b256

record ShadowWindow =
  sh_vslots :: VslotSet
  sh_until :: instant

record DepthReport =
  dr_at :: instant
  dr_depths :: "u32 list"

record PauseGate =
  pg_wired :: bool
  pg_paused :: bool

record GuardHeader =
  gh_sender :: address
  gh_nonce :: u64
  gh_max_inclusion_block :: u64
  gh_tip :: u128

record RefOffer =
  ro_tx_ref :: TxRef
  ro_guard :: GuardHeader
  ro_envelope :: "u8 list option"

record Inbound =
  in_lane :: u8
  in_loc :: TxDataLoc
  in_stream_position :: u64
  in_envelope :: TxEnvelope

record LookupRequest =
  lr_sender :: address
  lr_generation :: u64

datatype SideEvent =
    ErrorEvent TxError
  | StatusEvent TxStatus
  | DropEvent TxDrop
  | SentEvent b256
  | FlushEvents

type_synonym drained_ref = "address \<times> u64 \<times> RefMetadata"

type_synonym 'p publisher = "'p \<Rightarrow> RefOffer list \<Rightarrow> (nat \<times> SequencerError option) \<times> 'p"

type_synonym hash = "u8 list \<Rightarrow> b256"

record Sequencer =
  sq_cfg :: SequencerConfig
  sq_state :: "RefMetadata PartitionState"
  sq_resync :: "ResyncController option"
  sq_unconfirmed :: "RefMetadata UnconfirmedLedger"
  sq_nonce_ahead :: NonceAheadWatch
  sq_lookup :: bool
  sq_vslots :: VslotSet
  sq_shadow :: "ShadowWindow option"
  sq_depth :: DepthReport
  sq_pause :: PauseGate
  sq_fees :: FeeGate
  sq_sealer_version :: u8

text \<open>
  \<open>pw_slots\<close> holds the pause flag that the next \<open>has_changed\<close> calls find, \<open>None\<close> for no change.
  \<open>pw_offers\<close> lists the batches that were offered, each with the number of refs that the publisher took.
\<close>

record 'p SequencerWorld = Sequencer +
  pw_clock :: "nat \<Rightarrow> instant"
  pw_reads :: nat
  pw_tx_data :: "(SequencerError + Inbound option) list"
  pw_slots :: "bool option list"
  pw_publisher :: 'p
  pw_offers :: "(RefOffer list \<times> nat) list"
  pw_side :: "SideEvent list"
  pw_lookups :: "LookupRequest list"

definition read_clock :: "'p SequencerWorld \<Rightarrow> instant \<times> 'p SequencerWorld" where
  "read_clock w = (pw_clock w (pw_reads w), w\<lparr>pw_reads := pw_reads w + 1\<rparr>)"

definition emit :: "SideEvent \<Rightarrow> 'p SequencerWorld \<Rightarrow> 'p SequencerWorld" where
  "emit e w = w\<lparr>pw_side := pw_side w @ [e]\<rparr>"

section \<open>Construction\<close>

definition depth_new :: "instant \<Rightarrow> DepthReport" where
  "depth_new now = \<lparr>dr_at = now, dr_depths = replicate 256 0\<rparr>"

definition DEPTH_INTERVAL :: duration where
  "DEPTH_INTERVAL = 1000000000"

definition depth_tick :: "instant \<Rightarrow> u32 list \<Rightarrow> DepthReport \<Rightarrow> bool \<times> DepthReport" where
  "depth_tick now depths d =
     (if now - dr_at d < DEPTH_INTERVAL then (False, d) else (True, \<lparr>dr_at = now, dr_depths = depths\<rparr>))"

definition seq_new :: "nat \<Rightarrow> instant \<Rightarrow> SequencerConfig \<Rightarrow> ConfigError + Sequencer" where
  "seq_new usize_max now cfg =
     (case cfg_validate usize_max cfg of
        Inl e \<Rightarrow> Inl e
      | Inr _ \<Rightarrow>
          (case cfg_vslot_set cfg of
             Inl e \<Rightarrow> Inl e
           | Inr vslots \<Rightarrow> Inr \<lparr>
               sq_cfg = cfg,
               sq_state = ps_new (sc_max_pending_per_sender cfg) (cfg_tx_ttl cfg),
               sq_resync = None,
               sq_unconfirmed = ledger_new,
               sq_nonce_ahead = naw_new (from_millis (rcfg_nonce_ahead_settle_ms (sc_resync cfg))),
               sq_lookup = False,
               sq_vslots = vslots,
               sq_shadow = (if \<not> vs_is_empty (sc_shadow_vslots cfg)
                            then Some \<lparr>sh_vslots = sc_shadow_vslots cfg, sh_until = now + shadow_warm cfg\<rparr>
                            else None),
               sq_depth = depth_new now,
               sq_pause = \<lparr>pg_wired = False, pg_paused = False\<rparr>,
               sq_fees = fg_off,
               sq_sealer_version = 0\<rparr>))"

definition enable_fees :: "FeeGate \<Rightarrow> Sequencer \<Rightarrow> Sequencer" where
  "enable_fees gate s = s\<lparr>sq_fees := gate\<rparr>"

definition enable_positioned_refs :: "u8 \<Rightarrow> Sequencer \<Rightarrow> Sequencer" where
  "enable_positioned_refs version s = s\<lparr>sq_sealer_version := version\<rparr>"

definition pause_gate_new :: "bool \<Rightarrow> PauseGate" where
  "pause_gate_new paused = \<lparr>pg_wired = True, pg_paused = paused\<rparr>"

definition enable_pause :: "bool \<Rightarrow> Sequencer \<Rightarrow> Sequencer" where
  "enable_pause paused s = s\<lparr>sq_pause := pause_gate_new paused\<rparr>"

definition enable_nonce_lookup :: "Sequencer \<Rightarrow> Sequencer" where
  "enable_nonce_lookup s = s\<lparr>sq_lookup := True\<rparr>"

definition enable_resync :: "ResyncController \<Rightarrow> Sequencer \<Rightarrow> Sequencer" where
  "enable_resync controller s = s\<lparr>sq_resync := Some controller\<rparr>"

definition shadow_vslots :: "Sequencer \<Rightarrow> VslotSet" where
  "shadow_vslots s = (case sq_shadow s of None \<Rightarrow> VslotSet_EMPTY | Some win \<Rightarrow> sh_vslots win)"

definition orders_by_position :: "u8 \<Rightarrow> bool" where
  "orders_by_position version \<longleftrightarrow> 4 \<le> version"

definition POSITION_TAG :: u64 where
  "POSITION_TAG = push_bit 56 0x40"

definition POSITION_MASK :: u64 where
  "POSITION_MASK = push_bit 56 1 - 1"

definition position_deadline :: "u64 \<Rightarrow> u64 option" where
  "position_deadline stream_position =
     (if stream_position \<le> POSITION_MASK then Some (or POSITION_TAG stream_position) else None)"

definition guard_deadline :: "u64 \<Rightarrow> u64 \<Rightarrow> 'p SequencerWorld \<Rightarrow> u64" where
  "guard_deadline max_inclusion_block stream_position w =
     (if \<not> orders_by_position (sq_sealer_version w) then max_inclusion_block
      else case position_deadline stream_position of None \<Rightarrow> max_inclusion_block | Some d \<Rightarrow> d)"

definition gate_paused :: "'p SequencerWorld \<Rightarrow> bool \<times> 'p SequencerWorld" where
  "gate_paused w =
     (if \<not> pg_wired (sq_pause w) then (pg_paused (sq_pause w), w)
      else case pw_slots w of
          [] \<Rightarrow> (pg_paused (sq_pause w), w)
        | None # rest \<Rightarrow> (pg_paused (sq_pause w), w\<lparr>pw_slots := rest\<rparr>)
        | Some paused # rest \<Rightarrow>
            (paused, w\<lparr>pw_slots := rest, sq_pause := (sq_pause w)\<lparr>pg_paused := paused\<rparr>\<rparr>))"

section \<open>Reports\<close>

definition in_shadow :: "hash \<Rightarrow> address \<Rightarrow> 'p SequencerWorld \<Rightarrow> bool" where
  "in_shadow k sender w =
     (case sq_shadow w of None \<Rightarrow> False | Some win \<Rightarrow> vs_contains (sh_vslots win) (vslot_for k sender))"

definition publish_error :: "hash \<Rightarrow> TxError \<Rightarrow> 'p SequencerWorld \<Rightarrow> 'p SequencerWorld" where
  "publish_error k err w = (if in_shadow k (te_sender err) w then w else emit (ErrorEvent err) w)"

definition publish_rejection :: "hash \<Rightarrow> b256 \<Rightarrow> TxError \<Rightarrow> 'p SequencerWorld \<Rightarrow> 'p SequencerWorld" where
  "publish_rejection k tx_hash err w =
     (if in_shadow k (te_sender err) w then w
      else
        let w = emit (StatusEvent (ts_rejected tx_hash err)) w;
            w = emit (DropEvent \<lparr>td_tx_hash = tx_hash, td_sender = te_sender err, td_nonce = te_nonce err,
                                td_reason = drop_reason (te_reason err)\<rparr>) w
        in emit (ErrorEvent err) w)"

definition publish_proven_drop :: "hash \<Rightarrow> Observed \<Rightarrow> 'p SequencerWorld \<Rightarrow> 'p SequencerWorld" where
  "publish_proven_drop k observed w =
     (if in_shadow k (ob_sender observed) w then w
      else emit (DropEvent \<lparr>td_tx_hash = ob_tx_hash observed, td_sender = ob_sender observed,
                           td_nonce = ob_nonce observed, td_reason = DropNonceTooLow\<rparr>) w)"

definition report_expired :: "hash \<Rightarrow> drained_ref \<Rightarrow> 'p SequencerWorld \<Rightarrow> 'p SequencerWorld" where
  "report_expired k = (\<lambda>(sender, nonce, meta) w.
     publish_rejection k (rm_tx_hash meta)
       \<lparr>te_sender = sender, te_nonce = nonce, te_reason = Expired (next_nonce sender (sq_state w))\<rparr> w)"

definition report_fee_reject :: "hash \<Rightarrow> Observed \<Rightarrow> TxErrorReason \<Rightarrow> 'p SequencerWorld \<Rightarrow> 'p SequencerWorld" where
  "report_fee_reject k observed reason w =
     publish_rejection k (ob_tx_hash observed)
       \<lparr>te_sender = ob_sender observed, te_nonce = ob_nonce observed, te_reason = reason\<rparr> w"

definition report_evicted ::
  "hash \<Rightarrow> address \<Rightarrow> u64 \<Rightarrow> b256 \<Rightarrow> 'p SequencerWorld \<Rightarrow> 'p SequencerWorld" where
  "report_evicted k sender nonce tx_hash w =
     publish_rejection k tx_hash
       \<lparr>te_sender = sender, te_nonce = nonce, te_reason = Evicted (next_nonce sender (sq_state w))\<rparr> w"

definition shadow_tick :: "instant \<Rightarrow> 'p SequencerWorld \<Rightarrow> 'p SequencerWorld" where
  "shadow_tick now w =
     (case sq_shadow w of
        None \<Rightarrow> w
      | Some win \<Rightarrow> if sh_until win \<le> now then w\<lparr>sq_shadow := None\<rparr> else w)"

definition proven_executed :: "address \<Rightarrow> u64 \<Rightarrow> 'p SequencerWorld \<Rightarrow> bool" where
  "proven_executed sender nonce w =
     (case sq_resync w of
        None \<Rightarrow> False
      | Some r \<Rightarrow> (case rs_floor sender r of None \<Rightarrow> False | Some f \<Rightarrow> nonce < f))"

definition request_lookup :: "address \<Rightarrow> 'p SequencerWorld \<Rightarrow> 'p SequencerWorld" where
  "request_lookup sender w =
     (let floor_known = (case sq_resync w of None \<Rightarrow> False | Some r \<Rightarrow> rs_floor sender r \<noteq> None);
          generation = (case sq_resync w of None \<Rightarrow> 0 | Some r \<Rightarrow> rs_generation r)
      in if sq_lookup w \<and> \<not> floor_known
         then w\<lparr>pw_lookups := pw_lookups w @ [\<lparr>lr_sender = sender, lr_generation = generation\<rparr>]\<rparr>
         else w)"

section \<open>The flush of drained refs\<close>

definition make_txref :: "RefMetadata \<Rightarrow> TxRef" where
  "make_txref meta = \<lparr>ref_tx_hash = rm_tx_hash meta, ref_shard_id = rm_lane meta,
     ref_position = rm_tx_data_position meta, ref_session_id = rm_tx_data_session_id meta\<rparr>"

definition make_offer :: "drained_ref \<Rightarrow> RefOffer" where
  "make_offer = (\<lambda>(s, n, m). \<lparr>ro_tx_ref = make_txref m,
     ro_guard = \<lparr>gh_sender = s, gh_nonce = n, gh_max_inclusion_block = rm_max_inclusion_block m, gh_tip = rm_tip m\<rparr>,
     ro_envelope = None\<rparr>)"

text \<open>The default \<open>try_publish_ref_batch\<close> of the publisher trait, over a publication of single refs.\<close>

fun try_publish_ref_batch ::
  "('p \<Rightarrow> RefOffer \<Rightarrow> SequencerError option \<times> 'p) \<Rightarrow> 'p \<Rightarrow> RefOffer list \<Rightarrow> (nat \<times> SequencerError option) \<times> 'p" where
  "try_publish_ref_batch publish_ref p [] = ((0, None), p)"
| "try_publish_ref_batch publish_ref p (offer # offers) =
     (case publish_ref p offer of
        (Some e, p') \<Rightarrow> ((0, Some e), p')
      | (None, p') \<Rightarrow>
          (case try_publish_ref_batch publish_ref p' offers of ((n, e), p'') \<Rightarrow> ((Suc n, e), p'')))"

definition suppress_shadow :: "hash \<Rightarrow> drained_ref list \<Rightarrow> 'p SequencerWorld \<Rightarrow> drained_ref list" where
  "suppress_shadow k items w =
     (if sq_shadow w = None then items else filter (\<lambda>(sender, _, _). \<not> in_shadow k sender w) items)"

definition record_one_published :: "drained_ref \<Rightarrow> 'p SequencerWorld \<Rightarrow> 'p SequencerWorld" where
  "record_one_published = (\<lambda>(sender, n, meta) w.
     let w = emit (StatusEvent (ts_offered (rm_tx_hash meta) sender n)) w;
         w = emit (SentEvent (rm_tx_hash meta)) w;
         w = w\<lparr>sq_state := clear_refused sender n (sq_state w)\<rparr>
     in if sq_resync w = None then w
        else let (at, w) = read_clock w
             in w\<lparr>sq_unconfirmed := record_published at sender n meta (sq_unconfirmed w)\<rparr>)"

definition rebuffer_one :: "hash \<Rightarrow> drained_ref \<Rightarrow> 'p SequencerWorld \<Rightarrow> 'p SequencerWorld" where
  "rebuffer_one k = (\<lambda>(sender, nonce, meta) w.
     if is_refused sender nonce (sq_state w) then report_evicted k sender nonce (rm_tx_hash meta) w
     else w\<lparr>sq_state := reinsert_for_retry sender nonce meta (sq_state w)\<rparr>)"

definition rebuffer_rest :: "hash \<Rightarrow> drained_ref list \<Rightarrow> 'p SequencerWorld \<Rightarrow> 'p SequencerWorld" where
  "rebuffer_rest k rest w = fold (rebuffer_one k) (rev rest) w"

definition BATCH_MAX :: nat where
  "BATCH_MAX = 13"

definition offer_batch ::
  "'p publisher \<Rightarrow> RefOffer list \<Rightarrow> 'p SequencerWorld \<Rightarrow> (nat \<times> SequencerError option) \<times> 'p SequencerWorld" where
  "offer_batch publish refs w =
     (case publish (pw_publisher w) refs of
        ((published, err), p) \<Rightarrow>
          ((published, err), w\<lparr>pw_publisher := p, pw_offers := pw_offers w @ [(refs, published)]\<rparr>))"

datatype 'b FlushFlow = FlushBreak 'b | FlushContinue

text \<open>\<open>None\<close>: the call does not return, here because \<open>drain(..published)\<close> is out of range and panics.\<close>

definition flush_chunk ::
  "hash \<Rightarrow> 'p publisher \<Rightarrow> drained_ref list \<Rightarrow> 'p SequencerWorld
    \<Rightarrow> ((SequencerError + unit) FlushFlow \<times> drained_ref list \<times> 'p SequencerWorld) option" where
  "flush_chunk k publish rest w =
     (let chunk = min BATCH_MAX (length rest);
          refs = map make_offer (take chunk rest)
      in case offer_batch publish refs w of
           ((published, err), w1) \<Rightarrow>
             if length rest < published then None
             else
               let w2 = fold record_one_published (take published rest) w1;
                   rest' = drop published rest
               in Some (case err of
                    None \<Rightarrow> (FlushContinue, rest', w2)
                  | Some Backpressure \<Rightarrow> (FlushBreak (Inl Backpressure), [], rebuffer_rest k rest' w2)
                  | Some e \<Rightarrow> (FlushBreak (Inl e), rest', w2)))"

partial_function (option) flush_loop ::
  "hash \<Rightarrow> 'p publisher \<Rightarrow> drained_ref list \<Rightarrow> 'p SequencerWorld
    \<Rightarrow> ((SequencerError + unit) \<times> 'p SequencerWorld) option" where
  "flush_loop k publish rest w =
     (if rest = [] then Some (Inr (), w)
      else Option.bind (flush_chunk k publish rest w) (\<lambda>(flow, rest', w').
             case flow of
               FlushBreak result \<Rightarrow> Some (result, w')
             | FlushContinue \<Rightarrow> flush_loop k publish rest' w'))"

definition flush_drained ::
  "hash \<Rightarrow> 'p publisher \<Rightarrow> drained_ref list \<Rightarrow> 'p SequencerWorld
    \<Rightarrow> ((SequencerError + unit) \<times> 'p SequencerWorld) option" where
  "flush_drained k publish items w = flush_loop k publish (suppress_shadow k items w) w"

section \<open>The answers of the sealer\<close>

definition rewind_for_republish ::
  "(UnconfirmedKey \<times> RefMetadata) list \<Rightarrow> 'p SequencerWorld \<Rightarrow> 'p SequencerWorld" where
  "rewind_for_republish entries w =
     fold (\<lambda>((sender, nonce), meta) w. w\<lparr>sq_state := reinsert_for_retry sender nonce meta (sq_state w)\<rparr>) entries w"

definition rewind_one_gap :: "address \<Rightarrow> u64 \<Rightarrow> 'p SequencerWorld \<Rightarrow> 'p SequencerWorld" where
  "rewind_one_gap sender expected w =
     (let (taken, ledger) = take_gap_rewinds sender expected (sq_unconfirmed w);
          w = w\<lparr>sq_unconfirmed := ledger\<rparr>
      in if taken = [] then w else rewind_for_republish taken w)"

definition republish_held :: "address \<Rightarrow> u64 \<Rightarrow> 'p SequencerWorld \<Rightarrow> 'p SequencerWorld" where
  "republish_held sender nonce w =
     (if ledger_contains sender nonce (sq_unconfirmed w) then rewind_one_gap sender nonce w else w)"

definition seq_free_nonce :: "address \<Rightarrow> u64 \<Rightarrow> 'p SequencerWorld \<Rightarrow> 'p SequencerWorld" where
  "seq_free_nonce sender nonce w =
     (let (taken, ledger) = take_gap_rewinds sender nonce (sq_unconfirmed w);
          later = map (\<lambda>((_, n), meta). (n, meta)) taken;
          w = w\<lparr>sq_unconfirmed := ledger\<rparr>;
          (now, w) = read_clock w
      in w\<lparr>sq_state := Partition_State.free_nonce now
             \<lparr>freed_sender = sender, freed_nonce = nonce, freed_later = later\<rparr> (sq_state w)\<rparr>)"

definition apply_gap :: "address \<Rightarrow> u64 \<Rightarrow> 'p SequencerWorld \<Rightarrow> 'p SequencerWorld" where
  "apply_gap sender expected w =
     (if ledger_contains sender expected (sq_unconfirmed w) \<or> holds sender expected (sq_state w)
      then rewind_one_gap sender expected w
      else seq_free_nonce sender expected w)"

definition named_by :: "TxErrorReason \<Rightarrow> RefMetadata \<Rightarrow> bool" where
  "named_by reason meta =
     (case reason of
        PastDeadline max_inclusion_block _ \<Rightarrow> rm_max_inclusion_block meta = max_inclusion_block
      | _ \<Rightarrow> True)"

definition take_refused :: "SealerRefusal \<Rightarrow> 'p SequencerWorld \<Rightarrow> RefMetadata option \<times> 'p SequencerWorld" where
  "take_refused refusal w =
     (let sender = sr_sender refusal; nonce = sr_nonce refusal; named = named_by (sr_reason refusal);
          (held, ledger) = take_named sender nonce named (sq_unconfirmed w);
          w = w\<lparr>sq_unconfirmed := ledger\<rparr>;
          (refused, w) =
            (case held of
               Some meta \<Rightarrow> (Some meta, w)
             | None \<Rightarrow>
                 let (parked, st) = take_parked sender nonce named (sq_state w)
                 in (parked, w\<lparr>sq_state := st\<rparr>))
      in case refused of
           None \<Rightarrow> (None, w)
         | Some meta \<Rightarrow> (Some meta, w\<lparr>sq_state := mark_refused sender nonce (sq_state w)\<rparr>))"

definition report_refusal :: "hash \<Rightarrow> SealerRefusal \<Rightarrow> 'p SequencerWorld \<Rightarrow> 'p SequencerWorld" where
  "report_refusal k refusal w =
     (let (refused, w) = take_refused refusal w;
          err = \<lparr>te_sender = sr_sender refusal, te_nonce = sr_nonce refusal, te_reason = sr_reason refusal\<rparr>
      in case map_option rm_tx_hash refused of
           Some tx_hash \<Rightarrow> publish_rejection k tx_hash err w
         | None \<Rightarrow> publish_error k err w)"

record PastReject =
  pr_sender :: address
  pr_nonce :: u64
  pr_expected :: u64
  pr_chain :: u64

definition apply_past_reject :: "hash \<Rightarrow> PastReject \<Rightarrow> 'p SequencerWorld \<Rightarrow> 'p SequencerWorld" where
  "apply_past_reject k past w =
     (let sender = pr_sender past; nonce = pr_nonce past; expected = pr_expected past; chain = pr_chain past
      in if \<not> ledger_contains sender nonce (sq_unconfirmed w) then w
         else
           let in_flight = of_nat (count_from sender chain (sq_unconfirmed w));
               (verdict, w) =
                 (if expected \<le> saturating_add chain in_flight then (InFlight, w)
                  else
                    let (now, w) = read_clock w;
                        (verdict, watch) = observe sender chain now (sq_nonce_ahead w)
                    in (verdict, w\<lparr>sq_nonce_ahead := watch\<rparr>));
               reason = (case verdict of
                           Stuck \<Rightarrow> SealerNonceAhead expected chain
                         | InFlight \<Rightarrow> NonceInFlight chain)
           in report_refusal k \<lparr>sr_sender = sender, sr_nonce = nonce, sr_reason = reason\<rparr> w)"

definition apply_deadline_rejects ::
  "hash \<Rightarrow> ResyncController \<Rightarrow> 'p SequencerWorld \<Rightarrow> ResyncController \<times> 'p SequencerWorld" where
  "apply_deadline_rejects k r w =
     (let (refusals, r') = drain_deadline_rejects r in (r', fold (report_refusal k) refusals w))"

definition past_reject_of :: "ResyncController \<Rightarrow> address \<times> u64 \<times> u64 \<Rightarrow> PastReject" where
  "past_reject_of r = (\<lambda>(sender, nonce, expected).
     \<lparr>pr_sender = sender, pr_nonce = nonce, pr_expected = expected,
      pr_chain = (case rs_floor sender r of None \<Rightarrow> 0 | Some f \<Rightarrow> f)\<rparr>)"

definition apply_sealer_answers ::
  "hash \<Rightarrow> ResyncController \<Rightarrow> 'p SequencerWorld \<Rightarrow> ResyncController \<times> 'p SequencerWorld" where
  "apply_sealer_answers k r w =
     (let (drain, r') = drain_answers r;
          w = fold (\<lambda>d. apply_past_reject k (past_reject_of r' d)) (an_drops drain) w;
          w = fold (\<lambda>(sender, expected). apply_gap sender expected) (an_gaps drain) w;
          w = fold (\<lambda>(sender, nonce). republish_held sender nonce) (an_window_full drain) w
      in (r', w))"

section \<open>The receipts\<close>

definition apply_one_floor_update :: "hash \<Rightarrow> address \<Rightarrow> u64 \<Rightarrow> 'p SequencerWorld \<Rightarrow> 'p SequencerWorld" where
  "apply_one_floor_update k sender floor w =
     (let w = w\<lparr>sq_nonce_ahead := naw_forget sender (sq_nonce_ahead w)\<rparr>;
          (moved, st) = advance_floor sender floor (sq_state w);
          w = w\<lparr>sq_state := st\<rparr>
      in case moved of
           None \<Rightarrow> w
         | Some (_, dropped) \<Rightarrow>
             fold (\<lambda>(nonce, meta). publish_proven_drop k
                     \<lparr>ob_sender = sender, ob_nonce = nonce, ob_tx_hash = rm_tx_hash meta\<rparr>) dropped w)"

definition apply_one_release :: "address \<Rightarrow> u64 \<Rightarrow> 'p SequencerWorld \<Rightarrow> 'p SequencerWorld" where
  "apply_one_release sender chain w = w\<lparr>sq_state := snd (release_floor sender chain (sq_state w))\<rparr>"

definition forget_one_floor :: "address \<Rightarrow> 'p SequencerWorld \<Rightarrow> 'p SequencerWorld" where
  "forget_one_floor sender w =
     w\<lparr>sq_nonce_ahead := naw_forget sender (sq_nonce_ahead w), sq_state := snd (forget_floor sender (sq_state w))\<rparr>"

definition apply_receipt_drain ::
  "hash \<Rightarrow> ResyncController \<Rightarrow> 'p SequencerWorld \<Rightarrow> address list \<times> ResyncController \<times> 'p SequencerWorld" where
  "apply_receipt_drain k r w =
     (let (drain, r) = drain_floor_updates r;
          w = w\<lparr>sq_unconfirmed :=
                 fold (\<lambda>(sender, confirmed). confirm_through sender confirmed) (rd_confirmations drain) (sq_unconfirmed w)\<rparr>;
          w = fold (\<lambda>(sender, chain). apply_one_release sender chain) (rd_released drain) w;
          w = fold (\<lambda>(sender, floor). apply_one_floor_update k sender floor) (rd_raised drain) w;
          w = fold forget_one_floor (rd_forgotten drain) w;
          (now, w) = read_clock w
      in (rd_forgotten drain @ rd_stale_lookups drain, rs_observe now r, w))"

section \<open>The ticks\<close>

definition SWEEP_LIMIT :: nat where
  "SWEEP_LIMIT = 256"

definition sweep_confirm_timeouts :: "'p SequencerWorld \<Rightarrow> 'p SequencerWorld" where
  "sweep_confirm_timeouts w =
     (let timeout = from_millis (rcfg_confirm_timeout_ms (sc_resync (sq_cfg w)));
          (now, w) = read_clock w;
          (expired, ledger) = ledger_sweep_expired timeout now SWEEP_LIMIT (sq_unconfirmed w);
          w = w\<lparr>sq_unconfirmed := ledger\<rparr>
      in if expired \<noteq> [] then rewind_for_republish expired w else w)"

text \<open>The controller is out of the loop state while its answers are applied.\<close>

definition resync_tick :: "hash \<Rightarrow> 'p SequencerWorld \<Rightarrow> 'p SequencerWorld" where
  "resync_tick k w =
     (case sq_resync w of
        None \<Rightarrow> w
      | Some r \<Rightarrow>
          let w = w\<lparr>sq_resync := None\<rparr>;
              (lookups, r, w) = apply_receipt_drain k r w;
              (r, w) = apply_deadline_rejects k r w;
              (r, w) = apply_sealer_answers k r w;
              w = w\<lparr>sq_resync := Some r\<rparr>;
              w = fold request_lookup lookups w
          in sweep_confirm_timeouts w)"

definition expiry_tick :: "hash \<Rightarrow> 'p SequencerWorld \<Rightarrow> 'p SequencerWorld" where
  "expiry_tick k w =
     (let (now, w) = read_clock w;
          (expired, st) = sweep_expired now SWEEP_LIMIT (sq_state w);
          w = w\<lparr>sq_state := st\<rparr>;
          w = fold (report_expired k) expired w;
          w = shadow_tick now w;
          depths = pending_depth_by (vslot_for k) (sq_state w);
          (_, depth) = depth_tick now depths (sq_depth w)
      in w\<lparr>sq_depth := depth\<rparr>)"

section \<open>One envelope\<close>

definition report_duplicate :: "hash \<Rightarrow> Observed \<Rightarrow> u64 \<Rightarrow> u64 \<Rightarrow> 'p SequencerWorld \<Rightarrow> 'p SequencerWorld" where
  "report_duplicate k observed nonce expected_nonce w =
     (if proven_executed (ob_sender observed) nonce w
      then publish_proven_drop k (observed\<lparr>ob_nonce := nonce\<rparr>) w
      else publish_rejection k (ob_tx_hash observed)
             \<lparr>te_sender = ob_sender observed, te_nonce = nonce, te_reason = DuplicatedTx expected_nonce\<rparr> w)"

definition collect_one_action ::
  "hash \<Rightarrow> Observed \<Rightarrow> RefMetadata ProcessAction \<Rightarrow> drained_ref list \<times> 'p SequencerWorld \<Rightarrow> drained_ref list \<times> 'p SequencerWorld" where
  "collect_one_action k observed action = (\<lambda>(publishes, w).
     case action of
       Publish n payload \<Rightarrow> (publishes @ [(ob_sender observed, n, payload)], w)
     | ReportDuplicate n expected_nonce \<Rightarrow> (publishes, report_duplicate k observed n expected_nonce w))"

definition collect_publishes ::
  "hash \<Rightarrow> Observed \<Rightarrow> RefMetadata ProcessAction list \<Rightarrow> 'p SequencerWorld \<Rightarrow> drained_ref list \<times> 'p SequencerWorld" where
  "collect_publishes k observed actions w = fold (collect_one_action k observed) actions ([], w)"

text \<open>The \<open>Past\<close> outcome moves only metrics.\<close>

definition handle_outcome ::
  "hash \<Rightarrow> Observed \<Rightarrow> RefMetadata ProcessResult \<Rightarrow> 'p SequencerWorld \<Rightarrow> drained_ref list \<times> 'p SequencerWorld" where
  "handle_outcome k observed = (\<lambda>(actions, outcome) w.
     let sender = ob_sender observed;
         w = (case outcome of
                Matched \<Rightarrow> w
              | Reoffered \<Rightarrow> w
              | Buffered \<Rightarrow> request_lookup sender w
              | BufferedReplaced \<Rightarrow> request_lookup sender w
              | BufferedDisabled \<Rightarrow> w
              | BufferedEvicting evicted_nonce evicted \<Rightarrow>
                  report_evicted k sender evicted_nonce (rm_tx_hash evicted) (request_lookup sender w)
              | TooFarRejected rejected \<Rightarrow> report_evicted k sender rejected (ob_tx_hash observed) w
              | Past \<Rightarrow> w)
     in collect_publishes k observed actions w)"

definition sender_of :: "TxEnvelope \<Rightarrow> address" where
  "sender_of envelope = env_sender envelope"

definition seed_cold_sender :: "address \<Rightarrow> 'p SequencerWorld \<Rightarrow> 'p SequencerWorld" where
  "seed_cold_sender sender w =
     (if next_nonce_known sender (sq_state w) = None
      then w\<lparr>sq_state := seed_next_nonce sender 0 (sq_state w)\<rparr> else w)"

definition ref_metadata :: "Inbound \<Rightarrow> u128 \<Rightarrow> 'p SequencerWorld \<Rightarrow> RefMetadata" where
  "ref_metadata inb tip w =
     (let envelope = in_envelope inb
      in \<lparr>rm_correlation_id = env_correlation_id envelope, rm_tx_hash = env_tx_hash envelope, rm_lane = in_lane inb,
          rm_tx_data_position = loc_position (in_loc inb), rm_tx_data_session_id = loc_session_id (in_loc inb),
          rm_max_inclusion_block = guard_deadline (env_max_inclusion_block envelope) (in_stream_position inb) w,
          rm_tip = tip\<rparr>)"

text \<open>The part of \<open>run_once\<close> after the poll returned an envelope.\<close>

definition ingest ::
  "hash \<Rightarrow> (u8 list \<Rightarrow> string + TxFields) \<Rightarrow> 'p publisher \<Rightarrow> Inbound \<Rightarrow> 'p SequencerWorld
    \<Rightarrow> ((SequencerError + bool) \<times> 'p SequencerWorld) option" where
  "ingest k full publish inb w =
     (let envelope = in_envelope inb; sender = sender_of envelope
      in if \<not> vs_contains (sq_vslots w) (vslot_for k sender) then Some (Inr True, w)
         else case decode_fields full (env_raw_tx envelope) of
             Inl e \<Rightarrow> Some (Inl e, w)
           | Inr fs \<Rightarrow>
               let nonce = txf_nonce fs;
                   observed = \<lparr>ob_sender = sender, ob_nonce = nonce, ob_tx_hash = env_tx_hash envelope\<rparr>;
                   (now, w) = read_clock w
               in case fg_admit now (sq_fees w) sender (txf_fees fs) of
                    Inl reason \<Rightarrow> Some (Inr True, report_fee_reject k observed reason w)
                  | Inr tip \<Rightarrow>
                      let w = seed_cold_sender sender w;
                          meta = ref_metadata inb tip w;
                          (now, w) = read_clock w;
                          (result, st) = process_at now sender nonce meta (sq_state w);
                          w = w\<lparr>sq_state := st\<rparr>;
                          (publishes, w) = handle_outcome k observed result w
                      in map_option (\<lambda>(r, w). (map_sum (\<lambda>e. e) (\<lambda>_. True) r, w)) (flush_drained k publish publishes w))"

definition poll_tx_data :: "'p SequencerWorld \<Rightarrow> (SequencerError + Inbound option) \<times> 'p SequencerWorld" where
  "poll_tx_data w =
     (case pw_tx_data w of [] \<Rightarrow> (Inr None, w) | r # rest \<Rightarrow> (r, w\<lparr>pw_tx_data := rest\<rparr>))"

definition run_once ::
  "hash \<Rightarrow> (u8 list \<Rightarrow> string + TxFields) \<Rightarrow> 'p publisher \<Rightarrow> 'p SequencerWorld
    \<Rightarrow> ((SequencerError + bool) \<times> 'p SequencerWorld) option" where
  "run_once k full publish w =
     (let w = resync_tick k w;
          w = emit FlushEvents w;
          w = expiry_tick k w;
          (paused, w) = gate_paused w
      in if paused then Some (Inr False, w)
         else
           let (pending, st) = drain_pending (sq_state w);
               w = w\<lparr>sq_state := st\<rparr>
           in if pending \<noteq> []
              then map_option (\<lambda>(r, w). (map_sum (\<lambda>e. e) (\<lambda>_. True) r, w)) (flush_drained k publish pending w)
              else case poll_tx_data w of
                  (Inl e, w) \<Rightarrow> Some (Inl e, w)
                | (Inr None, w) \<Rightarrow> Some (Inr False, w)
                | (Inr (Some inb), w) \<Rightarrow> ingest k full publish inb w)"

section \<open>The loop\<close>

definition resync_note_publish_ok :: "'p SequencerWorld \<Rightarrow> 'p SequencerWorld" where
  "resync_note_publish_ok w = w\<lparr>sq_resync := map_option note_publish_ok (sq_resync w)\<rparr>"

definition resync_note_publish_stall :: "'p SequencerWorld \<Rightarrow> 'p SequencerWorld" where
  "resync_note_publish_stall w =
     (case sq_resync w of
        None \<Rightarrow> w
      | Some r \<Rightarrow> let (now, w) = read_clock w in w\<lparr>sq_resync := Some (note_publish_stall now r)\<rparr>)"

definition after_pass ::
  "SequencerError + bool \<Rightarrow> 'p SequencerWorld \<Rightarrow> (SequencerError + bool) \<times> 'p SequencerWorld" where
  "after_pass outcome w =
     (case outcome of
        Inr _ \<Rightarrow> (Inr True, resync_note_publish_ok w)
      | Inl Backpressure \<Rightarrow> (Inr True, resync_note_publish_stall w)
      | Inl IngressDisconnected \<Rightarrow> (Inr False, w)
      | Inl e \<Rightarrow> (Inl e, w))"

definition run_tick ::
  "hash \<Rightarrow> (u8 list \<Rightarrow> string + TxFields) \<Rightarrow> 'p publisher \<Rightarrow> 'p SequencerWorld
    \<Rightarrow> ((SequencerError + bool) \<times> 'p SequencerWorld) option" where
  "run_tick k full publish w = map_option (\<lambda>(outcome, w). after_pass outcome w) (run_once k full publish w)"

text \<open>The list holds what the next reads of the shutdown flag return; its end is a signal.\<close>

fun seq_run ::
  "hash \<Rightarrow> (u8 list \<Rightarrow> string + TxFields) \<Rightarrow> 'p publisher \<Rightarrow> bool list \<Rightarrow> 'p SequencerWorld
    \<Rightarrow> ((SequencerError + unit) \<times> 'p SequencerWorld) option" where
  "seq_run k full publish [] w = Some (Inr (), w)"
| "seq_run k full publish (signaled # signals) w =
     (if signaled then Some (Inr (), w)
      else case run_tick k full publish w of
          None \<Rightarrow> None
        | Some (Inl e, w') \<Rightarrow> Some (Inl e, w')
        | Some (Inr False, w') \<Rightarrow> Some (Inr (), w')
        | Some (Inr True, w') \<Rightarrow> seq_run k full publish signals w')"

end
