(* ===== verification/Sequencer_Flush.thy ===== *)
theory Sequencer_Flush
  imports Sequencer Partition_Safety "HOL-Library.Sublist"
begin

text \<open>
  The flush of a drained batch: what the loop does with every ref of the batch, whatever the publisher
  answers, and that the loop over the chunks ends.  The contract of the publisher is the locale
  \<open>ref_publisher\<close>; the publishers of the sources implement it.
\<close>

section \<open>What the steps leave alone\<close>

abbreviation ref_key :: "drained_ref \<Rightarrow> UnconfirmedKey" where
  "ref_key x \<equiv> (fst x, fst (snd x))"

lemma emit_simps [simp]:
  "sq_state (emit e w) = sq_state w" "sq_resync (emit e w) = sq_resync w" "sq_shadow (emit e w) = sq_shadow w"
  "sq_unconfirmed (emit e w) = sq_unconfirmed w" "pw_offers (emit e w) = pw_offers w"
  "pw_publisher (emit e w) = pw_publisher w" "pw_side (emit e w) = pw_side w @ [e]" "sq_cfg (emit e w) = sq_cfg w"
  "in_shadow k a (emit e w) = in_shadow k a w" "sq_vslots (emit e w) = sq_vslots w"
  "pw_clock (emit e w) = pw_clock w" "pw_reads (emit e w) = pw_reads w"
  by (simp_all add: emit_def in_shadow_def)

lemma clear_refused_iff:
  "is_refused a m (clear_refused b n s) \<longleftrightarrow> is_refused a m s \<and> (a, m) \<noteq> (b, n)"
  by (auto simp: is_refused_def clear_refused_def trim_refused_def Let_def split: option.splits if_splits)

lemma clear_refused_simps [simp]:
  "slot_at (clear_refused a n s) = slot_at s" "next_nonce x (clear_refused a n s) = next_nonce x s"
  by (simp_all add: clear_refused_def)

lemma record_one_published_simps [simp]:
  "sq_state (record_one_published x w) = clear_refused (fst x) (fst (snd x)) (sq_state w)"
  "sq_resync (record_one_published x w) = sq_resync w"
  "sq_shadow (record_one_published x w) = sq_shadow w"
  "pw_offers (record_one_published x w) = pw_offers w"
  "pw_publisher (record_one_published x w) = pw_publisher w"
  "pw_side (record_one_published x w) = pw_side w @
     [StatusEvent (ts_offered (rm_tx_hash (snd (snd x))) (fst x) (fst (snd x))), SentEvent (rm_tx_hash (snd (snd x)))]"
  by (simp_all add: record_one_published_def read_clock_def Let_def case_prod_unfold)

lemma record_one_published_ledger:
  "entry_of (sq_unconfirmed (record_one_published x w)) =
    (if sq_resync w = None then entry_of (sq_unconfirmed w)
     else (entry_of (sq_unconfirmed w))(ref_key x \<mapsto> (snd (snd x), pw_clock w (pw_reads w))))"
  by (simp add: record_one_published_def read_clock_def Let_def case_prod_unfold record_published_def)

text \<open>The record of an accepted prefix.\<close>

lemma fold_record_published:
  fixes w :: "'p SequencerWorld"
  defines "w' xs \<equiv> fold record_one_published xs w"
  shows "sq_resync (w' xs) = sq_resync w" and "sq_shadow (w' xs) = sq_shadow w"
    and "pw_offers (w' xs) = pw_offers w" and "pw_publisher (w' xs) = pw_publisher w"
    and "slot_at (sq_state (w' xs)) = slot_at (sq_state w)"
    and "next_nonce a (sq_state (w' xs)) = next_nonce a (sq_state w)"
    and "is_refused a n (sq_state (w' xs)) \<longleftrightarrow> is_refused a n (sq_state w) \<and> (a, n) \<notin> ref_key ` set xs"
  unfolding w'_def by (induction xs arbitrary: w) (auto simp: clear_refused_iff)

lemma fold_record_published_side:
  "pw_side (fold record_one_published xs w) = pw_side w @ concat (map (\<lambda>x.
     [StatusEvent (ts_offered (rm_tx_hash (snd (snd x))) (fst x) (fst (snd x))), SentEvent (rm_tx_hash (snd (snd x)))]) xs)"
  by (induction xs arbitrary: w) simp_all

lemma fold_record_published_other:
  "key \<notin> ref_key ` set xs \<Longrightarrow>
    entry_of (sq_unconfirmed (fold record_one_published xs w)) key = entry_of (sq_unconfirmed w) key"
  by (induction xs arbitrary: w) (auto simp: record_one_published_ledger)

lemma fold_record_published_ledger:
  "distinct (map ref_key xs) \<Longrightarrow> x \<in> set xs \<Longrightarrow> sq_resync w \<noteq> None \<Longrightarrow>
    \<exists>at. entry_of (sq_unconfirmed (fold record_one_published xs w)) (ref_key x) = Some (snd (snd x), at)"
proof (induction xs arbitrary: w)
  case (Cons y xs)
  show ?case
  proof (cases "x \<in> set xs")
    case False
    with Cons.prems have "x = y" "ref_key x \<notin> ref_key ` set xs" by auto
    with Cons.prems(3) show ?thesis
      using fold_record_published_other [of "ref_key x" xs "record_one_published y w"]
      by (auto simp: record_one_published_ledger)
  qed (use Cons in auto)
qed simp

section \<open>The rebuffering of what is left\<close>

text \<open>
  What becomes of one ref that the publisher did not take: it is buffered again at or above the floor of
  its sender, or, when it was the offer of a refused nonce, its client hears that it was evicted.
\<close>

definition told_evicted :: "drained_ref \<Rightarrow> SideEvent list \<Rightarrow> bool" where
  "told_evicted x es \<longleftrightarrow>
     (\<exists>expected. ErrorEvent \<lparr>te_sender = fst x, te_nonce = fst (snd x), te_reason = Evicted expected\<rparr> \<in> set es) \<and>
     DropEvent \<lparr>td_tx_hash = rm_tx_hash (snd (snd x)), td_sender = fst x, td_nonce = fst (snd x),
       td_reason = DropTxpoolFull\<rparr> \<in> set es"

lemma told_evicted_append [simp]:
  "told_evicted x es \<Longrightarrow> told_evicted x (es @ fs)" "told_evicted x fs \<Longrightarrow> told_evicted x (es @ fs)"
  by (auto simp: told_evicted_def)

definition kept_back :: "drained_ref \<Rightarrow> RefMetadata PartitionState \<Rightarrow> bool" where
  "kept_back x s \<longleftrightarrow>
     slot_at s (fst x) (fst (snd x)) = Some \<lparr>slot_deadline = None, slot_value = snd (snd x)\<rparr> \<and>
     (\<exists>f. next_nonce_known (fst x) s = Some f \<and> f \<le> fst (snd x))"

lemma reinsert_for_retry_known:
  "next_nonce_known x (reinsert_for_retry a n payload s) =
    (if x = a then Some (case next_nonce_known a s of None \<Rightarrow> n | Some f \<Rightarrow> min f n) else next_nonce_known x s)"
  by (simp add: reinsert_for_retry_def rewind_floor_def Let_def next_nonce_known_def)

lemma publish_rejection_simps [simp]:
  "sq_state (publish_rejection k h e w) = sq_state w" "sq_resync (publish_rejection k h e w) = sq_resync w"
  "sq_shadow (publish_rejection k h e w) = sq_shadow w" "pw_offers (publish_rejection k h e w) = pw_offers w"
  "sq_unconfirmed (publish_rejection k h e w) = sq_unconfirmed w" "pw_publisher (publish_rejection k h e w) = pw_publisher w"
  by (simp_all add: publish_rejection_def Let_def)

lemma publish_rejection_side:
  "\<not> in_shadow k (te_sender e) w \<Longrightarrow> pw_side (publish_rejection k h e w) = pw_side w @
     [StatusEvent (ts_rejected h e), DropEvent \<lparr>td_tx_hash = h, td_sender = te_sender e, td_nonce = te_nonce e,
        td_reason = drop_reason (te_reason e)\<rparr>, ErrorEvent e]"
  by (simp add: publish_rejection_def Let_def)

lemma rebuffer_one_simps [simp]:
  "sq_resync (rebuffer_one k x w) = sq_resync w" "sq_shadow (rebuffer_one k x w) = sq_shadow w"
  "sq_unconfirmed (rebuffer_one k x w) = sq_unconfirmed w" "pw_offers (rebuffer_one k x w) = pw_offers w"
  "pw_publisher (rebuffer_one k x w) = pw_publisher w"
  "is_refused a n (sq_state (rebuffer_one k x w)) = is_refused a n (sq_state w)"
  "in_shadow k' a (rebuffer_one k x w) = in_shadow k' a w"
  by (simp_all add: rebuffer_one_def report_evicted_def case_prod_unfold is_refused_def
      reinsert_for_retry_effect in_shadow_def)

lemma rebuffer_one_effect:
  assumes "\<not> in_shadow k (fst x) w"
  obtains es where "pw_side (rebuffer_one k x w) = pw_side w @ es"
    and "if is_refused (fst x) (fst (snd x)) (sq_state w) then told_evicted x es
         else kept_back x (sq_state (rebuffer_one k x w))"
proof (cases "is_refused (fst x) (fst (snd x)) (sq_state w)")
  case True
  let ?e = "\<lparr>te_sender = fst x, te_nonce = fst (snd x), te_reason = Evicted (next_nonce (fst x) (sq_state w))\<rparr>"
  have "rebuffer_one k x w = publish_rejection k (rm_tx_hash (snd (snd x))) ?e w"
    using True by (simp add: rebuffer_one_def report_evicted_def case_prod_unfold)
  with True assms publish_rejection_side [of k ?e w "rm_tx_hash (snd (snd x))"] show thesis
    by (intro that) (auto simp: told_evicted_def)
next
  case False
  then have w': "rebuffer_one k x w = w\<lparr>sq_state := reinsert_for_retry (fst x) (fst (snd x)) (snd (snd x)) (sq_state w)\<rparr>"
    by (simp add: rebuffer_one_def case_prod_unfold)
  moreover have "kept_back x (reinsert_for_retry (fst x) (fst (snd x)) (snd (snd x)) (sq_state w))"
    by (auto simp: kept_back_def reinsert_for_retry_effect reinsert_for_retry_known split: option.splits)
  ultimately show thesis using False by (intro that [of "[]"]) simp_all
qed

lemma kept_back_rebuffer_one:
  assumes "kept_back x (sq_state w)" and "ref_key y \<noteq> ref_key x"
  shows "kept_back x (sq_state (rebuffer_one k y w))"
  using assms
  by (auto simp: kept_back_def rebuffer_one_def report_evicted_def case_prod_unfold reinsert_for_retry_effect
      reinsert_for_retry_known min_le_iff_disj)

lemma kept_back_fold_rebuffer:
  "kept_back x (sq_state w) \<Longrightarrow> ref_key x \<notin> ref_key ` set ys \<Longrightarrow>
    kept_back x (sq_state (fold (rebuffer_one k) ys w))"
proof (induction ys arbitrary: w)
  case (Cons y ys)
  then have "kept_back x (sq_state (rebuffer_one k y w))" by (intro kept_back_rebuffer_one) auto
  with Cons show ?case by simp
qed simp

lemma fold_rebuffer_frame:
  "sq_resync (fold (rebuffer_one k) xs w) = sq_resync w" "sq_shadow (fold (rebuffer_one k) xs w) = sq_shadow w"
  "sq_unconfirmed (fold (rebuffer_one k) xs w) = sq_unconfirmed w" "pw_offers (fold (rebuffer_one k) xs w) = pw_offers w"
  by (induction xs arbitrary: w) auto

lemma fold_rebuffer:
  assumes "distinct (map ref_key xs)" and "\<forall>x\<in>set xs. \<not> in_shadow k (fst x) w"
  shows "\<exists>es. pw_side (fold (rebuffer_one k) xs w) = pw_side w @ es \<and>
    (\<forall>x\<in>set xs. if is_refused (fst x) (fst (snd x)) (sq_state w) then told_evicted x es
       else kept_back x (sq_state (fold (rebuffer_one k) xs w)))"
  using assms
proof (induction xs arbitrary: w)
  case (Cons x xs)
  let ?w = "rebuffer_one k x w"
  obtain es where es: "pw_side ?w = pw_side w @ es" "if is_refused (fst x) (fst (snd x)) (sq_state w)
      then told_evicted x es else kept_back x (sq_state ?w)"
    using rebuffer_one_effect [of k x w] Cons.prems(2) by (metis list.set_intros(1))
  obtain fs where fs: "pw_side (fold (rebuffer_one k) xs ?w) = pw_side ?w @ fs"
    "\<forall>y\<in>set xs. if is_refused (fst y) (fst (snd y)) (sq_state ?w) then told_evicted y fs
       else kept_back y (sq_state (fold (rebuffer_one k) xs ?w))"
    using Cons.IH [of ?w] Cons.prems by auto
  have "kept_back x (sq_state ?w) \<Longrightarrow> kept_back x (sq_state (fold (rebuffer_one k) xs ?w))"
    using Cons.prems(1) by (intro kept_back_fold_rebuffer) auto
  then have "\<forall>y\<in>set (x # xs). if is_refused (fst y) (fst (snd y)) (sq_state w) then told_evicted y (es @ fs)
       else kept_back y (sq_state (fold (rebuffer_one k) (x # xs) w))"
    using es(2) fs(2) by (auto split: if_splits)
  moreover have "pw_side (fold (rebuffer_one k) (x # xs) w) = pw_side w @ es @ fs"
    using es(1) fs(1) by simp
  ultimately show ?case by blast
qed simp

section \<open>The contract of the publisher\<close>

text \<open>
  A publisher takes a prefix of the batch.  When it reports no error for a batch, it took at least one
  ref of it.  Without the second law the loop over the chunks need not end.
\<close>

locale ref_publisher =
  fixes publish :: "'p publisher"
  assumes publish_prefix: "publish p refs = ((n, err), p') \<Longrightarrow> n \<le> length refs"
    and publish_progress: "publish p refs = ((n, None), p') \<Longrightarrow> refs \<noteq> [] \<Longrightarrow> 0 < n"

text \<open>
  The account of a flush of \<open>rest\<close>: \<open>taken\<close> was accepted, in order and in at most one offer more than
  there are accepted refs; \<open>left\<close> was not.
\<close>

definition flush_account ::
  "hash \<Rightarrow> drained_ref list \<Rightarrow> 'p SequencerWorld \<Rightarrow> SequencerError + unit \<Rightarrow> 'p SequencerWorld
    \<Rightarrow> drained_ref list \<Rightarrow> drained_ref list \<Rightarrow> bool" where
  "flush_account k rest w r w' taken left \<longleftrightarrow>
     rest = taken @ left \<and>
     (\<exists>os. pw_offers w' = pw_offers w @ os \<and> concat (map (\<lambda>(refs, n). take n refs) os) = map make_offer taken \<and>
        length os \<le> length taken + (if r = Inr () then 0 else 1)) \<and>
     (r = Inr () \<longrightarrow> left = []) \<and>
     (\<exists>es. pw_side w' = pw_side w @ es \<and>
        (\<forall>x\<in>set taken. StatusEvent (ts_offered (rm_tx_hash (snd (snd x))) (fst x) (fst (snd x))) \<in> set es) \<and>
        (r = Inl Backpressure \<longrightarrow> (\<forall>x\<in>set left. if is_refused (fst x) (fst (snd x)) (sq_state w)
           then told_evicted x es else kept_back x (sq_state w')))) \<and>
     (\<forall>key. key \<notin> ref_key ` set taken \<longrightarrow> entry_of (sq_unconfirmed w') key = entry_of (sq_unconfirmed w) key) \<and>
     (sq_resync w \<noteq> None \<longrightarrow> (\<forall>x\<in>set taken. \<exists>at. entry_of (sq_unconfirmed w') (ref_key x) = Some (snd (snd x), at)))"

abbreviation offered_status :: "drained_ref \<Rightarrow> SideEvent" where
  "offered_status x \<equiv> StatusEvent (ts_offered (rm_tx_hash (snd (snd x))) (fst x) (fst (snd x)))"

lemma fold_record_published_statuses:
  obtains es where "pw_side (fold record_one_published xs w) = pw_side w @ es"
    and "\<forall>x\<in>set xs. offered_status x \<in> set es"
proof (rule that [OF fold_record_published_side], rule ballI)
  fix x assume "x \<in> set xs"
  then show "offered_status x \<in> set (concat (map (\<lambda>x. [offered_status x, SentEvent (rm_tx_hash (snd (snd x)))]) xs))"
    by (auto intro!: bexI [of _ x])
qed

text \<open>The world after an offer and the record of the accepted prefix.\<close>

lemma offered_world:
  fixes w :: "'p SequencerWorld"
  assumes "w1 = w\<lparr>pw_publisher := p, pw_offers := pw_offers w @ [(refs, n)]\<rparr>"
    and "w2 = fold record_one_published taken w1"
  shows "pw_offers w2 = pw_offers w @ [(refs, n)]" and "sq_shadow w2 = sq_shadow w" and "sq_resync w2 = sq_resync w"
    and "in_shadow k a w2 = in_shadow k a w"
    and "is_refused a m (sq_state w2) \<longleftrightarrow> is_refused a m (sq_state w) \<and> (a, m) \<notin> ref_key ` set taken"
    and "key \<notin> ref_key ` set taken \<Longrightarrow> entry_of (sq_unconfirmed w2) key = entry_of (sq_unconfirmed w) key"
    and "\<exists>es. pw_side w2 = pw_side w @ es \<and> (\<forall>x\<in>set taken. offered_status x \<in> set es)"
    and "distinct (map ref_key taken) \<Longrightarrow> sq_resync w \<noteq> None \<Longrightarrow> x \<in> set taken \<Longrightarrow>
      \<exists>at. entry_of (sq_unconfirmed w2) (ref_key x) = Some (snd (snd x), at)"
proof -
  note f = fold_record_published [where xs = taken and w = w1]
  show "pw_offers w2 = pw_offers w @ [(refs, n)]" "sq_shadow w2 = sq_shadow w" "sq_resync w2 = sq_resync w"
    "is_refused a m (sq_state w2) \<longleftrightarrow> is_refused a m (sq_state w) \<and> (a, m) \<notin> ref_key ` set taken"
    using f by (simp_all add: assms)
  then show "in_shadow k a w2 = in_shadow k a w" by (simp add: in_shadow_def)
  show "entry_of (sq_unconfirmed w2) key = entry_of (sq_unconfirmed w) key" if "key \<notin> ref_key ` set taken"
    using fold_record_published_other [OF that, of w1] by (simp add: assms)
  show "\<exists>es. pw_side w2 = pw_side w @ es \<and> (\<forall>x\<in>set taken. offered_status x \<in> set es)"
    using fold_record_published_statuses [of taken w1] by (auto simp: assms)
  show "\<exists>at. entry_of (sq_unconfirmed w2) (ref_key x) = Some (snd (snd x), at)"
    if "distinct (map ref_key taken)" "sq_resync w \<noteq> None" "x \<in> set taken"
    using fold_record_published_ledger [OF that(1,3), of w1] that(2) by (simp add: assms)
qed

text \<open>One chunk that ends the flush.\<close>

lemma account_break:
  assumes "distinct (map ref_key (taken @ left))" and "\<forall>x\<in>set left. \<not> in_shadow k (fst x) w"
    and w1: "w1 = w\<lparr>pw_publisher := p, pw_offers := pw_offers w @ [(refs, n)]\<rparr>"
    and refs: "take n refs = map make_offer taken"
    and w': "w' = (if e = Backpressure then rebuffer_rest k left (fold record_one_published taken w1)
               else fold record_one_published taken w1)"
  shows "flush_account k (taken @ left) w (Inl e) w' taken left"
proof -
  define w2 where "w2 = fold record_one_published taken w1"
  note o2 = offered_world [OF w1 w2_def]
  obtain es where es: "pw_side w2 = pw_side w @ es" "\<forall>x\<in>set taken. offered_status x \<in> set es"
    using o2(7) by blast
  have dl: "distinct (map ref_key (rev left))" "distinct (map ref_key taken)"
    and apart: "\<forall>x\<in>set left. ref_key x \<notin> ref_key ` set taken"
    using assms(1) by (auto simp: rev_map [symmetric])
  obtain fs where fs: "pw_side (rebuffer_rest k left w2) = pw_side w2 @ fs"
    "\<forall>x\<in>set left. if is_refused (fst x) (fst (snd x)) (sq_state w2) then told_evicted x fs
       else kept_back x (sq_state (rebuffer_rest k left w2))"
    using fold_rebuffer [OF dl(1), of k w2] assms(2) o2(4) by (auto simp: rebuffer_rest_def)
  have w'2: "w' = (if e = Backpressure then rebuffer_rest k left w2 else w2)" by (simp add: w' w2_def)
  have offers: "pw_offers w' = pw_offers w @ [(refs, n)]"
    and ledger: "sq_unconfirmed w' = sq_unconfirmed w2"
    using o2(1) by (simp_all add: w'2 rebuffer_rest_def fold_rebuffer_frame)
  have side: "\<exists>es. pw_side w' = pw_side w @ es \<and> (\<forall>x\<in>set taken. offered_status x \<in> set es) \<and>
    (e = Backpressure \<longrightarrow> (\<forall>x\<in>set left. if is_refused (fst x) (fst (snd x)) (sq_state w)
       then told_evicted x es else kept_back x (sq_state w')))"
  proof (cases "e = Backpressure")
    case True
    have "\<forall>x\<in>set left. if is_refused (fst x) (fst (snd x)) (sq_state w)
       then told_evicted x (es @ fs) else kept_back x (sq_state w')"
      using fs(2) apart True o2(5) by (auto simp: w'2)
    with True es fs(1) show ?thesis by (intro exI [of _ "es @ fs"]) (simp add: w'2)
  qed (use es w'2 in auto)
  show ?thesis
    unfolding flush_account_def
    using offers refs side ledger o2(6) o2(8) [OF dl(2)]
    by (intro conjI exI [of _ "[(refs, n)]"]) auto
qed

text \<open>One chunk that goes on.\<close>

lemma account_continue:
  assumes "distinct (map ref_key (first @ rest))"
    and w1: "w1 = w\<lparr>pw_publisher := p, pw_offers := pw_offers w @ [(refs, n)]\<rparr>"
    and refs: "take n refs = map make_offer first" and "first \<noteq> []"
    and w2: "w2 = fold record_one_published first w1"
    and acc: "flush_account k rest w2 r w' taken left"
  shows "flush_account k (first @ rest) w r w' (first @ taken) left"
proof -
  note o2 = offered_world [OF w1 w2]
  from acc obtain os es where rest: "rest = taken @ left"
    and os: "pw_offers w' = pw_offers w2 @ os" "concat (map (\<lambda>(refs, n). take n refs) os) = map make_offer taken"
      "length os \<le> length taken + (if r = Inr () then 0 else 1)"
    and fin: "r = Inr () \<longrightarrow> left = []"
    and es: "pw_side w' = pw_side w2 @ es" "\<forall>x\<in>set taken. offered_status x \<in> set es"
      "r = Inl Backpressure \<longrightarrow> (\<forall>x\<in>set left. if is_refused (fst x) (fst (snd x)) (sq_state w2)
           then told_evicted x es else kept_back x (sq_state w'))"
    and same: "\<forall>key. key \<notin> ref_key ` set taken \<longrightarrow> entry_of (sq_unconfirmed w') key = entry_of (sq_unconfirmed w2) key"
    and new: "sq_resync w2 \<noteq> None \<longrightarrow>
      (\<forall>x\<in>set taken. \<exists>at. entry_of (sq_unconfirmed w') (ref_key x) = Some (snd (snd x), at))"
    unfolding flush_account_def by blast
  obtain fs where fs: "pw_side w2 = pw_side w @ fs" "\<forall>x\<in>set first. offered_status x \<in> set fs"
    using o2(7) by blast
  have d: "distinct (map ref_key first)" and "ref_key ` set first \<inter> (ref_key ` set taken \<union> ref_key ` set left) = {}"
    using assms(1) rest by simp_all
  then have apart: "\<forall>x\<in>set left. ref_key x \<notin> ref_key ` set first" "\<forall>x\<in>set first. ref_key x \<notin> ref_key ` set taken"
    by (meson Un_iff disjoint_iff imageI)+
  have offers: "pw_offers w' = pw_offers w @ ((refs, n) # os)" using os(1) o2(1) by simp
  have taken: "concat (map (\<lambda>(refs, n). take n refs) ((refs, n) # os)) = map make_offer (first @ taken)"
    using os(2) refs by simp
  have bound: "length ((refs, n) # os) \<le> length (first @ taken) + (if r = Inr () then 0 else 1)"
    using os(3) \<open>first \<noteq> []\<close> by (cases first) auto
  have left: "\<forall>x\<in>set left. if is_refused (fst x) (fst (snd x)) (sq_state w)
      then told_evicted x (fs @ es) else kept_back x (sq_state w')" if "r = Inl Backpressure"
    using es(3) that apart(1) o2(5) by auto
  have ledger: "\<forall>key. key \<notin> ref_key ` set (first @ taken) \<longrightarrow>
      entry_of (sq_unconfirmed w') key = entry_of (sq_unconfirmed w) key"
  proof (intro allI impI)
    fix key assume "key \<notin> ref_key ` set (first @ taken)"
    then have "key \<notin> ref_key ` set first" and "key \<notin> ref_key ` set taken" by (simp_all add: image_Un)
    then show "entry_of (sq_unconfirmed w') key = entry_of (sq_unconfirmed w) key"
      using same o2(6) [of key] by (metis (no_types))
  qed
  have held: "\<forall>x\<in>set (first @ taken). \<exists>at. entry_of (sq_unconfirmed w') (ref_key x) = Some (snd (snd x), at)"
    if "sq_resync w \<noteq> None"
    using that new o2(3) same apart(2) o2(8) [OF d that] by auto
  show ?thesis
    unfolding flush_account_def
  proof (intro conjI exI [of _ "(refs, n) # os"] exI [of _ "fs @ es"])
    show "pw_side w' = pw_side w @ fs @ es" using es(1) fs(1) by simp
    show "\<forall>x\<in>set (first @ taken). offered_status x \<in> set (fs @ es)" using es(2) fs(2) by auto
    show "r = Inl Backpressure \<longrightarrow> (\<forall>x\<in>set left. if is_refused (fst x) (fst (snd x)) (sq_state w)
        then told_evicted x (fs @ es) else kept_back x (sq_state w'))" using left by blast
    show "sq_resync w \<noteq> None \<longrightarrow> (\<forall>x\<in>set (first @ taken).
        \<exists>at. entry_of (sq_unconfirmed w') (ref_key x) = Some (snd (snd x), at))" using held by blast
    show "\<forall>key. key \<notin> ref_key ` set (first @ taken) \<longrightarrow>
        entry_of (sq_unconfirmed w') key = entry_of (sq_unconfirmed w) key" by (rule ledger)
  qed (use rest fin in \<open>simp_all only: offers taken bound append.assoc\<close>)
qed

text \<open>One turn of the loop.\<close>

lemma flush_loop_step:
  assumes "rest \<noteq> []" and refs: "refs = map make_offer (take (min BATCH_MAX (length rest)) rest)"
    and pub: "publish (pw_publisher w) refs = ((n, err), p)" and "n \<le> length rest"
    and w1: "w1 = w\<lparr>pw_publisher := p, pw_offers := pw_offers w @ [(refs, n)]\<rparr>"
    and w2: "w2 = fold record_one_published (take n rest) w1"
  shows "err = None \<Longrightarrow> flush_loop k publish rest w = flush_loop k publish (drop n rest) w2"
    and "err = Some e \<Longrightarrow> flush_loop k publish rest w =
      Some (Inl e, if e = Backpressure then rebuffer_rest k (drop n rest) w2 else w2)"
proof -
  have "flush_chunk k publish rest w = Some (case err of
      None \<Rightarrow> (FlushContinue, drop n rest, w2)
    | Some Backpressure \<Rightarrow> (FlushBreak (Inl Backpressure), [], rebuffer_rest k (drop n rest) w2)
    | Some e \<Rightarrow> (FlushBreak (Inl e), drop n rest, w2))"
    using assms(4) pub unfolding w2
    by (simp add: flush_chunk_def offer_batch_def Let_def refs [symmetric] w1 [symmetric])
  with assms(1) show "err = None \<Longrightarrow> flush_loop k publish rest w = flush_loop k publish (drop n rest) w2"
    and "err = Some e \<Longrightarrow> flush_loop k publish rest w =
      Some (Inl e, if e = Backpressure then rebuffer_rest k (drop n rest) w2 else w2)"
    by (auto simp: flush_loop.simps [of k publish rest] split: SequencerError.splits)
qed

context ref_publisher
begin

text \<open>The loop ends after at most one offer per ref.\<close>

lemma flush_loop_returns:
  "\<exists>r w' os. flush_loop k publish rest w = Some (r, w') \<and> pw_offers w' = pw_offers w @ os \<and> length os \<le> length rest"
proof (induction rest arbitrary: w rule: length_induct)
  case (1 rest)
  show ?case
  proof (cases "rest = []")
    case False
    define refs where "refs = map make_offer (take (min BATCH_MAX (length rest)) rest)"
    obtain n err p where pub: "publish (pw_publisher w) refs = ((n, err), p)" by (metis prod.collapse)
    define w1 where "w1 = w\<lparr>pw_publisher := p, pw_offers := pw_offers w @ [(refs, n)]\<rparr>"
    define w2 where "w2 = fold record_one_published (take n rest) w1"
    have "n \<le> length refs" by (rule publish_prefix [OF pub])
    then have len: "n \<le> length rest" by (simp add: refs_def)
    note step = flush_loop_step [where publish = publish and w = w and k = k, OF False refs_def pub len w1_def w2_def]
    have offers: "pw_offers w2 = pw_offers w @ [(refs, n)]"
      "pw_offers (rebuffer_rest k xs w2) = pw_offers w @ [(refs, n)]" for xs
      using offered_world(1) [OF w1_def w2_def] by (simp_all add: rebuffer_rest_def fold_rebuffer_frame)
    show ?thesis
    proof (cases err)
      case None
      then have "0 < n" using publish_progress [of "pw_publisher w" refs n p] pub False
        by (auto simp: refs_def BATCH_MAX_def)
      then have short: "length (drop n rest) < length rest" using False by auto
      obtain r w' os where rec: "flush_loop k publish (drop n rest) w2 = Some (r, w')"
        "pw_offers w' = pw_offers w2 @ os" "length os \<le> length (drop n rest)"
        using "1.IH" [rule_format, OF short, of w2] by blast
      then have "flush_loop k publish rest w = Some (r, w')" "pw_offers w' = pw_offers w @ (refs, n) # os"
        "length ((refs, n) # os) \<le> length rest"
        using None offers short by (simp_all add: step)
      then show ?thesis by blast
    next
      case (Some e)
      let ?w = "if e = Backpressure then rebuffer_rest k (drop n rest) w2 else w2"
      have "flush_loop k publish rest w = Some (Inl e, ?w)"
        using Some by (simp add: step)
      moreover have "pw_offers ?w = pw_offers w @ [(refs, n)]" using offers by simp
      moreover have "length [(refs, n)] \<le> length rest" using False by (cases rest) auto
      ultimately show ?thesis by blast
    qed
  qed (simp add: flush_loop.simps)
qed

lemma flush_drained_returns:
  "\<exists>r w' os. flush_drained k publish items w = Some (r, w') \<and> pw_offers w' = pw_offers w @ os \<and>
     length os \<le> length items"
  using flush_loop_returns [of k "suppress_shadow k items w" w]
  by (fastforce simp: flush_drained_def suppress_shadow_def intro: order_trans [OF _ length_filter_le] split: if_splits)

lemma flush_loop_accounts:
  assumes "distinct (map ref_key rest)" and "\<forall>x\<in>set rest. \<not> in_shadow k (fst x) w"
  shows "\<exists>r w' taken left. flush_loop k publish rest w = Some (r, w') \<and> flush_account k rest w r w' taken left"
  using assms
proof (induction rest arbitrary: w rule: length_induct)
  case (1 rest)
  show ?case
  proof (cases "rest = []")
    case True
    have "flush_account k rest w (Inr ()) w [] []" using True by (simp add: flush_account_def)
    moreover have "flush_loop k publish rest w = Some (Inr (), w)" using True by (simp add: flush_loop.simps)
    ultimately show ?thesis by blast
  next
    case False
    define refs where "refs = map make_offer (take (min BATCH_MAX (length rest)) rest)"
    obtain n err p where pub: "publish (pw_publisher w) refs = ((n, err), p)" by (metis prod.collapse)
    define w1 where "w1 = w\<lparr>pw_publisher := p, pw_offers := pw_offers w @ [(refs, n)]\<rparr>"
    define w2 where "w2 = fold record_one_published (take n rest) w1"
    have le: "n \<le> length refs" by (rule publish_prefix [OF pub])
    then have len: "n \<le> length rest" and pre: "take n refs = map make_offer (take n rest)"
      by (auto simp: refs_def take_map min_def split: if_splits)
    have split: "rest = take n rest @ drop n rest" by simp
    have d: "distinct (map ref_key (take n rest @ drop n rest))" using "1.prems"(1) by simp
    have light: "\<forall>x\<in>set (drop n rest). \<not> in_shadow k (fst x) w" using "1.prems"(2) by (meson in_set_dropD)
    note step = flush_loop_step [where publish = publish and w = w and k = k, OF False refs_def pub len w1_def w2_def]
    show ?thesis
    proof (cases err)
      case None
      then have "0 < n" using publish_progress [of "pw_publisher w" refs n p] pub False
        by (auto simp: refs_def BATCH_MAX_def)
      then have ne: "take n rest \<noteq> []" and short: "length (drop n rest) < length rest" using False by auto
      have light2: "\<forall>x\<in>set (drop n rest). \<not> in_shadow k (fst x) w2"
        using light offered_world(4) [OF w1_def w2_def] by simp
      obtain r w' taken left where rec: "flush_loop k publish (drop n rest) w2 = Some (r, w')"
        "flush_account k (drop n rest) w2 r w' taken left"
        using "1.IH" [rule_format, OF short, of w2] light2 "1.prems"(1) by (auto simp: drop_map [symmetric])
      have "flush_loop k publish rest w = Some (r, w')"
        using None rec(1) by (simp add: step)
      moreover have "flush_account k rest w r w' (take n rest @ taken) left"
        using account_continue [OF d w1_def pre ne w2_def rec(2)] by simp
      ultimately show ?thesis by blast
    next
      case (Some e)
      let ?w = "if e = Backpressure then rebuffer_rest k (drop n rest) w2 else w2"
      have "flush_loop k publish rest w = Some (Inl e, ?w)"
        using Some by (simp add: step)
      moreover have "flush_account k rest w (Inl e) ?w (take n rest) (drop n rest)"
        using account_break [OF d light w1_def pre, of ?w e] by (simp add: w2_def)
      ultimately show ?thesis by blast
    qed
  qed
qed

lemma flush_drained_accounts:
  assumes "distinct (map ref_key items)"
  shows "\<exists>r w' taken left. flush_drained k publish items w = Some (r, w') \<and>
    flush_account k (suppress_shadow k items w) w r w' taken left"
proof -
  have "distinct (map ref_key (suppress_shadow k items w))"
    using assms by (auto simp: suppress_shadow_def distinct_map inj_on_def)
  moreover have "\<forall>x\<in>set (suppress_shadow k items w). \<not> in_shadow k (fst x) w"
    by (auto simp: suppress_shadow_def in_shadow_def)
  ultimately show ?thesis unfolding flush_drained_def by (rule flush_loop_accounts)
qed

end

end
