(* ===== verification/Cluster_Publisher.thy ===== *)
theory Cluster_Publisher
  imports Sequencer_Flush Byte_Words
begin

text \<open>
  The publisher of refs over the cluster ingress (\<open>crates/sequencer/src/outbound/cluster.rs\<close>), with the
  frames that it offers (\<open>crates/cluster-adapter/src/wire/ingress.rs\<close>, \<open>wire/entry.rs\<close>, \<open>wire/mod.rs\<close>).
  The parameter \<open>ingress\<close> stands for the session of the Aeron Cluster: it answers an offered payload.
\<close>

section \<open>Frames\<close>

datatype WireError =
    TooShort nat nat nat
  | BadEgressKind u8
  | BadRecordType u8
  | BadPayloadLen nat nat
  | BadEpoch string
  | BadRemoteEpoch string
  | BatchTooLarge nat
  | EntryTooLarge nat
  | LenOverflow u32
  | BadTx string
  | UnrelayedRecordType u8
  | BadIngressKind u8

abbreviation (input) KIND_INGRESS_RECORD :: u8 where "KIND_INGRESS_RECORD \<equiv> 0"
abbreviation (input) KIND_BATCH :: u8 where "KIND_BATCH \<equiv> 3"
abbreviation (input) RT_TXREF :: u8 where "RT_TXREF \<equiv> 0"
abbreviation (input) RT_TXREF_OFFER :: u8 where "RT_TXREF_OFFER \<equiv> 7"

definition SENDER_LEN :: nat where "SENDER_LEN = 20"

definition INGRESS_SENDER_OFFSET :: nat where "INGRESS_SENDER_OFFSET = 1"

definition INGRESS_NONCE_OFFSET :: nat where "INGRESS_NONCE_OFFSET = INGRESS_SENDER_OFFSET + SENDER_LEN"

definition INGRESS_DEADLINE_OFFSET :: nat where "INGRESS_DEADLINE_OFFSET = INGRESS_NONCE_OFFSET + 8"

definition INGRESS_TIP_OFFSET :: nat where "INGRESS_TIP_OFFSET = INGRESS_DEADLINE_OFFSET + 8"

definition INGRESS_CANONICAL_ID_OFFSET :: nat where "INGRESS_CANONICAL_ID_OFFSET = INGRESS_TIP_OFFSET + 16"

definition TXREF_RECORD_LEN :: nat where
  "TXREF_RECORD_LEN = INGRESS_CANONICAL_ID_OFFSET + 32 + 1 + 1 + 4 + 4 + 4"

lemmas offset_defs = INGRESS_SENDER_OFFSET_def INGRESS_NONCE_OFFSET_def INGRESS_DEADLINE_OFFSET_def
  INGRESS_TIP_OFFSET_def INGRESS_CANONICAL_ID_OFFSET_def SENDER_LEN_def TXREF_RECORD_LEN_def

definition guard_write :: "GuardHeader \<Rightarrow> u8 list" where
  "guard_write g = be_bytes 20 (gh_sender g) @ le_bytes 8 (gh_nonce g) @ le_bytes 8 (gh_max_inclusion_block g) @
     le_bytes 16 (gh_tip g)"

definition write_reference :: "GuardHeader \<Rightarrow> TxRef \<Rightarrow> u8 \<Rightarrow> u8 list" where
  "write_reference g r record_type =
     [KIND_INGRESS_RECORD] @ guard_write g @ be_bytes 32 (ref_tx_hash r) @ [record_type] @ [ref_shard_id r] @
     le_bytes 4 (term_id (ref_position r)) @ le_bytes 4 (term_offset (ref_position r)) @ le_bytes 4 (ref_session_id r)"

definition encode_ingress_txref :: "TxRef \<Rightarrow> GuardHeader \<Rightarrow> u8 list" where
  "encode_ingress_txref r guard = write_reference guard r RT_TXREF"

definition txref_offer_encode :: "GuardHeader \<Rightarrow> TxRef \<Rightarrow> u8 list \<Rightarrow> u8 list" where
  "txref_offer_encode guard reference envelope = write_reference guard reference RT_TXREF_OFFER @ envelope"

fun encode_entries :: "u8 list list \<Rightarrow> WireError + u8 list" where
  "encode_entries [] = Inr []"
| "encode_entries (e # es) =
     (if length e < 2 ^ 32
      then map_sum (\<lambda>x. x) (\<lambda>rest. le_bytes 4 (of_nat (length e) :: u32) @ e @ rest) (encode_entries es)
      else Inl (EntryTooLarge (length e)))"

definition encode_ingress_batch :: "u8 list list \<Rightarrow> WireError + u8 list" where
  "encode_ingress_batch entries =
     (if length entries < 2 ^ 16
      then map_sum (\<lambda>x. x) (\<lambda>body. [KIND_BATCH] @ le_bytes 2 (of_nat (length entries) :: u16) @ body)
             (encode_entries entries)
      else Inl (BatchTooLarge (length entries)))"

definition too_short :: "u8 list \<Rightarrow> nat \<Rightarrow> nat \<Rightarrow> WireError" where
  "too_short b at need = TooShort at need (length b - at)"

definition rd_slice :: "u8 list \<Rightarrow> nat \<Rightarrow> nat \<Rightarrow> WireError + u8 list" where
  "rd_slice b at len =
     (if at + len \<le> length b then Inr (take len (drop at b)) else Inl (too_short b at len))"

definition rd_u64 :: "u8 list \<Rightarrow> nat \<Rightarrow> WireError + u64" where
  "rd_u64 b at = map_sum (\<lambda>x. x) from_le (rd_slice b at 8)"

definition rd_u128 :: "u8 list \<Rightarrow> nat \<Rightarrow> WireError + u128" where
  "rd_u128 b at = map_sum (\<lambda>x. x) from_le (rd_slice b at 16)"

definition ingress_sender_nonce :: "u8 list \<Rightarrow> WireError + (address \<times> u64)" where
  "ingress_sender_nonce buf =
     (case rd_slice buf INGRESS_SENDER_OFFSET SENDER_LEN of
        Inl e \<Rightarrow> Inl e
      | Inr sender \<Rightarrow> map_sum (\<lambda>x. x) (\<lambda>n. (from_be sender, n)) (rd_u64 buf INGRESS_NONCE_OFFSET))"

definition ingress_deadline :: "u8 list \<Rightarrow> WireError + u64" where
  "ingress_deadline buf = rd_u64 buf INGRESS_DEADLINE_OFFSET"

definition ingress_tip :: "u8 list \<Rightarrow> WireError + u128" where
  "ingress_tip buf = rd_u128 buf INGRESS_TIP_OFFSET"

definition guard_read :: "u8 list \<Rightarrow> WireError + GuardHeader" where
  "guard_read buf =
     (case ingress_sender_nonce buf of
        Inl e \<Rightarrow> Inl e
      | Inr (sender, nonce) \<Rightarrow>
          (case ingress_deadline buf of
             Inl e \<Rightarrow> Inl e
           | Inr deadline \<Rightarrow>
               (case ingress_tip buf of
                  Inl e \<Rightarrow> Inl e
                | Inr tip \<Rightarrow> Inr \<lparr>gh_sender = sender, gh_nonce = nonce, gh_max_inclusion_block = deadline, gh_tip = tip\<rparr>)))"

definition split_ingress :: "u8 list \<Rightarrow> WireError + (u8 list \<times> u8 list)" where
  "split_ingress buf =
     (if INGRESS_CANONICAL_ID_OFFSET \<le> length buf
      then let payload = drop INGRESS_CANONICAL_ID_OFFSET buf
           in map_sum (\<lambda>x. x) (\<lambda>cid. (cid, payload)) (rd_slice payload 0 32)
      else Inl (too_short buf INGRESS_CANONICAL_ID_OFFSET 0))"

section \<open>The publisher\<close>

datatype OfferOutcome = Accepted | BackPressured | NotConnected | TooLarge nat

function show_nat :: "nat \<Rightarrow> string" where
  "show_nat n = (if n < 10 then [char_of (48 + n)] else show_nat (n div 10) @ [char_of (48 + n mod 10)])"
  by pat_completeness auto
termination
  by (relation "measure id") auto

declare show_nat.simps [simp del]

definition wire_error_text :: "WireError \<Rightarrow> string" where
  "wire_error_text e =
     (case e of
        TooShort at need rest \<Rightarrow>
          ''buffer too short: need '' @ show_nat need @ '' at offset '' @ show_nat at @ '', have '' @ show_nat rest
      | BadEgressKind n \<Rightarrow> ''unknown egress kind '' @ show_nat (unat n)
      | BadRecordType n \<Rightarrow> ''unknown record type '' @ show_nat (unat n)
      | BadPayloadLen declared remaining \<Rightarrow>
          ''declared payload_len '' @ show_nat declared @ '' exceeds remaining '' @ show_nat remaining
      | BadEpoch t \<Rightarrow> ''bad epoch record: '' @ t
      | BadRemoteEpoch t \<Rightarrow> ''bad remote epoch record: '' @ t
      | BatchTooLarge n \<Rightarrow> ''batch entry count '' @ show_nat n @ '' overflows the u16 wire count''
      | EntryTooLarge n \<Rightarrow> ''length '' @ show_nat n @ '' overflows the u32 wire length prefix''
      | LenOverflow n \<Rightarrow> ''declared length '' @ show_nat (unat n) @ '' does not fit in this platform's usize''
      | BadTx t \<Rightarrow> ''bad canonical entry: '' @ t
      | UnrelayedRecordType n \<Rightarrow>
          ''record type '' @ show_nat (unat n) @ '' is an ingress type that the sealer never relays''
      | BadIngressKind n \<Rightarrow> ''ingress kind '' @ show_nat (unat n) @ '' is not a record'')"

definition cluster_offer ::
  "('i \<Rightarrow> u8 list \<Rightarrow> OfferOutcome \<times> 'i) \<Rightarrow> 'i \<Rightarrow> u8 list \<Rightarrow> SequencerError option \<times> 'i" where
  "cluster_offer ingress i bytes =
     (case ingress i bytes of
        (Accepted, i') \<Rightarrow> (None, i')
      | (BackPressured, i') \<Rightarrow> (Some Backpressure, i')
      | (NotConnected, i') \<Rightarrow> (Some Backpressure, i')
      | (TooLarge len, i') \<Rightarrow>
          (Some (EncodeFailed (''cluster frame of '' @ show_nat len @ '' bytes exceeds one session message'')), i'))"

definition entry_bytes :: "RefOffer \<Rightarrow> u8 list" where
  "entry_bytes offer =
     (case ro_envelope offer of
        Some envelope \<Rightarrow> txref_offer_encode (ro_guard offer) (ro_tx_ref offer) envelope
      | None \<Rightarrow> encode_ingress_txref (ro_tx_ref offer) (ro_guard offer))"

definition BATCH_BYTES :: nat where
  "BATCH_BYTES = 64 * 1024"

text \<open>The \<open>take_while\<close> over the entries, with the running sum of their lengths.\<close>

fun batch_entries :: "nat \<Rightarrow> u8 list list \<Rightarrow> u8 list list" where
  "batch_entries bytes [] = []"
| "batch_entries bytes (entry # rest) =
     (let bytes = bytes + length entry
      in if bytes \<le> BATCH_BYTES \<or> bytes = length entry then entry # batch_entries bytes rest else [])"

definition cluster_offer_batch ::
  "('i \<Rightarrow> u8 list \<Rightarrow> OfferOutcome \<times> 'i) \<Rightarrow> 'i \<Rightarrow> RefOffer list \<Rightarrow> (nat \<times> SequencerError option) \<times> 'i" where
  "cluster_offer_batch ingress i many =
     (let entries = batch_entries 0 (map entry_bytes many)
      in case encode_ingress_batch entries of
           Inl err \<Rightarrow> ((0, Some (EncodeFailed (''batch: '' @ wire_error_text err))), i)
         | Inr frame \<Rightarrow>
             (case cluster_offer ingress i frame of
                (None, i') \<Rightarrow> ((length entries, None), i')
              | (Some e, i') \<Rightarrow> ((0, Some e), i')))"

definition cluster_publish_ref ::
  "('i \<Rightarrow> u8 list \<Rightarrow> OfferOutcome \<times> 'i) \<Rightarrow> 'i \<Rightarrow> RefOffer \<Rightarrow> SequencerError option \<times> 'i" where
  "cluster_publish_ref ingress i offer = cluster_offer ingress i (entry_bytes offer)"

definition cluster_publish_batch ::
  "('i \<Rightarrow> u8 list \<Rightarrow> OfferOutcome \<times> 'i) \<Rightarrow> 'i \<Rightarrow> RefOffer list \<Rightarrow> (nat \<times> SequencerError option) \<times> 'i" where
  "cluster_publish_batch ingress i refs =
     (case refs of
        [] \<Rightarrow> ((0, None), i)
      | [one] \<Rightarrow>
          (case cluster_publish_ref ingress i one of
             (None, i') \<Rightarrow> ((1, None), i')
           | (Some e, i') \<Rightarrow> ((0, Some e), i'))
      | _ \<Rightarrow> cluster_offer_batch ingress i refs)"

section \<open>The publishers keep the contract\<close>

lemma batch_entries_prefix: "prefix (batch_entries n es) es"
  by (induction n es rule: batch_entries.induct) (auto simp: Let_def)

lemma batch_entries_progress: "es \<noteq> [] \<Longrightarrow> batch_entries 0 es \<noteq> []"
  by (cases es) (auto simp: Let_def)

lemma length_batch_entries: "length (batch_entries n (map f xs)) \<le> length xs"
  using prefix_length_le [OF batch_entries_prefix, of n "map f xs"] by simp

interpretation cluster_refs: ref_publisher "cluster_publish_batch ingress" for ingress
proof unfold_locales
  fix p refs n err p'
  assume run: "cluster_publish_batch ingress p refs = ((n, err), p')"
  then show "n \<le> length refs"
    by (auto simp: cluster_publish_batch_def cluster_offer_batch_def Let_def length_batch_entries
        split: list.splits sum.splits option.splits prod.splits)
next
  fix p refs n p'
  assume run: "cluster_publish_batch ingress p refs = ((n, None), p')" and "refs \<noteq> []"
  then show "0 < n"
    using batch_entries_progress [of "map entry_bytes refs"]
    by (auto simp: cluster_publish_batch_def cluster_offer_batch_def Let_def
        split: list.splits sum.splits option.splits prod.splits)
qed

lemma try_publish_ref_batch_length:
  "try_publish_ref_batch f p refs = ((n, err), p') \<Longrightarrow> n \<le> length refs \<and> (err = None \<longrightarrow> n = length refs)"
  by (induction f p refs arbitrary: n err p' rule: try_publish_ref_batch.induct)
    (fastforce split: prod.splits option.splits)+

interpretation single_refs: ref_publisher "try_publish_ref_batch publish_ref" for publish_ref
  by unfold_locales (use try_publish_ref_batch_length in fastforce)+

section \<open>The flush over these publishers\<close>

text \<open>
  C5.  The loop over the chunks of a flush always ends, over the cluster publisher and whatever the
  session answers.  It offers at most once per ref.  Each offer without an error takes at least one ref,
  also when the first entry alone is over the byte limit of a batch.
\<close>

theorem flush_returns:
  "\<exists>r w' os. flush_drained k (cluster_publish_batch ingress) items w = Some (r, w') \<and>
     pw_offers w' = pw_offers w @ os \<and> length os \<le> length items"
  by (rule cluster_refs.flush_drained_returns)


text \<open>A loop just after its start, with default settings, over a session that answers back pressure.\<close>

definition example_world :: "ShadowWindow option \<Rightarrow> unit SequencerWorld" where
  "example_world win = \<lparr>
     sq_cfg = SequencerConfig_default, sq_state = ps_new 16 1000, sq_resync = None, sq_unconfirmed = ledger_new,
     sq_nonce_ahead = naw_new 0, sq_lookup = False, sq_vslots = vs_full, sq_shadow = win, sq_depth = depth_new 0,
     sq_pause = \<lparr>pg_wired = False, pg_paused = False\<rparr>, sq_fees = fg_off, sq_sealer_version = 0,
     pw_clock = (\<lambda>_. 5), pw_reads = 0, pw_tx_data = [], pw_slots = [], pw_publisher = (), pw_offers = [],
     pw_side = [], pw_lookups = []\<rparr>"

definition busy_session :: "unit \<Rightarrow> u8 list \<Rightarrow> OfferOutcome \<times> unit" where
  "busy_session i bytes = (BackPressured, ())"

definition example_meta :: RefMetadata where
  "example_meta = \<lparr>rm_correlation_id = 1, rm_tx_hash = 5, rm_lane = 2, rm_tx_data_position = BPosition 0 64,
     rm_tx_data_session_id = 9, rm_max_inclusion_block = 100, rm_tip = 3\<rparr>"


lemma length_guard_write [simp]: "length (guard_write g) = 52"
  by (simp add: guard_write_def)

lemma length_write_reference [simp]: "length (write_reference g r t) = 99"
  by (simp add: write_reference_def)

lemma rd_slice_append:
  "at = length pre \<Longrightarrow> n = length bs \<Longrightarrow> rd_slice (pre @ bs @ rest) at n = Inr bs"
  by (simp add: rd_slice_def)

lemma guard_read_write: "guard_read (KIND_INGRESS_RECORD # guard_write g @ payload) = Inr g"
proof -
  let ?k = "[KIND_INGRESS_RECORD]" and ?s = "be_bytes 20 (gh_sender g)" and ?n = "le_bytes 8 (gh_nonce g)"
    and ?d = "le_bytes 8 (gh_max_inclusion_block g)" and ?t = "le_bytes 16 (gh_tip g)"
  let ?b = "KIND_INGRESS_RECORD # guard_write g @ payload"
  have "rd_slice ?b 1 20 = Inr ?s" "rd_slice ?b 21 8 = Inr ?n" "rd_slice ?b 29 8 = Inr ?d" "rd_slice ?b 37 16 = Inr ?t"
    using rd_slice_append [of 1 ?k 20 ?s "?n @ ?d @ ?t @ payload"]
      rd_slice_append [of 21 "?k @ ?s" 8 ?n "?d @ ?t @ payload"]
      rd_slice_append [of 29 "?k @ ?s @ ?n" 8 ?d "?t @ payload"]
      rd_slice_append [of 37 "?k @ ?s @ ?n @ ?d" 16 ?t payload]
    by (simp_all add: guard_write_def)
  then show ?thesis
    by (simp add: guard_read_def ingress_sender_nonce_def ingress_deadline_def ingress_tip_def rd_u64_def rd_u128_def
        offset_defs from_be_be_bytes from_le_le_bytes)
qed

text \<open>
  C34.  The sealer's view of an offered frame: the guard header, the canonical id and the relayed payload
  that the readers take out of the frame of a reference are what the publisher put in.
\<close>

theorem offered_frame_round_trip:
  "guard_read (entry_bytes offer) = Inr (ro_guard offer) \<and>
   (\<exists>payload. split_ingress (entry_bytes offer) = Inr (be_bytes 32 (ref_tx_hash (ro_tx_ref offer)), payload) \<and>
      entry_bytes offer = 0 # guard_write (ro_guard offer) @ payload)"
proof -
  let ?cid = "be_bytes 32 (ref_tx_hash (ro_tx_ref offer))"
  obtain rest where e: "entry_bytes offer = 0 # guard_write (ro_guard offer) @ ?cid @ rest"
    by (cases "ro_envelope offer")
      (simp_all add: entry_bytes_def txref_offer_encode_def encode_ingress_txref_def write_reference_def)
  then have "split_ingress (entry_bytes offer) = Inr (?cid, ?cid @ rest)"
    by (simp add: split_ingress_def offset_defs rd_slice_def)
  with e guard_read_write [of "ro_guard offer" "?cid @ rest"] show ?thesis by simp
qed

lemma batch_entries_all:
  "n + sum_list (map length es) \<le> BATCH_BYTES \<Longrightarrow> batch_entries n es = es"
  by (induction n es rule: batch_entries.induct) (auto simp: Let_def)

lemma encode_entries_length:
  "\<forall>e\<in>set es. length e = l \<Longrightarrow> l < 2 ^ 32 \<Longrightarrow>
    \<exists>body. encode_entries es = Inr body \<and> length body = (4 + l) * length es"
  by (induction es) auto

text \<open>
  C35.  A full chunk of refs without bytes goes out whole in one frame of 103 bytes per ref and three
  more: at most 1342 bytes, as the chunk size assumes.
\<close>

theorem chunk_fits_one_frame:
  assumes "length refs \<le> BATCH_MAX" and "list_all (\<lambda>r. ro_envelope r = None) refs"
  shows "\<exists>frame. encode_ingress_batch (batch_entries 0 (map entry_bytes refs)) = Inr frame \<and>
    batch_entries 0 (map entry_bytes refs) = map entry_bytes refs \<and>
    length frame = 103 * length refs + 3 \<and> length frame \<le> 1342"
proof -
  have len: "\<forall>e\<in>set (map entry_bytes refs). length e = 99"
    using assms(2) by (auto simp: list_all_iff entry_bytes_def encode_ingress_txref_def)
  then have "sum_list (map length (map entry_bytes refs)) = 99 * length refs"
    by (simp add: sum_list_triv cong: map_cong)
  then have all: "batch_entries 0 (map entry_bytes refs) = map entry_bytes refs"
    using assms(1) by (intro batch_entries_all) (simp add: BATCH_BYTES_def BATCH_MAX_def)
  obtain body where "encode_entries (map entry_bytes refs) = Inr body" "length body = 103 * length refs"
    using encode_entries_length [OF len] by auto
  with assms(1) all show ?thesis by (simp add: encode_ingress_batch_def BATCH_MAX_def)
qed

definition some_offer :: "u64 \<Rightarrow> RefOffer" where
  "some_offer n = make_offer (7, n, example_meta)"

theorem chunk_fits_one_frame_witness:
  "\<exists>frame. encode_ingress_batch (batch_entries 0 (map entry_bytes (map some_offer [0, 1, 2]))) = Inr frame \<and>
    batch_entries 0 (map entry_bytes (map some_offer [0, 1, 2])) = map entry_bytes (map some_offer [0, 1, 2]) \<and>
    length frame = 103 * length (map some_offer [0, 1, 2]) + 3 \<and> length frame \<le> 1342"
  by (rule chunk_fits_one_frame) (simp_all add: some_offer_def make_offer_def BATCH_MAX_def)

end
