(* ===== verification/Sequencer_Shadow.thy ===== *)
theory Sequencer_Shadow
  imports Cluster_Publisher
begin

text \<open>
  The shadow mode of a resize over whole runs of the loop.  While the warm-up of a slot lasts, the state
  machine runs for its senders and nothing goes out for them: no ref, no error, no status, no drop.  Each
  method is shown to keep the relation \<open>quiet\<close> between the worlds before and after it; the relation
  composes, so it holds for a run.
\<close>

section \<open>The relation\<close>

fun side_about :: "address \<Rightarrow> SideEvent \<Rightarrow> bool" where
  "side_about a (ErrorEvent e) \<longleftrightarrow> te_sender e = a"
| "side_about a (StatusEvent s) \<longleftrightarrow> map_option fst (stage_identity (ts_stage s)) = Some a"
| "side_about a (DropEvent d) \<longleftrightarrow> td_sender d = a"
| "side_about a (SentEvent _) \<longleftrightarrow> False"
| "side_about a FlushEvents \<longleftrightarrow> False"

definition voiced :: "address \<Rightarrow> 'p SequencerWorld \<Rightarrow> SideEvent list \<times> RefOffer list" where
  "voiced a w = (filter (side_about a) (pw_side w),
     filter (\<lambda>o1. gh_sender (ro_guard o1) = a) (concat (map fst (pw_offers w))))"

definition quiet :: "hash \<Rightarrow> 'p SequencerWorld \<Rightarrow> 'p SequencerWorld \<Rightarrow> bool" where
  "quiet k w w' \<longleftrightarrow> pw_clock w' = pw_clock w \<and>
     (sq_shadow w' = sq_shadow w \<or>
      sq_shadow w' = None \<and> (\<exists>win i. sq_shadow w = Some win \<and> sh_until win \<le> pw_clock w i)) \<and>
     (\<forall>a. in_shadow k a w' \<longrightarrow> voiced a w' = voiced a w)"

lemma quiet_refl [simp, intro]: "quiet k w w"
  by (simp add: quiet_def)

lemma in_shadow_cong: "sq_shadow w' = sq_shadow w \<Longrightarrow> in_shadow k a w' = in_shadow k a w"
  by (simp add: in_shadow_def)

lemma quiet_trans [trans]:
  assumes "quiet k w w1" and "quiet k w1 w2"
  shows "quiet k w w2"
proof -
  have "in_shadow k a w1" if "in_shadow k a w2" for a
    using assms(2) that in_shadow_cong [of w2 w1 k a] by (auto simp: quiet_def in_shadow_def)
  then have "\<forall>a. in_shadow k a w2 \<longrightarrow> voiced a w2 = voiced a w" using assms by (auto simp: quiet_def)
  moreover have "pw_clock w2 = pw_clock w" using assms by (simp add: quiet_def)
  moreover have "sq_shadow w2 = sq_shadow w \<or>
      sq_shadow w2 = None \<and> (\<exists>win i. sq_shadow w = Some win \<and> sh_until win \<le> pw_clock w i)"
  proof (cases "sq_shadow w2 = sq_shadow w1")
    case False
    then obtain win i where "sq_shadow w2 = None" "sq_shadow w1 = Some win" "sh_until win \<le> pw_clock w i"
      using assms by (auto simp: quiet_def)
    moreover from this have "sq_shadow w = Some win" using assms(1) by (simp add: quiet_def)
    ultimately show ?thesis by blast
  qed (use assms(1) in \<open>simp add: quiet_def\<close>)
  ultimately show ?thesis unfolding quiet_def by blast
qed

lemma quiet_same:
  "pw_clock w' = pw_clock w \<Longrightarrow> sq_shadow w' = sq_shadow w \<Longrightarrow> pw_side w' = pw_side w \<Longrightarrow>
    pw_offers w' = pw_offers w \<Longrightarrow> quiet k w w'"
  by (simp add: quiet_def voiced_def)

lemma quiet_fold: "(\<And>x w. quiet k w (f x w)) \<Longrightarrow> quiet k w (fold f xs w)"
  by (induction xs arbitrary: w) (auto intro: quiet_trans)

text \<open>For the chain of a method body: what was done before, then one more step.\<close>

lemma quiet_step: "quiet k w w1 \<Longrightarrow> (\<And>u. quiet k u (f u)) \<Longrightarrow> quiet k w (f w1)"
  by (blast intro: quiet_trans)

lemma quiet_emit: "(\<And>a. side_about a e \<Longrightarrow> \<not> in_shadow k a w) \<Longrightarrow> quiet k w (emit e w)"
  by (auto simp: quiet_def voiced_def emit_def in_shadow_def)

section \<open>Every method is quiet\<close>

named_theorems quiet_rules

lemma quiet_publish_error [quiet_rules]: "quiet k w (publish_error k e w)"
  by (auto simp: publish_error_def intro!: quiet_emit)

lemma quiet_publish_rejection [quiet_rules]: "quiet k w (publish_rejection k h e w)"
proof (cases "in_shadow k (te_sender e) w")
  case False
  then show ?thesis
    by (auto simp: publish_rejection_def Let_def ts_rejected_def intro!: quiet_trans [OF _ quiet_emit] quiet_emit)
qed (simp add: publish_rejection_def)

lemma quiet_publish_proven_drop [quiet_rules]: "quiet k w (publish_proven_drop k ob w)"
  by (auto simp: publish_proven_drop_def intro!: quiet_emit)

lemma quiet_reports [quiet_rules]:
  "quiet k w (report_expired k x w)" "quiet k w (report_fee_reject k ob reason w)"
  "quiet k w (report_evicted k a n h w)" "quiet k w (report_duplicate k ob n expected w)"
  by (auto simp: report_expired_def report_fee_reject_def report_evicted_def report_duplicate_def case_prod_unfold
      intro: quiet_rules)

lemma quiet_request_lookup [quiet_rules]: "quiet k w (request_lookup a w)"
  by (rule quiet_same) (simp_all add: request_lookup_def Let_def)

lemma quiet_updates [quiet_rules]:
  "quiet k w (w\<lparr>sq_state := s\<rparr>)" "quiet k w (w\<lparr>sq_unconfirmed := l\<rparr>)" "quiet k w (w\<lparr>sq_resync := r\<rparr>)"
  "quiet k w (w\<lparr>sq_nonce_ahead := na\<rparr>)" "quiet k w (w\<lparr>sq_depth := d\<rparr>)" "quiet k w (w\<lparr>pw_tx_data := t\<rparr>)"
  "quiet k w (snd (read_clock w))" "quiet k w (snd (gate_paused w))" "quiet k w (snd (poll_tx_data w))"
  by (rule quiet_same;
      simp add: read_clock_def gate_paused_def poll_tx_data_def split: list.splits option.splits)+

lemmas quiet_after = quiet_rules [THEN quiet_trans [rotated]]

lemma quiet_record_one_published:
  assumes "\<not> in_shadow k (fst x) w"
  shows "quiet k w (record_one_published x w)"
proof -
  let ?o = "ts_offered (rm_tx_hash (snd (snd x))) (fst x) (fst (snd x))" and ?h = "rm_tx_hash (snd (snd x))"
  define w1 where "w1 = emit (SentEvent ?h) (emit (StatusEvent ?o) w)"
  have "quiet k w (emit (StatusEvent ?o) w)" using assms by (intro quiet_emit) (simp add: ts_offered_def)
  then have "quiet k w w1" unfolding w1_def by (rule quiet_trans) (intro quiet_emit, simp)
  moreover have "quiet k w1 (record_one_published x w)"
    by (rule quiet_same) (simp_all add: record_one_published_def read_clock_def w1_def Let_def case_prod_unfold)
  ultimately show ?thesis by (rule quiet_trans)
qed

lemma quiet_rebuffer_rest: "quiet k w (rebuffer_rest k xs w)"
  unfolding rebuffer_rest_def
  by (rule quiet_fold) (auto simp: rebuffer_one_def case_prod_unfold intro: quiet_rules)

lemma quiet_fold_record:
  "\<forall>x\<in>set xs. \<not> in_shadow k (fst x) w \<Longrightarrow> quiet k w (fold record_one_published xs w)"
proof (induction xs arbitrary: w)
  case (Cons x xs)
  then have "quiet k (record_one_published x w) (fold record_one_published xs (record_one_published x w))"
    by (intro Cons.IH) (simp add: in_shadow_def)
  moreover have "quiet k w (record_one_published x w)" using Cons.prems by (intro quiet_record_one_published) auto
  ultimately show ?case by (auto intro: quiet_trans)
qed simp

lemma quiet_offer_batch:
  assumes "\<forall>o1\<in>set refs. \<not> in_shadow k (gh_sender (ro_guard o1)) w"
  shows "quiet k w (snd (offer_batch publish refs w))"
proof -
  let ?w = "snd (offer_batch publish refs w)"
  have w': "pw_clock ?w = pw_clock w" "sq_shadow ?w = sq_shadow w" "pw_side ?w = pw_side w"
    "concat (map fst (pw_offers ?w)) = concat (map fst (pw_offers w)) @ refs"
    by (simp_all add: offer_batch_def case_prod_unfold)
  have "filter (\<lambda>o1. gh_sender (ro_guard o1) = a) refs = []" if "in_shadow k a w" for a
    using assms that by (auto simp: filter_empty_conv)
  with w' show ?thesis by (simp add: quiet_def voiced_def in_shadow_cong [OF w'(2)])
qed

lemma flush_chunk_quiet:
  assumes run: "flush_chunk k publish rest w = Some (flow, rest', w')" and out: "\<forall>x\<in>set rest. \<not> in_shadow k (fst x) w"
  shows "quiet k w w'" and "set rest' \<subseteq> set rest" and "sq_shadow w' = sq_shadow w"
proof -
  define refs where "refs = map make_offer (take (min BATCH_MAX (length rest)) rest)"
  obtain n err w1 where off: "offer_batch publish refs w = ((n, err), w1)" by (metis prod.collapse)
  define w2 where "w2 = fold record_one_published (take n rest) w1"
  have sh1: "sq_shadow w1 = sq_shadow w" using off by (auto simp: offer_batch_def split: prod.splits)
  have sh2: "sq_shadow w2 = sq_shadow w" using fold_record_published(2) [of "take n rest" w1] sh1 by (simp add: w2_def)
  have "quiet k w w1"
    using quiet_offer_batch [of refs k w publish] off out
    by (auto simp: refs_def make_offer_def case_prod_unfold dest!: in_set_takeD)
  moreover have "quiet k w1 w2"
    unfolding w2_def using out in_shadow_cong [OF sh1] by (intro quiet_fold_record) (auto dest: in_set_takeD)
  ultimately have q: "quiet k w w2" by (rule quiet_trans)
  from run off have "length rest \<ge> n" and res: "(flow, rest', w') = (case err of
      None \<Rightarrow> (FlushContinue, drop n rest, w2)
    | Some Backpressure \<Rightarrow> (FlushBreak (Inl Backpressure), [], rebuffer_rest k (drop n rest) w2)
    | Some e \<Rightarrow> (FlushBreak (Inl e), drop n rest, w2))"
    unfolding w2_def by (auto simp: flush_chunk_def Let_def refs_def [symmetric] split: if_splits)
  have "w' = w2 \<and> rest' = drop n rest \<or> w' = rebuffer_rest k (drop n rest) w2 \<and> rest' = []"
    using res by (auto split: option.splits SequencerError.splits)
  then show "quiet k w w'" and "set rest' \<subseteq> set rest" and "sq_shadow w' = sq_shadow w"
    using q sh2 quiet_trans [OF q quiet_rebuffer_rest]
    by (auto simp: rebuffer_rest_def fold_rebuffer_frame dest: in_set_dropD)
qed

lemma flush_loop_quiet:
  "flush_loop k publish rest w = Some y \<Longrightarrow> (\<forall>x\<in>set rest. \<not> in_shadow k (fst x) w) \<longrightarrow> quiet k w (snd y)"
proof (rule flush_loop.raw_induct
    [of "\<lambda>k publish rest w y. (\<forall>x\<in>set rest. \<not> in_shadow k (fst x) w) \<longrightarrow> quiet k w (snd y)"], intro impI)
  fix rec :: "hash \<Rightarrow> 'a publisher \<Rightarrow> drained_ref list \<Rightarrow> 'a SequencerWorld \<Rightarrow> ((SequencerError + unit) \<times> 'a SequencerWorld) option"
    and k publish rest w y
  assume IH: "\<And>k publish rest w y. rec k publish rest w = Some y \<Longrightarrow>
      (\<forall>x\<in>set rest. \<not> in_shadow k (fst x) w) \<longrightarrow> quiet k w (snd y)"
    and run: "(if rest = [] then Some (Inr (), w)
      else Option.bind (flush_chunk k publish rest w) (\<lambda>(flow, rest', w').
             case flow of FlushBreak result \<Rightarrow> Some (result, w') | FlushContinue \<Rightarrow> rec k publish rest' w')) = Some y"
    and out: "\<forall>x\<in>set rest. \<not> in_shadow k (fst x) w"
  show "quiet k w (snd y)"
  proof (cases "rest = []")
    case False
    then obtain flow rest' w' where ch: "flush_chunk k publish rest w = Some (flow, rest', w')"
      using run by (cases "flush_chunk k publish rest w") auto
    note q = flush_chunk_quiet [OF ch out]
    show ?thesis
    proof (cases flow)
      case FlushContinue
      have "\<forall>x\<in>set rest'. \<not> in_shadow k (fst x) w'" using out q(2) in_shadow_cong [OF q(3)] by auto
      moreover have "rec k publish rest' w' = Some y" using run False ch FlushContinue by simp
      ultimately show ?thesis using IH q(1) quiet_trans by blast
    qed (use run False ch q(1) in auto)
  qed (use run in auto)
qed

lemma flush_drained_quiet:
  assumes "flush_drained k publish items w = Some (r, w')"
  shows "quiet k w w'"
proof -
  have "\<forall>x\<in>set (suppress_shadow k items w). \<not> in_shadow k (fst x) w"
    by (auto simp: suppress_shadow_def in_shadow_def)
  with flush_loop_quiet [of k publish "suppress_shadow k items w" w "(r, w')"] assms show ?thesis
    by (simp add: flush_drained_def)
qed

lemma quiet_rewind_for_republish [quiet_rules]: "quiet k w (rewind_for_republish entries w)"
  unfolding rewind_for_republish_def by (rule quiet_fold) (simp add: case_prod_unfold quiet_updates)

lemma quiet_rewind_one_gap [quiet_rules]: "quiet k w (rewind_one_gap a n w)"
proof -
  let ?w = "w\<lparr>sq_unconfirmed := snd (take_gap_rewinds a n (sq_unconfirmed w))\<rparr>"
  have "quiet k w ?w" by (rule quiet_updates)
  moreover have "quiet k w (rewind_for_republish xs ?w)" for xs
    by (rule quiet_trans [OF quiet_updates(2) quiet_rewind_for_republish])
  ultimately show ?thesis by (simp add: rewind_one_gap_def case_prod_unfold Let_def)
qed

lemma quiet_gaps [quiet_rules]:
  "quiet k w (republish_held a n w)" "quiet k w (seq_free_nonce a n w)" "quiet k w (apply_gap a n w)"
proof -
  show free: "quiet k w (seq_free_nonce a n w)"
    by (rule quiet_same) (simp_all add: seq_free_nonce_def read_clock_def case_prod_unfold Let_def)
  show "quiet k w (republish_held a n w)" "quiet k w (apply_gap a n w)"
    using free by (simp_all add: republish_held_def apply_gap_def quiet_rewind_one_gap)
qed

lemma quiet_take_refused [quiet_rules]: "quiet k w (snd (take_refused refusal w))"
  by (rule quiet_same) (auto simp: take_refused_def Let_def case_prod_unfold split: option.splits)

lemma quiet_report_refusal [quiet_rules]: "quiet k w (report_refusal k refusal w)"
proof -
  have "quiet k w (publish_rejection k h e (snd (take_refused refusal w)))"
    "quiet k w (publish_error k e (snd (take_refused refusal w)))" for h e
    by (rule quiet_trans [OF quiet_take_refused], rule quiet_rules)+
  then show ?thesis by (simp add: report_refusal_def case_prod_unfold Let_def split: option.splits)
qed

lemma quiet_apply_past_reject [quiet_rules]: "quiet k w (apply_past_reject k past w)"
proof -
  have "quiet k w (report_refusal k refusal w)" for refusal by (rule quiet_report_refusal)
  moreover have "quiet k w (report_refusal k refusal ((snd (read_clock w))\<lparr>sq_nonce_ahead := na\<rparr>))" for refusal na
    by (rule quiet_trans [OF quiet_trans [OF quiet_updates(7) quiet_updates(4)] quiet_report_refusal])
  ultimately show ?thesis by (simp add: apply_past_reject_def case_prod_unfold Let_def)
qed

lemma quiet_apply_answers [quiet_rules]:
  "quiet k w (snd (apply_deadline_rejects k r w))" "quiet k w (snd (apply_sealer_answers k r w))"
proof -
  show "quiet k w (snd (apply_deadline_rejects k r w))"
    by (auto simp: apply_deadline_rejects_def case_prod_unfold Let_def intro: quiet_fold quiet_rules)
  let ?d = "fst (drain_answers r)" and ?r = "snd (drain_answers r)"
  define w1 where "w1 = fold (\<lambda>d. apply_past_reject k (past_reject_of ?r d)) (an_drops ?d) w"
  define w2 where "w2 = fold (\<lambda>x. apply_gap (fst x) (snd x)) (an_gaps ?d) w1"
  have "quiet k w w1" "quiet k w1 w2"
    "quiet k w2 (fold (\<lambda>x. republish_held (fst x) (snd x)) (an_window_full ?d) w2)"
    unfolding w1_def w2_def by (auto intro: quiet_fold quiet_rules)
  then have "quiet k w (fold (\<lambda>x. republish_held (fst x) (snd x)) (an_window_full ?d) w2)" by (meson quiet_trans)
  then show "quiet k w (snd (apply_sealer_answers k r w))"
    by (simp add: apply_sealer_answers_def case_prod_unfold Let_def w1_def w2_def)
qed

lemma quiet_floor_steps [quiet_rules]:
  "quiet k w (apply_one_floor_update k a n w)" "quiet k w (apply_one_release a n w)" "quiet k w (forget_one_floor a w)"
proof -
  let ?w = "w\<lparr>sq_nonce_ahead := naw_forget a (sq_nonce_ahead w),
     sq_state := snd (advance_floor a n (sq_state w))\<rparr>"
  have "quiet k w ?w" by (rule quiet_same) simp_all
  moreover have "quiet k ?w (fold (\<lambda>x. publish_proven_drop k (f x)) xs ?w)" for f and xs :: "(u64 \<times> RefMetadata) list"
    by (rule quiet_fold) (rule quiet_rules)
  ultimately show "quiet k w (apply_one_floor_update k a n w)"
    by (auto simp: apply_one_floor_update_def case_prod_unfold Let_def intro: quiet_trans split: option.splits)
  show "quiet k w (apply_one_release a n w)" "quiet k w (forget_one_floor a w)"
    by (rule quiet_same; simp add: apply_one_release_def forget_one_floor_def)+
qed

lemma quiet_apply_receipt_drain [quiet_rules]: "quiet k w (snd (snd (apply_receipt_drain k r w)))"
proof -
  let ?d = "fst (drain_floor_updates r)"
  define w1 where "w1 = w\<lparr>sq_unconfirmed :=
    fold (\<lambda>x. confirm_through (fst x) (snd x)) (rd_confirmations ?d) (sq_unconfirmed w)\<rparr>"
  define w2 where "w2 = fold (\<lambda>x. apply_one_release (fst x) (snd x)) (rd_released ?d) w1"
  define w3 where "w3 = fold (\<lambda>x. apply_one_floor_update k (fst x) (snd x)) (rd_raised ?d) w2"
  define w4 where "w4 = fold forget_one_floor (rd_forgotten ?d) w3"
  have "quiet k w w1" "quiet k w1 w2" "quiet k w2 w3" "quiet k w3 w4" "quiet k w4 (snd (read_clock w4))"
    unfolding w1_def w2_def w3_def w4_def by (auto intro: quiet_fold quiet_rules)
  then have "quiet k w (snd (read_clock w4))" by (meson quiet_trans)
  then show ?thesis
    by (simp add: apply_receipt_drain_def case_prod_unfold Let_def w1_def w2_def w3_def w4_def)
qed

lemma quiet_sweep_confirm_timeouts [quiet_rules]: "quiet k w (sweep_confirm_timeouts w)"
proof -
  let ?t = "from_millis (rcfg_confirm_timeout_ms (sc_resync (sq_cfg w)))"
  let ?w = "snd (read_clock w)"
  let ?s = "ledger_sweep_expired ?t (fst (read_clock w)) SWEEP_LIMIT (sq_unconfirmed ?w)"
  have "quiet k w (?w\<lparr>sq_unconfirmed := snd ?s\<rparr>)" by (rule quiet_trans [OF quiet_updates(7) quiet_updates(2)])
  moreover from this have "quiet k w (rewind_for_republish xs (?w\<lparr>sq_unconfirmed := snd ?s\<rparr>))" for xs
    by (rule quiet_trans) (rule quiet_rules)
  ultimately show ?thesis by (simp add: sweep_confirm_timeouts_def case_prod_unfold Let_def)
qed

lemma quiet_resync_tick [quiet_rules]: "quiet k w (resync_tick k w)"
proof (cases "sq_resync w")
  case (Some r)
  define w0 where "w0 = w\<lparr>sq_resync := None\<rparr>"
  obtain lookups r1 w1 where 1: "apply_receipt_drain k r w0 = (lookups, r1, w1)" by (metis prod.collapse)
  obtain r2 w2 where 2: "apply_deadline_rejects k r1 w1 = (r2, w2)" by fastforce
  obtain r3 w3 where 3: "apply_sealer_answers k r2 w2 = (r3, w3)" by fastforce
  have "quiet k w w0" "quiet k w0 w1" "quiet k w1 w2" "quiet k w2 w3" "quiet k w3 (w3\<lparr>sq_resync := Some r3\<rparr>)"
    "quiet k (w3\<lparr>sq_resync := Some r3\<rparr>) (fold request_lookup lookups (w3\<lparr>sq_resync := Some r3\<rparr>))"
    using quiet_apply_receipt_drain [of k w0 r] quiet_apply_answers(1) [of k w1 r1] quiet_apply_answers(2) [of k w2 r2] 1 2 3
    by (auto simp: w0_def intro: quiet_updates quiet_fold quiet_request_lookup)
  then have "quiet k w (sweep_confirm_timeouts (fold request_lookup lookups (w3\<lparr>sq_resync := Some r3\<rparr>)))"
    by (meson quiet_trans quiet_sweep_confirm_timeouts)
  with Some 1 2 3 show ?thesis by (simp add: resync_tick_def w0_def)
qed (simp add: resync_tick_def)

lemma quiet_shadow_tick: "now = pw_clock w i \<Longrightarrow> quiet k w (shadow_tick now w)"
  by (auto simp: shadow_tick_def quiet_def in_shadow_def split: option.splits)

lemma quiet_expiry_tick [quiet_rules]: "quiet k w (expiry_tick k w)"
proof -
  let ?now = "pw_clock w (pw_reads w)"
  define w1 where "w1 = (snd (read_clock w))\<lparr>sq_state := snd (sweep_expired ?now SWEEP_LIMIT (sq_state w))\<rparr>"
  define w2 where "w2 = fold (report_expired k) (fst (sweep_expired ?now SWEEP_LIMIT (sq_state w))) w1"
  have 1: "quiet k w w1" unfolding w1_def by (rule quiet_trans [OF quiet_updates(7) quiet_updates(1)])
  have 2: "quiet k w1 w2" unfolding w2_def by (rule quiet_fold) (rule quiet_reports)
  from 1 2 have "quiet k w w2" by (rule quiet_trans)
  moreover have "quiet k w2 (shadow_tick ?now w2)"
    using \<open>quiet k w w2\<close> by (intro quiet_shadow_tick [of _ _ "pw_reads w"]) (simp add: quiet_def)
  moreover have "quiet k (shadow_tick ?now w2) ((shadow_tick ?now w2)\<lparr>sq_depth := d\<rparr>)" for d by (rule quiet_updates)
  ultimately have "quiet k w ((shadow_tick ?now w2)\<lparr>sq_depth := d\<rparr>)" for d by (meson quiet_trans)
  then show ?thesis
    by (simp add: expiry_tick_def case_prod_unfold Let_def w1_def w2_def read_clock_def)
qed

lemma quiet_collect_publishes: "quiet k w (snd (fold (collect_one_action k ob) actions (ps, w)))"
proof (induction actions arbitrary: ps w)
  case (Cons x actions)
  obtain ps1 w1 where one: "collect_one_action k ob x (ps, w) = (ps1, w1)" by fastforce
  then have "quiet k w w1"
    by (auto simp: collect_one_action_def quiet_reports split: ProcessAction.splits)
  with Cons.IH [of w1 ps1] one show ?case by (auto intro: quiet_trans)
qed simp

lemma quiet_handle_outcome [quiet_rules]: "quiet k w (snd (handle_outcome k ob result w))"
proof -
  have "quiet k w (report_evicted k a n h (request_lookup a w))" for a n h
    by (rule quiet_trans [OF quiet_request_lookup quiet_reports(3)])
  then show ?thesis
    by (auto simp: handle_outcome_def case_prod_unfold Let_def collect_publishes_def
        intro: quiet_collect_publishes quiet_trans [OF _ quiet_collect_publishes] quiet_request_lookup quiet_reports
        split: NonceOutcome.splits)
qed

lemma quiet_seed_cold_sender [quiet_rules]: "quiet k w (seed_cold_sender a w)"
  by (rule quiet_same) (simp_all add: seed_cold_sender_def)

lemma flush_mapped_quiet:
  "map_option (\<lambda>(r, w). (f r, w)) (flush_drained k publish items w) = Some (r, w') \<Longrightarrow> quiet k w w'"
  by (auto dest: flush_drained_quiet)

lemma ingest_quiet:
  assumes run: "ingest k full publish inb w = Some (r, w')"
  shows "quiet k w w'"
proof -
  let ?a = "sender_of (in_envelope inb)"
  define w1 where "w1 = snd (read_clock w)"
  have q1: "quiet k w w1" unfolding w1_def by (rule quiet_updates)
  consider "w' = w" | reason ob where "w' = report_fee_reject k ob reason w1"
    | result st ob where
      "map_option (\<lambda>(r, w). (map_sum (\<lambda>e. e) (\<lambda>_. True) r, w)) (flush_drained k publish
         (fst (handle_outcome k ob result ((snd (read_clock (seed_cold_sender ?a w1)))\<lparr>sq_state := st\<rparr>)))
         (snd (handle_outcome k ob result ((snd (read_clock (seed_cold_sender ?a w1)))\<lparr>sq_state := st\<rparr>)))) = Some (r, w')"
    using run unfolding ingest_def Let_def case_prod_unfold w1_def
    by (auto split: if_splits sum.splits simp del: map_option_eq_Some)
  then show ?thesis
  proof cases
    case 2
    with q1 show ?thesis by (auto intro: quiet_trans quiet_reports)
  next
    case 3
    let ?w = "(snd (read_clock (seed_cold_sender ?a w1)))\<lparr>sq_state := st\<rparr>"
    have "quiet k w ?w"
      by (rule quiet_trans [OF quiet_trans [OF quiet_trans [OF q1 quiet_seed_cold_sender] quiet_updates(7)] quiet_updates(1)])
    then have "quiet k w (snd (handle_outcome k ob result ?w))" by (rule quiet_trans) (rule quiet_rules)
    then show ?thesis using flush_mapped_quiet [OF 3] by (rule quiet_trans)
  qed simp
qed

lemma run_once_quiet:
  assumes run: "run_once k full publish w = Some (r, w')"
  shows "quiet k w w'"
proof -
  define w1 where "w1 = expiry_tick k (emit FlushEvents (resync_tick k w))"
  define w2 where "w2 = snd (gate_paused w1)"
  define w3 where "w3 = w2\<lparr>sq_state := snd (drain_pending (sq_state w2))\<rparr>"
  define w4 where "w4 = snd (poll_tx_data w3)"
  have "quiet k (resync_tick k w) (emit FlushEvents (resync_tick k w))" by (rule quiet_emit) simp
  then have q: "quiet k w w1"
    unfolding w1_def by (intro quiet_trans [OF quiet_trans [OF quiet_resync_tick] quiet_expiry_tick])
  have q2: "quiet k w w2" unfolding w2_def by (rule quiet_trans [OF q quiet_updates(8)])
  have q3: "quiet k w w3" unfolding w3_def by (rule quiet_trans [OF q2 quiet_updates(1)])
  have q4: "quiet k w w4" unfolding w4_def by (rule quiet_trans [OF q3 quiet_updates(9)])
  consider "w' = w2" | "w' = w4" | inb where "ingest k full publish inb w4 = Some (r, w')"
    | items where "map_option (\<lambda>(r, w). (map_sum (\<lambda>e. e) (\<lambda>_. True) r, w)) (flush_drained k publish items w3) = Some (r, w')"
  proof (cases "fst (gate_paused w1)")
    case False
    then show thesis
      using run that unfolding run_once_def Let_def case_prod_unfold w1_def [symmetric] w2_def [symmetric]
        w3_def [symmetric] w4_def
      by (cases "poll_tx_data w3") (auto split: if_splits sum.splits option.splits simp del: map_option_eq_Some)
  qed (use run that(1) in \<open>simp add: run_once_def Let_def case_prod_unfold w1_def w2_def\<close>)
  then show ?thesis
  proof cases
    case 3
    show ?thesis by (rule quiet_trans [OF q4 ingest_quiet [OF 3]])
  next
    case 4
    show ?thesis by (rule quiet_trans [OF q3 flush_mapped_quiet [OF 4]])
  qed (use q2 q4 in simp_all)
qed

lemma quiet_after_pass: "quiet k w (snd (after_pass outcome w))"
  by (rule quiet_same)
    (auto simp: after_pass_def resync_note_publish_ok_def resync_note_publish_stall_def read_clock_def Let_def
      split: sum.splits SequencerError.splits option.splits)

lemma run_tick_quiet:
  assumes "run_tick k full publish w = Some (r, w')"
  shows "quiet k w w'"
proof -
  obtain outcome w1 where once: "run_once k full publish w = Some (outcome, w1)"
    and "w' = snd (after_pass outcome w1)"
    using assms by (auto simp: run_tick_def case_prod_unfold)
  then show ?thesis using quiet_trans [OF run_once_quiet [OF once] quiet_after_pass] by simp
qed

lemma seq_run_quiet: "seq_run k full publish signals w = Some (r, w') \<Longrightarrow> quiet k w w'"
proof (induction signals arbitrary: w)
  case (Cons signaled signals)
  show ?case
  proof (cases signaled)
    case False
    with Cons.prems obtain res w1 where t: "run_tick k full publish w = Some (res, w1)"
      by (auto split: option.splits)
    have "w' = w1 \<or> seq_run k full publish signals w1 = Some (r, w')"
      using Cons.prems False t by (auto split: sum.splits bool.splits)
    then show ?thesis using run_tick_quiet [OF t] Cons.IH quiet_trans by blast
  qed (use Cons.prems in simp)
qed simp

section \<open>Runs return\<close>

text \<open>Over the cluster publisher, an iteration and a bounded run always return.\<close>

lemma flush_mapped_returns:
  "\<exists>r w'. map_option (\<lambda>(r, w). (f r, w)) (flush_drained k (cluster_publish_batch ingress) items w) = Some (r, w')"
  using cluster_refs.flush_drained_returns [of k ingress items w] by auto

lemma ingest_returns: "\<exists>r w'. ingest k full (cluster_publish_batch ingress) inb w = Some (r, w')"
  unfolding ingest_def Let_def case_prod_unfold
  using flush_mapped_returns [of "map_sum (\<lambda>e. e) (\<lambda>_. True)" k ingress]
  by (auto simp: case_prod_unfold split: sum.splits)

lemma run_once_returns: "\<exists>r w'. run_once k full (cluster_publish_batch ingress) w = Some (r, w')"
  unfolding run_once_def Let_def case_prod_unfold
  using flush_mapped_returns [of "map_sum (\<lambda>e. e) (\<lambda>_. True)" k ingress] ingest_returns [of k full ingress]
  by (auto simp: case_prod_unfold split: sum.splits option.splits)

lemma seq_run_returns: "\<exists>r w'. seq_run k full (cluster_publish_batch ingress) signals w = Some (r, w')"
proof (induction signals arbitrary: w)
  case (Cons signaled signals)
  obtain r w1 where "run_tick k full (cluster_publish_batch ingress) w = Some (r, w1)"
    using run_once_returns [of k full ingress w] by (auto simp: run_tick_def case_prod_unfold) (metis prod.collapse)
  then show ?case using Cons.IH [of w1] by (auto split: sum.splits bool.splits)
qed simp

text \<open>
  C4.  During a resize, the senders of an incoming slot are silent for the whole warm-up.  Take a run of
  the loop, of any length and with any inputs and answers, in which every reading of the clock is before
  the end of the window.  The run returns, the window still stands, and nothing went out for a sender of
  its slots: no ref was offered, and no error, status or drop was published.
\<close>

theorem shadow_slots_stay_silent:
  assumes "sq_shadow w = Some win" and "\<forall>i. pw_clock w i < sh_until win"
    and "vs_contains (sh_vslots win) (vslot_for k a)"
  shows "\<exists>r w'. seq_run k full (cluster_publish_batch ingress) signals w = Some (r, w') \<and>
    sq_shadow w' = Some win \<and> voiced a w' = voiced a w"
proof -
  obtain r w' where run: "seq_run k full (cluster_publish_batch ingress) signals w = Some (r, w')"
    using seq_run_returns by blast
  from seq_run_quiet [OF run] assms(1,2) have "sq_shadow w' = Some win"
    by (auto simp: quiet_def not_le [symmetric])
  moreover from this seq_run_quiet [OF run] assms(3) have "voiced a w' = voiced a w"
    by (simp add: quiet_def in_shadow_def)
  ultimately show ?thesis using run by blast
qed

theorem shadow_slots_stay_silent_witness:
  "\<exists>r w'. seq_run (\<lambda>_. 0) (\<lambda>_. Inl []) (cluster_publish_batch busy_session) [False, False]
      (example_world (Some \<lparr>sh_vslots = vs_full, sh_until = 9\<rparr>)) = Some (r, w') \<and>
    sq_shadow w' = Some \<lparr>sh_vslots = vs_full, sh_until = 9\<rparr> \<and>
    voiced 7 w' = voiced 7 (example_world (Some \<lparr>sh_vslots = vs_full, sh_until = 9\<rparr>))"
proof (rule shadow_slots_stay_silent)
  have "vslot_for (\<lambda>_. 0) 7 \<in> vs_set vs_full" by (simp add: vs_set_full)
  then show "vs_contains (sh_vslots \<lparr>sh_vslots = vs_full, sh_until = 9\<rparr>) (vslot_for (\<lambda>_. 0) 7)" by (simp add: vs_set_def)
qed (simp_all add: example_world_def)

end
