(* ===== verification/Sequencer_Ingest.thy ===== *)
theory Sequencer_Ingest
  imports Sequencer_Shadow
begin

text \<open>
  What becomes of one envelope that the loop takes from its lane: the composition of the decode, the fee
  gate, the nonce state machine, the reports and the flush.  Every served envelope is settled: it is
  offered, it is buffered, or its drop is published.
\<close>

section \<open>Settled\<close>

abbreviation taken_offers :: "(RefOffer list \<times> nat) list \<Rightarrow> RefOffer list" where
  "taken_offers os \<equiv> concat (map (\<lambda>(refs, n). take n refs) os)"

definition tx_settled :: "address \<Rightarrow> u64 \<Rightarrow> b256 \<Rightarrow> 'p SequencerWorld \<Rightarrow> 'p SequencerWorld \<Rightarrow> bool" where
  "tx_settled a n h w w' \<longleftrightarrow>
     (\<exists>os. pw_offers w' = pw_offers w @ os \<and> (\<exists>o1 \<in> set (taken_offers os).
        ref_tx_hash (ro_tx_ref o1) = h \<and> gh_sender (ro_guard o1) = a \<and> gh_nonce (ro_guard o1) = n)) \<or>
     (\<exists>sl. slot_at (sq_state w') a n = Some sl \<and> rm_tx_hash (slot_value sl) = h) \<or>
     (\<exists>es d. pw_side w' = pw_side w @ es \<and> DropEvent d \<in> set es \<and>
        td_tx_hash d = h \<and> td_sender d = a \<and> td_nonce d = n)"

lemma settled_from:
  assumes "tx_settled a n h w1 w'" and "pw_offers w1 = pw_offers w" and "pw_side w1 = pw_side w @ es"
  shows "tx_settled a n h w w'"
proof -
  have "\<exists>es' d. pw_side w' = pw_side w @ es' \<and> DropEvent d \<in> set es' \<and> P d"
    if "pw_side w' = pw_side w1 @ fs" "DropEvent d \<in> set fs" "P d" for fs d P
    using that assms(3) by (intro exI [of _ "es @ fs"] exI [of _ d]) simp
  then show ?thesis using assms(1,2) unfolding tx_settled_def by auto
qed

lemma make_offer_simps [simp]:
  "ref_tx_hash (ro_tx_ref (make_offer x)) = rm_tx_hash (snd (snd x))"
  "gh_sender (ro_guard (make_offer x)) = fst x" "gh_nonce (ro_guard (make_offer x)) = fst (snd x)"
  by (simp_all add: make_offer_def make_txref_def case_prod_unfold)

lemma settled_offered:
  "pw_offers w' = pw_offers w @ os \<Longrightarrow> make_offer x \<in> set (taken_offers os) \<Longrightarrow>
    tx_settled (fst x) (fst (snd x)) (rm_tx_hash (snd (snd x))) w w'"
  unfolding tx_settled_def by (intro disjI1 exI [of _ os]) (intro conjI bexI [of _ "make_offer x"]; simp only: make_offer_simps)

lemma settled_kept: "kept_back x (sq_state w') \<Longrightarrow> tx_settled (fst x) (fst (snd x)) (rm_tx_hash (snd (snd x))) w w'"
  unfolding tx_settled_def kept_back_def by auto

lemma settled_told:
  "pw_side w' = pw_side w @ es \<Longrightarrow> DropEvent d \<in> set es \<Longrightarrow> tx_settled (td_sender d) (td_nonce d) (td_tx_hash d) w w'"
  unfolding tx_settled_def by blast

text \<open>A flush settles each ref that it gets, or ends the loop with an error.\<close>

lemma flush_settles:
  assumes "distinct (map ref_key items)" and x: "x \<in> set items" and "\<not> in_shadow k (fst x) w"
    and run: "flush_drained k (cluster_publish_batch ingress) items w = Some (r, w')"
  shows "tx_settled (fst x) (fst (snd x)) (rm_tx_hash (snd (snd x))) w w' \<or> (\<exists>e. r = Inl e \<and> e \<noteq> Backpressure)"
proof -
  obtain taken left where acc: "flush_account k (suppress_shadow k items w) w r w' taken left"
    using cluster_refs.flush_drained_accounts [OF assms(1), of k ingress w] run by auto
  have "x \<in> set (suppress_shadow k items w)" using x assms(3) by (auto simp: suppress_shadow_def)
  with acc have "x \<in> set taken \<or> x \<in> set left" by (auto simp: flush_account_def)
  then show ?thesis
  proof
    assume "x \<in> set taken"
    then have "make_offer x \<in> set (map make_offer taken)" by simp
    moreover obtain os where "pw_offers w' = pw_offers w @ os" "taken_offers os = map make_offer taken"
      using acc by (auto simp: flush_account_def)
    ultimately show ?thesis using settled_offered by metis
  next
    assume left: "x \<in> set left"
    then have "r \<noteq> Inr ()" using acc by (auto simp: flush_account_def)
    then obtain e where e: "r = Inl e" by (cases r) auto
    show ?thesis
    proof (cases "e = Backpressure")
      case True
      with acc e obtain es where es: "pw_side w' = pw_side w @ es"
        "\<forall>x\<in>set left. if is_refused (fst x) (fst (snd x)) (sq_state w) then told_evicted x es else kept_back x (sq_state w')"
        unfolding flush_account_def by auto
      then have "told_evicted x es \<or> kept_back x (sq_state w')" using left by (metis (full_types))
      then show ?thesis
        using settled_kept settled_told [OF es(1)] by (fastforce simp: told_evicted_def)
    qed (use e in blast)
  qed
qed

lemma publish_proven_drop_side:
  "\<not> in_shadow k (ob_sender ob) w \<Longrightarrow> pw_side (publish_proven_drop k ob w) = pw_side w @
     [DropEvent \<lparr>td_tx_hash = ob_tx_hash ob, td_sender = ob_sender ob, td_nonce = ob_nonce ob, td_reason = DropNonceTooLow\<rparr>]"
  by (simp add: publish_proven_drop_def)

lemma rejection_settles:
  "\<not> in_shadow k (te_sender e) w \<Longrightarrow> tx_settled (te_sender e) (te_nonce e) h w (publish_rejection k h e w)"
  using settled_told [OF publish_rejection_side [of k e w h]] by fastforce

section \<open>The outcome of the nonce check\<close>

text \<open>A park of a future nonce: the transaction is buffered, or it is reported as too far ahead.\<close>

lemma park_outcome:
  assumes "ps_rep s" and "max_pending_per_sender s \<noteq> 0" and "park now a n meta s = (outcome, s')"
  shows "outcome = TooFarRejected n \<or>
    (\<forall>m. outcome \<noteq> TooFarRejected m) \<and> slot_at s' a n = Some \<lparr>slot_deadline = Some (now + tx_ttl s), slot_value = meta\<rparr>"
proof -
  obtain r buf where ins: "pb_insert n meta (now + tx_ttl s) (pending_entry a s) = (r, buf)" by fastforce
  have cap: "pb_capacity (pending_entry a s) = Some (max_pending_per_sender s)"
    using ps_rep_entry(2) [OF assms(1), of a] assms(2) by simp
  have "r = RejectedTooFar n \<or> (\<forall>m. r \<noteq> RejectedTooFar m) \<and> r \<noteq> DroppedBufferDisabled \<and>
      pb_slot buf n = Some \<lparr>slot_deadline = Some (now + tx_ttl s), slot_value = meta\<rparr>"
    using ins cap by (auto simp: pb_insert_def Let_def split: option.splits if_splits)
  then show ?thesis
    using assms(3) ins by (auto simp: park_def Let_def split: InsertOutcome.splits)
qed

lemma seed_cold_sender_simps [simp]:
  "next_nonce x (sq_state (seed_cold_sender a w)) = next_nonce x (sq_state w)"
  "slot_at (sq_state (seed_cold_sender a w)) = slot_at (sq_state w)"
  "is_refused x m (sq_state (seed_cold_sender a w)) = is_refused x m (sq_state w)"
  "max_pending_per_sender (sq_state (seed_cold_sender a w)) = max_pending_per_sender (sq_state w)"
  "pw_side (seed_cold_sender a w) = pw_side w" "pw_offers (seed_cold_sender a w) = pw_offers w"
  "sq_shadow (seed_cold_sender a w) = sq_shadow w"
  "ps_rep (sq_state w) \<Longrightarrow> ps_rep (sq_state (seed_cold_sender a w))"
  by (auto simp: seed_cold_sender_def seed_next_nonce_def next_nonce_def next_nonce_known_def is_refused_def ps_rep_hm_inv
      split: option.splits)

lemma collect_publish_actions:
  "list_all is_Publish acts \<Longrightarrow> fold (collect_one_action k ob) acts (ps, w) =
    (ps @ map (\<lambda>e. (ob_sender ob, pub_nonce e, pub_payload e)) acts, w)"
  by (induction acts arbitrary: ps) (auto simp: collect_one_action_def split: ProcessAction.splits)

lemma flush_drained_Nil [simp]: "flush_drained k publish [] w = Some (Inr (), w)"
  by (simp add: flush_drained_def suppress_shadow_def flush_loop.simps)

lemma request_lookup_simps [simp]:
  "sq_state (request_lookup a w) = sq_state w" "pw_side (request_lookup a w) = pw_side w"
  "pw_offers (request_lookup a w) = pw_offers w" "in_shadow k x (request_lookup a w) = in_shadow k x w"
  by (simp_all add: request_lookup_def Let_def in_shadow_def)

text \<open>The four branches of the nonce check, each followed by the reports and the flush.\<close>

definition after_check ::
  "hash \<Rightarrow> ('i \<Rightarrow> u8 list \<Rightarrow> OfferOutcome \<times> 'i) \<Rightarrow> Observed \<Rightarrow> RefMetadata ProcessResult \<times> RefMetadata PartitionState
    \<Rightarrow> 'i SequencerWorld \<Rightarrow> ((SequencerError + unit) \<times> 'i SequencerWorld) option" where
  "after_check k ingress ob checked u =
     (case handle_outcome k ob (fst checked) (u\<lparr>sq_state := snd checked\<rparr>) of
        (publishes, w) \<Rightarrow> flush_drained k (cluster_publish_batch ingress) publishes w)"

lemma past_settled:
  assumes out: "\<not> in_shadow k a u" and s: "s = sq_state u"
    and ob: "ob = \<lparr>ob_sender = a, ob_nonce = n, ob_tx_hash = rm_tx_hash meta\<rparr>"
    and past: "n < next_nonce a s" "\<not> is_refused a n s"
    and run: "after_check k ingress ob (process_at now a n meta s) u = Some (r, w')"
  shows "tx_settled a n (rm_tx_hash meta) u w'"
proof -
  let ?u = "u\<lparr>sq_state := s\<rparr>"
  have w': "w' = report_duplicate k ob n (next_nonce a s) ?u"
    using run process_at_past [OF past(1), of now meta] past(2)
    by (simp add: after_check_def handle_outcome_def collect_publishes_def collect_one_action_def)
  have sh: "\<not> in_shadow k a ?u" using out by (simp add: in_shadow_def)
  show ?thesis
  proof (cases "proven_executed a n ?u")
    case True
    then have "w' = publish_proven_drop k ob ?u" by (simp add: w' report_duplicate_def ob)
    with publish_proven_drop_side [of k ob ?u] sh show ?thesis
      using settled_told [of w' u] by (fastforce simp: ob)
  next
    case False
    let ?e = "\<lparr>te_sender = a, te_nonce = n, te_reason = DuplicatedTx (next_nonce a s)\<rparr>"
    have "w' = publish_rejection k (rm_tx_hash meta) ?e ?u" using False by (simp add: w' report_duplicate_def ob)
    with rejection_settles [of k ?e ?u "rm_tx_hash meta"] sh show ?thesis
      by (auto intro: settled_from [of _ _ _ ?u _ _ "[]"])
  qed
qed

lemma reoffer_settled:
  assumes out: "\<not> in_shadow k a u" and s: "s = sq_state u"
    and ob: "ob = \<lparr>ob_sender = a, ob_nonce = n, ob_tx_hash = rm_tx_hash meta\<rparr>"
    and past: "n < next_nonce a s" "is_refused a n s"
    and run: "after_check k ingress ob (process_at now a n meta s) u = Some (r, w')"
  shows "tx_settled a n (rm_tx_hash meta) u w' \<or> (\<exists>e. r = Inl e \<and> e \<noteq> Backpressure)"
proof -
  let ?u = "u\<lparr>sq_state := s\<rparr>"
  have "flush_drained k (cluster_publish_batch ingress) [(a, n, meta)] ?u = Some (r, w')"
    using run process_at_past [OF past(1), of now meta] past(2)
    by (simp add: after_check_def handle_outcome_def collect_publishes_def collect_one_action_def ob)
  from flush_settles [OF _ _ _ this, of "(a, n, meta)"] out show ?thesis
    by (auto simp: in_shadow_def intro: settled_from [of _ _ _ ?u _ _ "[]"])
qed

lemma future_settled:
  assumes out: "\<not> in_shadow k a u" and s: "s = sq_state u"
    and ob: "ob = \<lparr>ob_sender = a, ob_nonce = n, ob_tx_hash = rm_tx_hash meta\<rparr>"
    and future: "next_nonce a s < n" and rep: "ps_rep s" "max_pending_per_sender s \<noteq> 0"
    and run: "after_check k ingress ob (process_at now a n meta s) u = Some (r, w')"
  shows "tx_settled a n (rm_tx_hash meta) u w'"
proof -
  obtain outcome s' where pk: "park now a n meta s = (outcome, s')" by fastforce
  let ?u = "u\<lparr>sq_state := s'\<rparr>"
  have w': "w' = snd (handle_outcome k ob ([], outcome) ?u)"
    using run process_at_future [OF future, of now meta] pk
    by (simp add: after_check_def handle_outcome_def collect_publishes_def Let_def)
  show ?thesis
  proof (cases "outcome = TooFarRejected n")
    case True
    let ?e = "\<lparr>te_sender = a, te_nonce = n, te_reason = Evicted (next_nonce a s')\<rparr>"
    have "w' = publish_rejection k (rm_tx_hash meta) ?e ?u"
      by (simp add: w' True handle_outcome_def collect_publishes_def report_evicted_def ob)
    moreover have "\<not> in_shadow k a ?u" using out by (simp add: in_shadow_def)
    ultimately show ?thesis
      using rejection_settles [of k ?e ?u "rm_tx_hash meta"] by (auto intro: settled_from [of _ _ _ ?u _ _ "[]"])
  next
    case False
    with park_outcome [OF rep pk] have held: "slot_at s' a n = Some \<lparr>slot_deadline = Some (now + tx_ttl s), slot_value = meta\<rparr>"
      and "\<forall>m. outcome \<noteq> TooFarRejected m" by auto
    then have "sq_state w' = s'"
      by (auto simp: w' handle_outcome_def collect_publishes_def report_evicted_def Let_def split: NonceOutcome.splits)
    with held show ?thesis by (simp add: tx_settled_def)
  qed
qed

lemma matched_settled:
  assumes out: "\<not> in_shadow k a u" and s: "s = sq_state u"
    and ob: "ob = \<lparr>ob_sender = a, ob_nonce = n, ob_tx_hash = rm_tx_hash meta\<rparr>"
    and eq: "n = next_nonce a s" and top: "n \<noteq> - 1" "- 1 \<notin> buffered s a" and none: "slot_at s a n = None"
    and run: "after_check k ingress ob (process_at now a n meta s) u = Some (r, w')"
  shows "tx_settled a n (rm_tx_hash meta) u w' \<or> (\<exists>e. r = Inl e \<and> e \<noteq> Backpressure)"
proof -
  obtain acts outcome s' where pr: "process_at now a n meta s = ((acts, outcome), s')" by (metis prod.collapse)
  note m = process_at_matched [OF eq top pr]
  let ?u = "u\<lparr>sq_state := s'\<rparr>" and ?items = "map (\<lambda>e. (a, pub_nonce e, pub_payload e)) acts"
  have flush: "flush_drained k (cluster_publish_batch ingress) ?items ?u = Some (r, w')"
    using run collect_publish_actions [OF m(10), of k ob "[]" ?u]
    by (simp add: after_check_def pr handle_outcome_def m(1) collect_publishes_def ob)
  have d: "distinct (map ref_key ?items)"
  proof -
    have "distinct (map (\<lambda>e. unat (pub_nonce e)) acts)" using m(11) by simp
    then show ?thesis by (auto simp: distinct_map inj_on_def comp_def)
  qed
  have "unat n \<in> set (map (\<lambda>e. unat (pub_nonce e)) acts)" using m(7,11) by (simp add: word_less_nat_alt)
  then obtain e where e: "e \<in> set acts" "pub_nonce e = n" by (auto dest: unsigned_word_eqI)
  with m(10) have "e = Publish n (pub_payload e)" by (cases e) (auto simp: list_all_iff)
  with e m(12) [of n "pub_payload e"] none have "pub_payload e = meta" by auto
  with e have x: "(a, n, meta) \<in> set ?items" by force
  from flush_settles [OF d x _ flush] out show ?thesis
    by (auto simp: in_shadow_def intro: settled_from [of _ _ _ ?u _ _ "[]"])
qed

lemma ingest_unfold:
  assumes "vs_contains (sq_vslots w) (vslot_for k (env_sender (in_envelope inb)))"
    and "decode_fields full (env_raw_tx (in_envelope inb)) = Inr fs"
  shows "ingest k full (cluster_publish_batch ingress) inb w =
    (let env = in_envelope inb; a = env_sender env; n = txf_nonce fs;
         ob = \<lparr>ob_sender = a, ob_nonce = n, ob_tx_hash = env_tx_hash env\<rparr>;
         (now, w1) = read_clock w
     in case fg_admit now (sq_fees w1) a (txf_fees fs) of
          Inl reason \<Rightarrow> Some (Inr True, report_fee_reject k ob reason w1)
        | Inr tip \<Rightarrow>
            let w2 = seed_cold_sender a w1; (now, w3) = read_clock w2
            in map_option (\<lambda>(r, w). (map_sum (\<lambda>e. e) (\<lambda>_. True) r, w))
                 (after_check k ingress ob (process_at now a n (ref_metadata inb tip w2) (sq_state w3)) w3))"
  using assms unfolding ingest_def after_check_def Let_def sender_of_def case_prod_unfold by simp


definition example_inbound :: Inbound where
  "example_inbound = \<lparr>in_lane = 2, in_loc = TxDataLoc 9 (BPosition 0 64), in_stream_position = 64,
     in_envelope = \<lparr>env_correlation_id = 1, env_raw_tx = [], env_sender = 7, env_tx_hash = 5, env_max_inclusion_block = 0\<rparr>\<rparr>"

definition example_fields :: "u64 \<Rightarrow> TxFields" where
  "example_fields n = \<lparr>txf_nonce = n, txf_fees = \<lparr>ff_fees = \<lparr>tf_gas_limit = 21000, tf_max_fee_per_gas = 1, tf_max_priority_fee_per_gas = 1, tf_legacy = False\<rparr>, ff_value = 0\<rparr>\<rparr>"

lemma example_world_slots [simp]: "slot_at (sq_state (example_world win)) a n = None"
  by (simp add: example_world_def slot_at_def) (simp add: ps_new_def)


section \<open>A refused mark outlives a receipt\<close>

text \<open>
  C40.  A receipt proof does not always end the second chance of a refused nonce.  Suppose \<open>n\<close> is marked as
  refused, and a receipt then proves that the chain executed up to a floor above \<open>n\<close> but not above the
  expected nonce.  Then \<open>apply_one_floor_update\<close> leaves the mark: the next envelope at \<open>n\<close> is offered again
  instead of answered as past, and a timed-out confirmation moves the expected nonce back to \<open>n\<close>, below
  what the chain has executed.
\<close>

theorem executed_nonce_reoffered:
  assumes "n < floor" and "floor \<le> next_nonce a (sq_state w)" and "is_refused a n (sq_state w)"
  shows "process_at now a n meta (sq_state (apply_one_floor_update k a floor w)) =
      (([Publish n meta], Reoffered), sq_state w) \<and>
    next_nonce a (reinsert_for_retry a n meta (sq_state w)) = n"
proof
  have past: "n < next_nonce a (sq_state w)" using assms(1,2) by simp
  then show "next_nonce a (reinsert_for_retry a n meta (sq_state w)) = n"
    unfolding reinsert_for_retry_effect(2) by (auto simp: next_nonce_def next_nonce_known_def split: option.splits)
  show "process_at now a n meta (sq_state (apply_one_floor_update k a floor w)) =
      (([Publish n meta], Reoffered), sq_state w)"
    using assms(2,3) process_at_past [OF past, of now meta]
    by (simp add: apply_one_floor_update_def advance_floor_def Let_def)
qed

theorem executed_nonce_reoffered_witness:
  "process_at 0 7 2 example_meta (sq_state (apply_one_floor_update (\<lambda>_. 0) 7 4
       ((example_world None)\<lparr>sq_state := mark_refused 7 2 (seed_next_nonce 7 5 (ps_new 16 1000))\<rparr>))) =
      (([Publish 2 example_meta], Reoffered), mark_refused 7 2 (seed_next_nonce 7 5 (ps_new 16 1000))) \<and>
    next_nonce 7 (reinsert_for_retry 7 2 example_meta (mark_refused 7 2 (seed_next_nonce 7 5 (ps_new 16 1000)))) = 2"
  using executed_nonce_reoffered [of 2 4 7 "(example_world None)\<lparr>sq_state := mark_refused 7 2 (seed_next_nonce 7 5 (ps_new 16 1000))\<rparr>"
      0 example_meta "\<lambda>_. 0"]
  by (simp add: mark_refused_def seed_next_nonce_def ps_new_def next_nonce_def next_nonce_known_def is_refused_def)

end
