(* ===== verification/Spec2Isabelle.thy ===== *)
theory Spec2Isabelle
  imports Partition_Safety Unconfirmed Shard_Map Egress_Receipts Fees Nonce_Ahead Epoch_Pump Admission_Park Resync_Safety Sequencer_Ingest
begin

text \<open>
  \<^bold>\<open>Kardamom: the ordering path of a rollup.\<close>

  Kardamom orders the transactions of a rollup.  An ingress writes each accepted transaction as an
  envelope on the lane of its sender.  A sequencer polls the lanes that it serves, decides on each
  envelope, and offers the ref of each transaction that is next in its sender's nonce order to the sealer
  cluster.  The sealer gives the ref its place in the chain, an executor executes it and publishes a receipt, and the egress
  merges the receipts of the executors into one canonical stream.  Receipts flow back to the sequencer,
  which learns from them what the chain executed.

  \<^bold>\<open>Parts, theories and sources.\<close>  Paths are below \<open>src/\<close>.

  \<^item> \<open>Prelude\<close>, \<open>Byte_Words\<close>: machine integers, the containers of the Rust standard library, byte strings
    of words, and the interfaces \<open>map_adt\<close>, \<open>ordered_map_adt\<close>, \<open>invariant_machine\<close>, \<open>admissible_run\<close> and
    \<open>outputs\<close> that the components instantiate.
  \<^item> \<open>Pending_Buffer\<close> (\<open>crates/sequencer/src/pending.rs\<close>) and \<open>Partition_State\<close>
    (\<open>crates/sequencer/src/state/mod.rs\<close>): the nonce state machine.  A \<open>PendingBuffer\<close> is the sorted map of
    slots of the source, a \<open>PartitionState\<close> its record of maps, and each method is one definition.
    \<open>Partition_Invariant\<close> gives the effect of each method; \<open>Partition_Safety\<close> runs the methods as events and shows
    that what is published for a sender is dense, that nothing below the floor stays buffered, and that
    the sweep of deadlines is sound and complete.
  \<^item> \<open>Unconfirmed\<close>, \<open>Nonce_Ahead\<close>: the ledger of refs without a receipt (\<open>unconfirmed.rs\<close>) and the watch
    for senders that wait ahead of the chain (\<open>nonce_ahead.rs\<close>).
  \<^item> \<open>Resync\<close>, \<open>Resync_Floor\<close>, \<open>Resync_Safety\<close> (\<open>crates/sequencer/src/resync/\<close>): the floors that receipts and
    rollbacks prove, the answers of the sealer, and the resync mode.
  \<^item> \<open>Fees\<close>, \<open>Tx_Decode\<close>, \<open>Sequencer_Config\<close>: the fee schedule and the fee gate (\<open>crates/types/src/fees.rs\<close>,
    \<open>crates/sequencer/src/fees.rs\<close>), the field extraction from RLP bytes (\<open>tx_decode.rs\<close>) and the settings
    (\<open>config.rs\<close>).
  \<^item> \<open>Sequencer\<close> (\<open>sequencer.rs\<close>, \<open>sequencer/sealer_answers.rs\<close>, \<open>sequencer/receipt_floor.rs\<close>): the publish loop
    as functions on a world, which is the state of the loop and the ports of one run.  \<open>Side_Channels\<close> holds the
    records that the loop publishes.  \<open>Sequencer_Flush\<close> shows what a flush does with each ref under the
    contract \<open>ref_publisher\<close>; \<open>Cluster_Publisher\<close> (\<open>outbound/cluster.rs\<close>, \<open>crates/cluster-adapter/src/wire/\<close>)
    models the frames and the publisher, and shows that it keeps the contract; \<open>Sequencer_Shadow\<close> and
    \<open>Sequencer_Ingest\<close> follow whole runs and one envelope through all components.
  \<^item> \<open>Admission_Sender\<close>, \<open>Admission\<close>, \<open>Admission_Park\<close> (\<open>crates/sequencer/src/admission/\<close>): the admission filter
    of the second loop, which forwards what a sender can pay for, parks the rest and recovers lost runs.
  \<^item> \<open>Epoch_Derivation\<close>, \<open>Epoch_Pump\<close> (\<open>crates/types/src/epoch.rs\<close>, \<open>crates/sequencer/src/epoch.rs\<close>, \<open>pump.rs\<close>): the derivation
    of an epoch from L1 logs, and the pump that offers epochs in order.
  \<^item> \<open>Positions\<close>, \<open>Receipt\<close>, \<open>Live_Accounts\<close>, \<open>Egress_Receipts\<close> (\<open>crates/types/src/\<close>, \<open>crates/cache/src/\<close>,
    \<open>crates/egress/src/receipts.rs\<close>): positions and refs, receipts and their merge, the account layer of the
    cache, and the canonical stream of receipts.
  \<^item> \<open>Vslot_Set\<close>, \<open>Shard_Map\<close> (\<open>crates/types/src/shard_map.rs\<close>): which sequencer serves which sender, the text form
    of slot sets, and the rebalance of lanes.

  \<^bold>\<open>Conventions.\<close>  A Rust integer is a word of its width, with the saturating and checked methods written
  out.  An \<open>Instant\<close> or a \<open>Duration\<close> is a natural number of nanoseconds.  A \<open>HashMap\<close> is an association list
  with distinct keys, so no theorem depends on the iteration order of Rust; a \<open>BTreeMap\<close> is a sorted one.
  A \<open>Result\<close> is a sum type, and each error of the source is a branch.  A call that can panic or not return is an
  option.  Metrics, logs and sleeps are dropped.  Code outside the sources is a parameter: keccak256, the
  complete decode of a transaction, the session of the cluster client.

  \<^bold>\<open>What the properties show.\<close>  The nonce order of one sender survives every operation: the trace of
  published refs has no hole and no repetition below the floor.  Every envelope is settled in its pass,
  every ref of a flush is accounted for, and the flush ends whatever the session answers.  During a resize
  the slots that warm up are silent.  The admission filter never forwards more than a sender can pay, loses no
  candidate, and leaves nothing runnable behind.  Epochs go out without a gap and drain.  The merged
  receipts are one canonical stream.  Slot sets, transactions, frames and feature flags round-trip through
  their encodings.  The base fee follows EIP-1559.  The properties of kind \<open>error\<close> are behaviours of the code
  that its comments rule out, each with the state in which it occurs.

  \<^bold>\<open>Termination and bounds.\<close>  Every definition is total except \<open>flush_loop\<close>, which follows the \<open>while\<close> loop of
  the source through \<open>partial_function\<close>; \<open>flush_returns\<close> shows that it returns for every session.  No definition
  uses fuel.  A run of the publish loop is as long as the list of shutdown signals it reads.

  \<^bold>\<open>Not modelled.\<close>  The transports (Aeron, archives, JSON-RPC, Redis) are I/O: their results are inputs of the
  model.  The executor, the engine and the parallel execution consist of calls into revm, and the state
  store of calls into libmdbx, whose semantics is outside the sources.  The threads and queues
  of the second loop are wiring around the admission filter.  The batcher, the reconstruction, the watchers and the validator read
  and write L1 through client libraries.  The contracts and the proof guest are other programs.  Tests,
  benchmarks, chaos cases and metrics have no effect on the ordering path.
\<close>

end
